(* ===== verification/Xv6_Prelude.thy ===== *)
theory Xv6_Prelude
  imports Main "HOL-Library.Word"
begin

text \<open>
  Shared ground of the xv6 library: the C integer types, byte buffers with the
  little-endian loads and stores that the compiler emits for struct fields, the outcome
  monad in which kernel code is written, its loop combinators, and the two reusable
  judgements \<open>pres\<close> (an operation preserves a state predicate) and \<open>keeps\<close> (an operation
  leaves an observation of the state alone), with the rules that push them through the
  control structure of an operation.
\<close>

unbundle bit_operations_syntax

named_theorems pres_intro \<open>rules that decompose a preservation goal along an operation\<close>
named_theorems keeps_intro \<open>rules that decompose a frame goal along an operation\<close>
named_theorems run_simps \<open>equations that execute an operation from a concrete state\<close>

section \<open>Integer types and byte buffers\<close>

text \<open>The integer types of \<open>kernel/types.h\<close>.\<close>

type_synonym u8 = "8 word"
type_synonym u16 = "16 word"
type_synonym u32 = "32 word"
type_synonym u64 = "64 word"

text \<open>
  A C byte array, seen from its first byte; physical memory, seen as a whole.
\<close>

type_synonym bytes = "nat \<Rightarrow> u8"
type_synonym memory = "u64 \<Rightarrow> u8"

primrec le_nat :: "nat \<Rightarrow> bytes \<Rightarrow> nat" where
  "le_nat 0 f = 0"
| "le_nat (Suc n) f = le_nat n f + unat (f n) * 256 ^ n"

definition le_byte :: "nat \<Rightarrow> nat \<Rightarrow> u8" where
  "le_byte v i = of_nat (v div 256 ^ i)"

text \<open>Reading and overwriting a range of a byte array.\<close>

definition at :: "bytes \<Rightarrow> nat \<Rightarrow> bytes" where
  "at d off = (\<lambda>i. d (off + i))"

definition overwrite :: "bytes \<Rightarrow> nat \<Rightarrow> nat \<Rightarrow> bytes \<Rightarrow> bytes" where
  "overwrite d off n src = (\<lambda>x. if off \<le> x \<and> x < off + n then src (x - off) else d x)"

definition ld16 :: "bytes \<Rightarrow> nat \<Rightarrow> u16" where
  "ld16 d off = of_nat (le_nat 2 (at d off))"

definition ld32 :: "bytes \<Rightarrow> nat \<Rightarrow> u32" where
  "ld32 d off = of_nat (le_nat 4 (at d off))"

definition st16 :: "bytes \<Rightarrow> nat \<Rightarrow> u16 \<Rightarrow> bytes" where
  "st16 d off v = overwrite d off 2 (le_byte (unat v))"

definition st32 :: "bytes \<Rightarrow> nat \<Rightarrow> u32 \<Rightarrow> bytes" where
  "st32 d off v = overwrite d off 4 (le_byte (unat v))"

text \<open>The same on physical memory, whose addresses wrap at \<open>2 ^ 64\<close>.\<close>

definition mem_read :: "memory \<Rightarrow> u64 \<Rightarrow> bytes" where
  "mem_read m a = (\<lambda>i. m (a + of_nat i))"

definition mem_write :: "memory \<Rightarrow> u64 \<Rightarrow> nat \<Rightarrow> bytes \<Rightarrow> memory" where
  "mem_write m a n src = (\<lambda>x. if unat (x - a) < n then src (unat (x - a)) else m x)"

definition ld64 :: "memory \<Rightarrow> u64 \<Rightarrow> u64" where
  "ld64 m a = of_nat (le_nat 8 (mem_read m a))"

definition st64 :: "memory \<Rightarrow> u64 \<Rightarrow> u64 \<Rightarrow> memory" where
  "st64 m a v = mem_write m a 8 (le_byte (unat v))"

section \<open>Outcomes of kernel code\<close>

text \<open>
  What a process can sleep on: the kernel passes the address of an object as the channel,
  the model names the object.
\<close>

datatype chan =
    ChProc nat \<comment> \<open>\<open>p\<close> itself, slept on by \<open>wait\<close>\<close>
  | ChLog \<comment> \<open>\<open>&log\<close>\<close>
  | ChTicks \<comment> \<open>\<open>&ticks\<close>\<close>
  | ChPipeRead u64 \<comment> \<open>\<open>&pi->nread\<close>\<close>
  | ChPipeWrite u64 \<comment> \<open>\<open>&pi->nwrite\<close>\<close>
  | ChCons nat \<comment> \<open>\<open>&cons->r\<close>\<close>
  | ChBufLock nat \<comment> \<open>the sleep-lock of a buffer\<close>
  | ChInodeLock nat \<comment> \<open>the sleep-lock of an in-memory inode\<close>
  | ChDiskFree \<comment> \<open>\<open>&disk.free[0]\<close>\<close>
  | ChBuf nat \<comment> \<open>a buffer the disk owns\<close>

text \<open>
  A kernel routine runs to one of four outcomes: it returns; it calls \<open>panic\<close>; it spins for
  ever, from the point of view of the running CPU, for instance on a lock that another CPU
  holds; or it leaves through \<open>swtch\<close>, the state being the one in which the scheduler, or the
  process the scheduler chose, takes over. What a routine does after \<open>swtch\<close> comes back is a
  definition of its own.
\<close>

datatype ('s, 'a) outcome =
    Ok 'a 's
  | Panic string
  | Spin
  | Switch 's

type_synonym ('s, 'a) kernel = "'s \<Rightarrow> ('s, 'a) outcome"

definition return :: "'a \<Rightarrow> ('s, 'a) kernel" where
  "return a = (\<lambda>s. Ok a s)"

definition bind :: "('s, 'a) kernel \<Rightarrow> ('a \<Rightarrow> ('s, 'b) kernel) \<Rightarrow> ('s, 'b) kernel" where
  "bind m f = (\<lambda>s. case m s of
      Ok a s' \<Rightarrow> f a s' | Panic e \<Rightarrow> Panic e | Spin \<Rightarrow> Spin | Switch s' \<Rightarrow> Switch s')"

definition gets :: "('s \<Rightarrow> 'a) \<Rightarrow> ('s, 'a) kernel" where
  "gets f = (\<lambda>s. Ok (f s) s)"

definition modify :: "('s \<Rightarrow> 's) \<Rightarrow> ('s, unit) kernel" where
  "modify g = (\<lambda>s. Ok () (g s))"

definition panic :: "string \<Rightarrow> ('s, 'a) kernel" where
  "panic e = (\<lambda>s. Panic e)"

definition spin :: "('s, 'a) kernel" where
  "spin = (\<lambda>s. Spin)"

text \<open>Statements in sequence, a conditional statement, and the two shapes of \<open>for\<close> loop.\<close>

definition seq :: "('s, 'a) kernel \<Rightarrow> ('s, 'b) kernel \<Rightarrow> ('s, 'b) kernel" where
  "seq m m' = bind m (\<lambda>_. m')"

definition do_when :: "bool \<Rightarrow> ('s, unit) kernel \<Rightarrow> ('s, unit) kernel" where
  "do_when b m = (if b then m else return ())"

primrec block :: "('s, unit) kernel list \<Rightarrow> ('s, unit) kernel" where
  "block [] = return ()"
| "block (m # ms) = seq m (block ms)"

primrec for_each :: "'i list \<Rightarrow> ('i \<Rightarrow> ('s, unit) kernel) \<Rightarrow> ('s, unit) kernel" where
  "for_each [] body = return ()"
| "for_each (i # is) body = seq (body i) (for_each is body)"

primrec for_ret :: "'i list \<Rightarrow> ('i \<Rightarrow> ('s, 'r option) kernel) \<Rightarrow> ('s, 'r option) kernel" where
  "for_ret [] body = return None"
| "for_ret (i # is) body =
     bind (body i) (\<lambda>r. case r of None \<Rightarrow> for_ret is body | Some v \<Rightarrow> return (Some v))"

text \<open>
  A loop that the source does not bound: the body gives the next value of the loop variables
  (\<open>Inl\<close>) or the result (\<open>Inr\<close>). Running out of fuel counts as spinning for ever, so a result
  is only ever a result of the loop itself; each use names a bound that its loop cannot exceed.
\<close>

fun loop :: "nat \<Rightarrow> ('a \<Rightarrow> ('s, 'a + 'r) kernel) \<Rightarrow> 'a \<Rightarrow> ('s, 'r) kernel" where
  "loop n body x =
     (if n = 0 then spin
      else bind (body x) (\<lambda>r. case r of Inl y \<Rightarrow> loop (n - 1) body y | Inr v \<Rightarrow> return v))"

declare loop.simps [simp del]

section \<open>Judgements on operations\<close>

definition pres :: "('s \<Rightarrow> bool) \<Rightarrow> ('s, 'a) kernel \<Rightarrow> bool" where
  "pres I m \<longleftrightarrow> (\<forall>s. I s \<longrightarrow>
     (case m s of Ok a s' \<Rightarrow> I s' | Switch s' \<Rightarrow> I s' | Panic e \<Rightarrow> True | Spin \<Rightarrow> True))"

definition keeps :: "('s \<Rightarrow> 'v) \<Rightarrow> ('s, 'a) kernel \<Rightarrow> bool" where
  "keeps f m \<longleftrightarrow> (\<forall>v. pres (\<lambda>s. f s = v) m)"

definition wlp :: "('s, 'a) kernel \<Rightarrow> ('a \<Rightarrow> 's \<Rightarrow> bool) \<Rightarrow> 's \<Rightarrow> bool" where
  "wlp m Q s \<longleftrightarrow>
     (case m s of Ok a s' \<Rightarrow> Q a s' | Switch s' \<Rightarrow> True | Panic e \<Rightarrow> True | Spin \<Rightarrow> True)"

section \<open>Little-endian representation\<close>

lemma unat_bound: "unat (w :: 'a :: len word) < 2 ^ LENGTH('a)"
  by (rule unsigned_less)

lemma uint_bound: "uint (w :: 'a :: len word) < 2 ^ LENGTH('a)"
  by (rule unsigned_less)

lemma unat_of_nat_small: "n < 2 ^ LENGTH('a) \<Longrightarrow> unat (of_nat n :: 'a :: len word) = n"
  by (simp add: unat_of_nat)

lemma uint_eq_iff [simp]: "uint v = uint w \<longleftrightarrow> v = w" for v w :: "'a :: len word"
  by (simp add: word_uint_eq_iff)

lemma unat_le_byte: "unat (le_byte v i) = v div 256 ^ i mod 256"
  by (simp add: le_byte_def unat_of_nat)

lemma le_nat_le_byte: "le_nat n (le_byte v) = v mod 256 ^ n"
proof (induction n)
  case 0
  then show ?case by simp
next
  case (Suc n)
  have "v mod (256 ^ n * 256) = 256 ^ n * (v div 256 ^ n mod 256) + v mod 256 ^ n"
    by (rule mod_mult2_eq)
  then show ?case
    using Suc by (simp add: unat_le_byte ac_simps)
qed

lemma le_nat_bound: "le_nat n f < 256 ^ n"
proof (induction n)
  case 0
  then show ?case by simp
next
  case (Suc n)
  have "unat (f n) < 256"
    using unat_bound [of "f n"] by simp
  then have "unat (f n) * 256 ^ n \<le> 255 * 256 ^ n"
    by (intro mult_le_mono1) simp
  with Suc.IH have "le_nat (Suc n) f < 256 ^ n + 255 * 256 ^ n"
    unfolding le_nat.simps by (rule add_less_le_mono)
  then show ?case by simp
qed

lemma le_nat_cong: "(\<And>i. i < n \<Longrightarrow> f i = g i) \<Longrightarrow> le_nat n f = le_nat n g"
  by (induction n) simp_all

lemma le_nat_inj: "le_nat n f = le_nat n g \<Longrightarrow> i < n \<Longrightarrow> f i = g i"
proof (induction n)
  case 0
  then show ?case by simp
next
  case (Suc n)
  have split: "unat (h n) = le_nat (Suc n) h div 256 ^ n \<and> le_nat n h = le_nat (Suc n) h mod 256 ^ n"
    for h :: bytes
    using le_nat_bound [of n h] by simp
  have same: "unat (f n) = unat (g n)" and low: "le_nat n f = le_nat n g"
    using split [of f] split [of g] Suc.prems(1) by (auto simp del: le_nat.simps)
  from same have "f n = g n" by (simp add: word_unat_eq_iff)
  then show ?case
    using Suc.IH [OF low] Suc.prems(2) by (cases "i = n") simp_all
qed

lemma at_overwrite_same: "i < n \<Longrightarrow> at (overwrite d off n src) off i = src i"
  by (simp add: at_def overwrite_def)

lemma le_nat_at_overwrite_same: "le_nat n (at (overwrite d off n src) off) = le_nat n src"
  by (rule le_nat_cong) (simp add: at_overwrite_same)

lemma le_nat_at_overwrite_other:
  "off' + k \<le> off \<or> off + n \<le> off' \<Longrightarrow>
     le_nat k (at (overwrite d off n src) off') = le_nat k (at d off')"
  by (rule le_nat_cong) (auto simp: at_def overwrite_def)

lemma overwrite_apply_out [simp]: "x < off \<or> off + n \<le> x \<Longrightarrow> overwrite d off n src x = d x"
  by (auto simp: overwrite_def)

lemma overwrite_apply_in [simp]: "off \<le> x \<Longrightarrow> x < off + n \<Longrightarrow> overwrite d off n src x = src (x - off)"
  by (simp add: overwrite_def)

lemma ld32_st32_same [simp]: "ld32 (st32 d off v) off = v"
  using unat_bound [of v]
  by (simp add: ld32_def st32_def le_nat_at_overwrite_same le_nat_le_byte)

lemma ld32_st32_other [simp]:
  "off' + 4 \<le> off \<or> off + 4 \<le> off' \<Longrightarrow> ld32 (st32 d off v) off' = ld32 d off'"
  by (simp add: ld32_def st32_def le_nat_at_overwrite_other)

lemma ld16_st16_same [simp]: "ld16 (st16 d off v) off = v"
  using unat_bound [of v]
  by (simp add: ld16_def st16_def le_nat_at_overwrite_same le_nat_le_byte)

lemma ld16_st16_other [simp]:
  "off' + 2 \<le> off \<or> off + 2 \<le> off' \<Longrightarrow> ld16 (st16 d off v) off' = ld16 d off'"
  by (simp add: ld16_def st16_def le_nat_at_overwrite_other)

lemma ld16_st32_other [simp]:
  "off' + 2 \<le> off \<or> off + 4 \<le> off' \<Longrightarrow> ld16 (st32 d off v) off' = ld16 d off'"
  by (simp add: ld16_def st32_def le_nat_at_overwrite_other)

lemma ld32_st16_other [simp]:
  "off' + 4 \<le> off \<or> off + 2 \<le> off' \<Longrightarrow> ld32 (st16 d off v) off' = ld32 d off'"
  by (simp add: ld32_def st16_def le_nat_at_overwrite_other)

lemma mem_read_write_same:
  assumes "i < n" and "n \<le> 2 ^ 64"
  shows "mem_read (mem_write m a n src) a i = src i"
  using assms by (simp add: mem_read_def mem_write_def unat_of_nat)

lemma ld64_st64_same [simp]: "ld64 (st64 m a v) a = v"
proof -
  have "le_nat 8 (mem_read (st64 m a v) a) = le_nat 8 (le_byte (unat v))"
    by (rule le_nat_cong) (simp add: st64_def mem_read_write_same)
  then show ?thesis
    using unat_bound [of v] by (simp add: ld64_def le_nat_le_byte)
qed

lemma unat_diff_succ: "x \<noteq> a \<Longrightarrow> unat (x - a) = Suc (unat (x - (a + 1)))" for x a :: u64
proof -
  assume "x \<noteq> a"
  then have "0 < unat (x - a)" by (simp add: unat_gt_0)
  moreover from \<open>x \<noteq> a\<close> have "unat (x - a - 1) = unat (x - a) - 1"
    by (simp add: unat_minus_one)
  moreover have shift: "x - (a + 1) = x - a - 1" by simp
  ultimately show ?thesis unfolding shift by linarith
qed

lemma word_add_diff: "x = a + of_nat (unat (x - a))" for x a :: u64
  by simp

text \<open>Two accesses do not meet when each starts beyond the end of the other.\<close>

lemma mem_write_other:
  assumes "n \<le> unat (b - a)" and "k \<le> unat (a - b)" and "i < k"
  shows "mem_read (mem_write m a n src) b i = mem_read m b i"
proof -
  have "n \<le> unat (b + of_nat i - a)"
  proof (cases "a = b")
    case True
    then show ?thesis using assms by simp
  next
    case False
    then have "unat (b - a) + unat (a - b) = 2 ^ 64"
      using unat_sub_if' [of a b] unat_sub_if' [of b a]
        unat_bound [of a] unat_bound [of b]
      by (auto simp: word_unat_eq_iff split: if_splits)
    then have "unat ((b - a) + of_nat i) = unat (b - a) + i"
      using assms by (simp add: unat_word_ariths(1) unat_of_nat)
    moreover have shift: "b + of_nat i - a = (b - a) + of_nat i" by simp
    ultimately show ?thesis unfolding shift using assms by linarith
  qed
  then show ?thesis
    by (simp add: mem_read_def mem_write_def)
qed

lemma ld64_mem_write_other:
  "n \<le> unat (b - a) \<Longrightarrow> 8 \<le> unat (a - b) \<Longrightarrow> ld64 (mem_write m a n src) b = ld64 m b"
  unfolding ld64_def by (rule arg_cong [where f = of_nat], rule le_nat_cong) (rule mem_write_other)

lemma ld64_st64_other:
  "8 \<le> unat (b - a) \<Longrightarrow> 8 \<le> unat (a - b) \<Longrightarrow> ld64 (st64 m a v) b = ld64 m b"
  unfolding st64_def by (rule ld64_mem_write_other)

section \<open>Searching a table\<close>

lemma find_upt_Some: "find P [0..<n] = Some i \<Longrightarrow> P i \<and> i < n \<and> (\<forall>j<i. \<not> P j)"
  by (auto simp: find_Some_iff)

lemma find_upt_None: "find P [0..<n] = None \<longleftrightarrow> (\<forall>i<n. \<not> P i)"
  by (auto simp: find_None_iff)

lemma find_upt_cong: "(\<And>i. i < n \<Longrightarrow> P i = Q i) \<Longrightarrow> find P [0..<n] = find Q [0..<n]"
  by (rule find_cong) auto

lemma find_upt_least: "P i \<Longrightarrow> i < n \<Longrightarrow> (\<And>j. j < i \<Longrightarrow> \<not> P j) \<Longrightarrow> find P [0..<n] = Some i"
  by (auto simp: find_Some_iff intro!: exI [of _ i])

section \<open>Laws of the outcome monad\<close>

lemma bind_return [simp]: "bind (return a) f = f a"
  by (simp add: bind_def return_def)

lemma bind_assoc: "bind (bind m f) g = bind m (\<lambda>a. bind (f a) g)"
  by (auto simp: bind_def split: outcome.splits)

lemma bind_Ok [run_simps]: "m s = Ok a s' \<Longrightarrow> bind m f s = f a s'"
  by (simp add: bind_def)

lemma bind_eq_OkE:
  assumes "bind m f s = Ok b t"
  obtains a s' where "m s = Ok a s'" and "f a s' = Ok b t"
  using assms by (auto simp: bind_def split: outcome.splits)

lemma return_apply [run_simps]: "return a s = Ok a s"
  by (simp add: return_def)

lemma gets_apply [run_simps]: "gets f s = Ok (f s) s"
  by (simp add: gets_def)

lemma modify_apply [run_simps]: "modify g s = Ok () (g s)"
  by (simp add: modify_def)

lemma panic_apply [run_simps]: "panic e s = Panic e"
  by (simp add: panic_def)

lemma spin_apply [run_simps]: "spin s = Spin"
  by (simp add: spin_def)

lemma bind_gets [run_simps]: "bind (gets f) g s = g (f s) s"
  by (simp add: bind_def gets_def)

lemma bind_modify [run_simps]: "bind (modify f) g s = g () (f s)"
  by (simp add: bind_def modify_def)

lemma seq_modify [run_simps]: "seq (modify f) m s = m (f s)"
  by (simp add: seq_def bind_def modify_def)

lemma bind_panic [run_simps]: "bind (panic e) g s = Panic e"
  by (simp add: bind_def panic_def)

lemma seq_return [simp]: "seq (return a) m = m"
  by (simp add: seq_def)

lemma seq_panic [simp]: "seq (panic e) m = panic e"
  by (simp add: seq_def bind_def panic_def)

lemma when_True [simp]: "do_when True m = m" and when_False [simp]: "do_when False m = return ()"
  by (simp_all add: do_when_def)

lemma seq_Ok [run_simps]: "m s = Ok a s' \<Longrightarrow> seq m m' s = m' s'"
  by (simp add: seq_def bind_def)

lemma seq_assoc: "seq (seq a b) c = seq a (seq b c)"
  by (simp add: seq_def bind_assoc)

lemma seq_eq_OkE:
  assumes "seq m m' s = Ok b t"
  obtains a s' where "m s = Ok a s'" and "m' s' = Ok b t"
  using assms unfolding seq_def by (rule bind_eq_OkE)

lemma loop_unfold:
  "0 < n \<Longrightarrow> loop n body x =
     bind (body x) (\<lambda>r. case r of Inl y \<Rightarrow> loop (n - 1) body y | Inr v \<Rightarrow> return v)"
  by (subst loop.simps) simp

section \<open>Rules for preservation\<close>

lemma presI:
  assumes "\<And>s a t. I s \<Longrightarrow> m s = Ok a t \<Longrightarrow> I t"
    and "\<And>s t. I s \<Longrightarrow> m s = Switch t \<Longrightarrow> I t"
  shows "pres I m"
  unfolding pres_def by (clarsimp split: outcome.split) (blast intro: assms)

lemma presD: "pres I m \<Longrightarrow> I s \<Longrightarrow> m s = Ok a t \<Longrightarrow> I t"
  by (auto simp: pres_def dest!: spec [of _ s])

lemma presD_Switch: "pres I m \<Longrightarrow> I s \<Longrightarrow> m s = Switch t \<Longrightarrow> I t"
  by (auto simp: pres_def dest!: spec [of _ s])

lemma pres_return [pres_intro]: "pres I (return a)"
  by (simp add: pres_def return_def)

lemma pres_gets [pres_intro]: "pres I (gets f)"
  by (simp add: pres_def gets_def)

lemma pres_panic [pres_intro]: "pres I (panic e)"
  by (simp add: pres_def panic_def)

lemma pres_spin [pres_intro]: "pres I spin"
  by (simp add: pres_def spin_def)

lemma pres_modify: "(\<And>s. I s \<Longrightarrow> I (g s)) \<Longrightarrow> pres I (modify g)"
  by (simp add: pres_def modify_def)

lemma pres_bind [pres_intro]:
  assumes m: "pres I m" and f: "\<And>a. pres I (f a)"
  shows "pres I (bind m f)"
proof (rule presI)
  fix s a t
  assume "I s" and "bind m f s = Ok a t"
  then show "I t"
    by (elim bind_eq_OkE) (blast dest: presD [OF m] presD [OF f])
next
  fix s t
  assume "I s" and "bind m f s = Switch t"
  then show "I t"
    by (cases "m s") (auto simp: bind_def dest: presD [OF m] presD_Switch [OF m] presD_Switch [OF f])
qed

lemma pres_seq [pres_intro]: "pres I m \<Longrightarrow> pres I m' \<Longrightarrow> pres I (seq m m')"
  unfolding seq_def by (rule pres_bind)

lemma pres_if [pres_intro]:
  "(b \<Longrightarrow> pres I m) \<Longrightarrow> (\<not> b \<Longrightarrow> pres I m') \<Longrightarrow> pres I (if b then m else m')"
  by simp

lemma pres_when [pres_intro]: "(b \<Longrightarrow> pres I m) \<Longrightarrow> pres I (do_when b m)"
  by (simp add: do_when_def pres_return)

lemma pres_case_option [pres_intro]:
  "(x = None \<Longrightarrow> pres I m) \<Longrightarrow> (\<And>y. x = Some y \<Longrightarrow> pres I (f y)) \<Longrightarrow>
     pres I (case x of None \<Rightarrow> m | Some y \<Rightarrow> f y)"
  by (cases x) simp_all

lemma pres_case_prod [pres_intro]:
  "(\<And>a b. x = (a, b) \<Longrightarrow> pres I (f a b)) \<Longrightarrow> pres I (case x of (a, b) \<Rightarrow> f a b)"
  by (cases x) simp

lemma pres_Let [pres_intro]: "pres I (f v) \<Longrightarrow> pres I (let x = v in f x)"
  by (simp add: Let_def)

lemma pres_for_each [pres_intro]: "(\<And>i. i \<in> set is \<Longrightarrow> pres I (body i)) \<Longrightarrow> pres I (for_each is body)"
  by (induction "is") (auto intro: pres_intro)

lemma pres_block [pres_intro]: "(\<And>m. m \<in> set ms \<Longrightarrow> pres I m) \<Longrightarrow> pres I (block ms)"
  by (induction ms) (auto intro: pres_intro)

lemma pres_for_ret [pres_intro]: "(\<And>i. i \<in> set is \<Longrightarrow> pres I (body i)) \<Longrightarrow> pres I (for_ret is body)"
  by (induction "is") (auto intro!: pres_bind pres_return split: option.split)

lemma pres_case_sum [pres_intro]:
  "(\<And>y. x = Inl y \<Longrightarrow> pres I (f y)) \<Longrightarrow> (\<And>y. x = Inr y \<Longrightarrow> pres I (h y)) \<Longrightarrow>
     pres I (case x of Inl y \<Rightarrow> f y | Inr y \<Rightarrow> h y)"
  by (cases x) simp_all

lemma pres_loop [pres_intro]: "(\<And>x. pres I (body x)) \<Longrightarrow> pres I (loop n body x)"
proof (induction n arbitrary: x)
  case 0
  then show ?case by (simp add: loop.simps pres_spin)
next
  case (Suc n)
  then show ?case
    by (subst loop.simps) (auto intro!: pres_intro)
qed

lemma pres_conj: "pres I m \<Longrightarrow> pres J m \<Longrightarrow> pres (\<lambda>s. I s \<and> J s) m"
  by (rule presI) (blast dest: presD presD_Switch)+

lemma keepsI_modify: "(\<And>s. f (g s) = f s) \<Longrightarrow> keeps f (modify g)"
  by (simp add: keeps_def pres_def modify_def)

lemma keepsD: "keeps f m \<Longrightarrow> m s = Ok a t \<Longrightarrow> f t = f s"
  unfolding keeps_def by (drule spec [of _ "f s"]) (auto dest: presD)

lemma keepsD_Switch: "keeps f m \<Longrightarrow> m s = Switch t \<Longrightarrow> f t = f s"
  unfolding keeps_def by (drule spec [of _ "f s"]) (auto dest: presD_Switch)

lemma keeps_pres: "keeps f m \<Longrightarrow> pres (\<lambda>s. P (f s)) m"
  by (rule presI) (auto dest: keepsD keepsD_Switch)

lemma keeps_return [keeps_intro]: "keeps f (return a)"
  and keeps_gets [keeps_intro]: "keeps f (gets h)"
  and keeps_panic [keeps_intro]: "keeps f (panic e)"
  and keeps_spin [keeps_intro]: "keeps f spin"
  by (simp_all add: keeps_def pres_intro)

lemma keeps_bind [keeps_intro]: "keeps f m \<Longrightarrow> (\<And>a. keeps f (h a)) \<Longrightarrow> keeps f (bind m h)"
  by (simp add: keeps_def pres_intro)

lemma keeps_seq [keeps_intro]: "keeps f m \<Longrightarrow> keeps f m' \<Longrightarrow> keeps f (seq m m')"
  by (simp add: keeps_def pres_intro)

lemma keeps_if [keeps_intro]:
  "(b \<Longrightarrow> keeps f m) \<Longrightarrow> (\<not> b \<Longrightarrow> keeps f m') \<Longrightarrow> keeps f (if b then m else m')"
  by simp

lemma keeps_when [keeps_intro]: "(b \<Longrightarrow> keeps f m) \<Longrightarrow> keeps f (do_when b m)"
  by (simp add: keeps_def pres_intro)

lemma keeps_case_option [keeps_intro]:
  "(x = None \<Longrightarrow> keeps f m) \<Longrightarrow> (\<And>y. x = Some y \<Longrightarrow> keeps f (h y)) \<Longrightarrow>
     keeps f (case x of None \<Rightarrow> m | Some y \<Rightarrow> h y)"
  by (cases x) simp_all

lemma keeps_case_prod [keeps_intro]:
  "(\<And>a b. x = (a, b) \<Longrightarrow> keeps f (h a b)) \<Longrightarrow> keeps f (case x of (a, b) \<Rightarrow> h a b)"
  by (cases x) simp

lemma keeps_Let [keeps_intro]: "keeps f (h v) \<Longrightarrow> keeps f (let x = v in h x)"
  by (simp add: Let_def)

lemma keeps_for_each [keeps_intro]:
  "(\<And>i. i \<in> set is \<Longrightarrow> keeps f (body i)) \<Longrightarrow> keeps f (for_each is body)"
  by (simp add: keeps_def pres_intro)

lemma keeps_for_ret [keeps_intro]:
  "(\<And>i. i \<in> set is \<Longrightarrow> keeps f (body i)) \<Longrightarrow> keeps f (for_ret is body)"
  by (simp add: keeps_def pres_intro)

lemma keeps_block [keeps_intro]: "(\<And>m. m \<in> set ms \<Longrightarrow> keeps f m) \<Longrightarrow> keeps f (block ms)"
  by (simp add: keeps_def pres_intro)

lemma keeps_case_sum [keeps_intro]:
  "(\<And>y. x = Inl y \<Longrightarrow> keeps f (g y)) \<Longrightarrow> (\<And>y. x = Inr y \<Longrightarrow> keeps f (h y)) \<Longrightarrow>
     keeps f (case x of Inl y \<Rightarrow> g y | Inr y \<Rightarrow> h y)"
  by (cases x) simp_all

lemma keeps_loop [keeps_intro]: "(\<And>x. keeps f (body x)) \<Longrightarrow> keeps f (loop n body x)"
  by (simp add: keeps_def pres_intro)

section \<open>Rules for partial correctness\<close>

lemma wlpD: "wlp m Q s \<Longrightarrow> m s = Ok a t \<Longrightarrow> Q a t"
  by (simp add: wlp_def)

lemma wlp_bind [simp]: "wlp (bind m f) Q s = wlp m (\<lambda>a. wlp (f a) Q) s"
  by (auto simp: wlp_def bind_def split: outcome.splits)

lemma wlp_seq [simp]: "wlp (seq m m') Q s = wlp m (\<lambda>_. wlp m' Q) s"
  by (simp add: seq_def)

lemma wlp_return [simp]: "wlp (return a) Q s = Q a s"
  by (simp add: wlp_def return_def)

lemma wlp_return_fun [simp]: "wlp (return a) Q = Q a"
  by (rule ext) simp

lemma wlp_gets [simp]: "wlp (gets f) Q s = Q (f s) s"
  by (simp add: wlp_def gets_def)

lemma wlp_modify [simp]: "wlp (modify g) Q s = Q () (g s)"
  by (simp add: wlp_def modify_def)

lemma wlp_panic [simp]: "wlp (panic e) Q s"
  by (simp add: wlp_def panic_def)

lemma wlp_spin [simp]: "wlp spin Q s"
  by (simp add: wlp_def spin_def)

lemma wlp_mono: "wlp m Q s \<Longrightarrow> (\<And>a t. Q a t \<Longrightarrow> R a t) \<Longrightarrow> wlp m R s"
  by (auto simp: wlp_def split: outcome.splits)

lemma wlp_keeps: "keeps f m \<Longrightarrow> (\<And>a t. f t = f s \<Longrightarrow> Q a t) \<Longrightarrow> wlp m Q s"
  by (auto simp: wlp_def dest: keepsD split: outcome.split)

lemma wlp_if: "(b \<Longrightarrow> wlp m Q s) \<Longrightarrow> (\<not> b \<Longrightarrow> wlp m' Q s) \<Longrightarrow> wlp (if b then m else m') Q s"
  by simp

section \<open>Loops over a list\<close>

lemma for_each_snoc: "for_each (xs @ [x]) body = seq (for_each xs body) (body x)"
proof (induction xs)
  case Nil
  show ?case by (auto simp: seq_def return_def bind_def fun_eq_iff split: outcome.splits)
next
  case (Cons y xs)
  then show ?case by (simp add: seq_assoc)
qed

lemma for_each_fold:
  assumes "\<And>x s. x \<in> set xs \<Longrightarrow> I s \<Longrightarrow> body x s = Ok () (g x s) \<and> I (g x s)" and "I s"
  shows "for_each xs body s = Ok () (fold g xs s) \<and> I (fold g xs s)"
  using assms
proof (induction xs arbitrary: s)
  case Nil
  then show ?case by (simp add: return_apply)
next
  case (Cons x xs)
  then have "body x s = Ok () (g x s)" and "I (g x s)"
    by simp_all
  then show ?case
    using Cons.IH [of "g x s"] Cons.prems(1) by (simp add: seq_Ok)
qed

end
