(* ===== verification/Xv6_String.thy ===== *)
theory Xv6_String
  imports Xv6_Prelude
begin

text \<open>
  The memory and string routines of \<open>kernel/string.c\<close> and of the user library
  \<open>user/ulib.c\<close>. Routines that move bytes between two regions of the one physical memory
  (\<open>memset\<close>, \<open>memmove\<close>) work on a \<open>memory\<close> and addresses, so that overlapping regions
  alias as they do in C; string routines work on the byte arrays their pointers designate.
  A loop that runs until it meets a NUL is a \<open>partial_function (option)\<close>: \<open>None\<close> is a
  string without terminator.
\<close>

section \<open>Kernel routines\<close>

primrec memset_loop :: "memory \<Rightarrow> u64 \<Rightarrow> u8 \<Rightarrow> nat \<Rightarrow> memory" where
  "memset_loop m dst c 0 = m"
| "memset_loop m dst c (Suc n) = memset_loop (m(dst := c)) (dst + 1) c n"

definition memset :: "memory \<Rightarrow> u64 \<Rightarrow> u8 \<Rightarrow> nat \<Rightarrow> memory" where
  "memset m dst c n = memset_loop m dst c n"

primrec memcmp_loop :: "bytes \<Rightarrow> bytes \<Rightarrow> nat \<Rightarrow> nat \<Rightarrow> int" where
  "memcmp_loop s1 s2 i 0 = 0"
| "memcmp_loop s1 s2 i (Suc n) =
     (if s1 i \<noteq> s2 i then uint (s1 i) - uint (s2 i) else memcmp_loop s1 s2 (Suc i) n)"

definition memcmp :: "bytes \<Rightarrow> bytes \<Rightarrow> nat \<Rightarrow> int" where
  "memcmp v1 v2 n = memcmp_loop v1 v2 0 n"

text \<open>The two copying loops of \<open>memmove\<close>: upwards, and downwards from the end.\<close>

primrec copy_up :: "memory \<Rightarrow> u64 \<Rightarrow> u64 \<Rightarrow> nat \<Rightarrow> memory" where
  "copy_up m d s 0 = m"
| "copy_up m d s (Suc n) = copy_up (m(d := m s)) (d + 1) (s + 1) n"

primrec copy_down :: "memory \<Rightarrow> u64 \<Rightarrow> u64 \<Rightarrow> nat \<Rightarrow> memory" where
  "copy_down m d s 0 = m"
| "copy_down m d s (Suc n) = copy_down (m(d - 1 := m (s - 1))) (d - 1) (s - 1) n"

definition memmove :: "memory \<Rightarrow> u64 \<Rightarrow> u64 \<Rightarrow> nat \<Rightarrow> memory" where
  "memmove m dst src n =
     (if src < dst \<and> src + of_nat n > dst
      then copy_down m (dst + of_nat n) (src + of_nat n) n
      else copy_up m dst src n)"

primrec strncmp_loop :: "bytes \<Rightarrow> bytes \<Rightarrow> nat \<Rightarrow> nat \<Rightarrow> int" where
  "strncmp_loop p q i 0 = 0"
| "strncmp_loop p q i (Suc n) =
     (if p i \<noteq> 0 \<and> p i = q i then strncmp_loop p q (Suc i) n
      else uint (p i) - uint (q i))"

definition strncmp :: "bytes \<Rightarrow> bytes \<Rightarrow> nat \<Rightarrow> int" where
  "strncmp p q n = strncmp_loop p q 0 n"

primrec zero_fill :: "bytes \<Rightarrow> nat \<Rightarrow> nat \<Rightarrow> bytes" where
  "zero_fill s i 0 = s"
| "zero_fill s i (Suc n) = zero_fill (s(i := 0)) (Suc i) n"

primrec strncpy_loop :: "bytes \<Rightarrow> bytes \<Rightarrow> nat \<Rightarrow> nat \<Rightarrow> bytes" where
  "strncpy_loop s t i 0 = s"
| "strncpy_loop s t i (Suc n) =
     (if t i \<noteq> 0 then strncpy_loop (s(i := t i)) t (Suc i) n
      else zero_fill (s(i := t i)) (Suc i) n)"

definition strncpy :: "bytes \<Rightarrow> bytes \<Rightarrow> nat \<Rightarrow> bytes" where
  "strncpy s t n = strncpy_loop s t 0 n"

text \<open>The loop of \<open>safestrcpy\<close> after \<open>--n\<close>: \<open>n\<close> bytes may still be copied.\<close>

primrec safestrcpy_loop :: "bytes \<Rightarrow> bytes \<Rightarrow> nat \<Rightarrow> nat \<Rightarrow> bytes" where
  "safestrcpy_loop s t i 0 = s(i := 0)"
| "safestrcpy_loop s t i (Suc n) =
     (if t i \<noteq> 0 then safestrcpy_loop (s(i := t i)) t (Suc i) n
      else (s(i := t i))(Suc i := 0))"

definition safestrcpy :: "bytes \<Rightarrow> bytes \<Rightarrow> nat \<Rightarrow> bytes" where
  "safestrcpy s t n = (if n = 0 then s else safestrcpy_loop s t 0 (n - 1))"

partial_function (option) strlen_loop :: "bytes \<Rightarrow> nat \<Rightarrow> nat option" where
  "strlen_loop s n = (if s n = 0 then Some n else strlen_loop s (Suc n))"

definition strlen :: "bytes \<Rightarrow> nat option" where
  "strlen s = strlen_loop s 0"

section \<open>User library routines\<close>

partial_function (option) ustrcpy_loop :: "bytes \<Rightarrow> bytes \<Rightarrow> nat \<Rightarrow> bytes option" where
  "ustrcpy_loop s t i =
     (if t i \<noteq> 0 then ustrcpy_loop (s(i := t i)) t (Suc i) else Some (s(i := t i)))"

definition ustrcpy :: "bytes \<Rightarrow> bytes \<Rightarrow> bytes option" where
  "ustrcpy s t = ustrcpy_loop s t 0"

partial_function (option) ustrcmp_loop :: "bytes \<Rightarrow> bytes \<Rightarrow> nat \<Rightarrow> int option" where
  "ustrcmp_loop p q i =
     (if p i \<noteq> 0 \<and> p i = q i then ustrcmp_loop p q (Suc i)
      else Some (uint (p i) - uint (q i)))"

definition ustrcmp :: "bytes \<Rightarrow> bytes \<Rightarrow> int option" where
  "ustrcmp p q = ustrcmp_loop p q 0"

text \<open>\<open>strchr\<close> returns a position, or \<open>Some None\<close> for the null pointer.\<close>

partial_function (option) ustrchr_loop :: "bytes \<Rightarrow> u8 \<Rightarrow> nat \<Rightarrow> nat option option" where
  "ustrchr_loop s c i =
     (if s i = 0 then Some None
      else if s i = c then Some (Some i) else ustrchr_loop s c (Suc i))"

definition ustrchr :: "bytes \<Rightarrow> u8 \<Rightarrow> nat option option" where
  "ustrchr s c = ustrchr_loop s c 0"

text \<open>
  \<open>atoi\<close> accumulates in a C \<open>int\<close>. The overflow of a numeral beyond 32 bits is undefined in C;
  the definition wraps, as the multiply and add instructions of the target do.
\<close>

partial_function (option) uatoi_loop :: "bytes \<Rightarrow> nat \<Rightarrow> u32 \<Rightarrow> u32 option" where
  "uatoi_loop s i n =
     (if 48 \<le> s i \<and> s i \<le> 57 then uatoi_loop s (Suc i) (n * 10 + ucast (s i) - 48)
      else Some n)"

definition uatoi :: "bytes \<Rightarrow> u32 option" where
  "uatoi s = uatoi_loop s 0 0"

text \<open>The user library's \<open>memmove\<close> has the upward loop only.\<close>

definition umemmove :: "memory \<Rightarrow> u64 \<Rightarrow> u64 \<Rightarrow> nat \<Rightarrow> memory" where
  "umemmove m vdst vsrc n = copy_up m vdst vsrc n"

section \<open>Abstraction: the string a byte array holds\<close>

text \<open>The C string in the first \<open>n\<close> bytes of an array: what precedes the first NUL.\<close>

definition cstr :: "nat \<Rightarrow> bytes \<Rightarrow> u8 list" where
  "cstr n s = takeWhile (\<lambda>c. c \<noteq> 0) (map s [0..<n])"

text \<open>The array that starts with the bytes of a list and goes on with zeros.\<close>

definition of_bytes :: "u8 list \<Rightarrow> bytes" where
  "of_bytes xs = (\<lambda>i. if i < length xs then xs ! i else 0)"

section \<open>Moving memory\<close>

lemma memset_eq: "n \<le> 2 ^ 64 \<Longrightarrow> memset m dst c n = mem_write m dst n (\<lambda>_. c)"
proof -
  have "n \<le> 2 ^ 64 \<Longrightarrow> memset_loop m dst c n = mem_write m dst n (\<lambda>_. c)"
  proof (induction n arbitrary: m dst)
    case 0
    then show ?case by (simp add: mem_write_def)
  next
    case (Suc n)
    have "mem_write (m(dst := c)) (dst + 1) n (\<lambda>_. c) x = mem_write m dst (Suc n) (\<lambda>_. c) x" for x
      by (cases "x = dst") (simp_all add: mem_write_def unat_diff_succ [of x dst])
    then show ?case using Suc by (simp add: fun_eq_iff)
  qed
  then show "n \<le> 2 ^ 64 \<Longrightarrow> ?thesis"
    by (simp add: memset_def)
qed

lemma copy_up_eq:
  "n \<le> 2 ^ 64 \<Longrightarrow> d = s \<or> n \<le> unat (d - s) \<Longrightarrow>
     copy_up m d s n = mem_write m d n (mem_read m s)"
proof (induction n arbitrary: m d s)
  case 0
  then show ?case by (simp add: mem_write_def)
next
  case (Suc n)
  have IH: "copy_up (m(d := m s)) (d + 1) (s + 1) n =
      mem_write (m(d := m s)) (d + 1) n (mem_read (m(d := m s)) (s + 1))"
    using Suc.prems by (intro Suc.IH) auto
  have "mem_write (m(d := m s)) (d + 1) n (mem_read (m(d := m s)) (s + 1)) x =
      mem_write m d (Suc n) (mem_read m s) x" for x
  proof (cases "x = d")
    case True
    have "\<not> unat (- 1 :: u64) < n"
      using Suc.prems(1) by (simp add: unsigned_minus_1_eq_mask mask_eq_exp_minus_1)
    then show ?thesis using True by (simp add: mem_write_def mem_read_def)
  next
    case False
    obtain k where kk: "unat (x - (d + 1)) = k" by blast
    have kd: "unat (x - d) = Suc k"
      using False kk by (simp add: unat_diff_succ)
    have shift: "s + of_nat (Suc k) = s + 1 + of_nat k" by simp
    have "k < n \<Longrightarrow> s + 1 + of_nat k = d \<Longrightarrow> d = s"
    proof -
      assume k: "k < n" and eq: "s + 1 + of_nat k = d"
      then have "d - s = of_nat (Suc k)" by (auto simp: algebra_simps)
      then have "unat (d - s) = Suc k"
        using k Suc.prems(1) by (simp add: unat_of_nat del: of_nat_Suc)
      then show "d = s" using Suc.prems(2) k by simp
    qed
    then have "k < n \<Longrightarrow> (m(d := m s)) (s + 1 + of_nat k) = m (s + 1 + of_nat k)"
      by (metis fun_upd_apply)
    then show ?thesis
      using False unfolding mem_write_def mem_read_def kd kk shift by simp
  qed
  then show ?case using IH by (simp add: fun_eq_iff)
qed

lemma copy_down_eq:
  "n \<le> 2 ^ 64 \<Longrightarrow> d = s \<or> n \<le> unat (s - d) \<Longrightarrow>
     copy_down m (d + of_nat n) (s + of_nat n) n = mem_write m d n (mem_read m s)"
proof (induction n arbitrary: m)
  case 0
  then show ?case by (simp add: mem_write_def)
next
  case (Suc n)
  define m' where "m' = m(d + of_nat n := m (s + of_nat n))"
  have IH: "copy_down m' (d + of_nat n) (s + of_nat n) n = mem_write m' d n (mem_read m' s)"
    using Suc.prems by (intro Suc.IH) auto
  have "mem_write m' d n (mem_read m' s) x = mem_write m d (Suc n) (mem_read m s) x" for x
  proof -
    define k where "k = unat (x - d)"
    have x: "x = d + of_nat k" by (simp add: k_def)
    have top: "x = d + of_nat n \<longleftrightarrow> k = n"
      using Suc.prems(1) by (auto simp: k_def unat_of_nat)
    have "k < n \<Longrightarrow> s + of_nat k = d + of_nat n \<Longrightarrow> d = s"
    proof -
      assume k: "k < n" and eq: "s + of_nat k = d + of_nat n"
      then have "s - d = of_nat (n - k)"
        by (simp add: of_nat_diff algebra_simps)
      then have "unat (s - d) = n - k"
        using k Suc.prems(1) by (simp add: unat_of_nat del: of_nat_diff)
      then have "\<not> Suc n \<le> unat (s - d)" by simp
      then show "d = s" using Suc.prems(2) by blast
    qed
    then show ?thesis
      using top by (auto simp: mem_write_def mem_read_def m'_def k_def [symmetric])
  qed
  then show ?case using IH by (simp add: fun_eq_iff m'_def algebra_simps)
qed

lemma memmove_eq_mem_write:
  assumes "n < 2 ^ 32" and "unat src + n < 2 ^ 64"
  shows "memmove m dst src n = mem_write m dst n (mem_read m src)"
proof (cases "src < dst \<and> src + of_nat n > dst")
  case True
  have sum: "unat (src + of_nat n) \<le> unat src + n"
    using assms(1) by (simp add: unat_word_ariths unat_of_nat)
  have "unat (src - dst) = 2 ^ 64 + unat src - unat dst"
    using True by (simp add: unat_sub_if' word_less_nat_alt)
  moreover have "unat dst < unat src + n"
    using True sum by (simp add: word_less_nat_alt)
  ultimately have "n \<le> unat (src - dst)"
    using assms(1) by simp
  then show ?thesis
    using True assms(1) by (simp add: memmove_def copy_down_eq)
next
  case False
  have "dst = src \<or> n \<le> unat (dst - src)"
  proof (cases "src < dst")
    case True
    then have diff: "unat (dst - src) = unat dst - unat src"
      by (simp add: unat_sub_if' word_less_nat_alt)
    have "unat (src + of_nat n) = unat src + n"
      using assms by (simp add: unat_word_ariths unat_of_nat)
    then have "unat src + n \<le> unat dst"
      using True \<open>\<not> (src < dst \<and> src + of_nat n > dst)\<close> by (simp add: word_less_nat_alt)
    then show ?thesis using diff by linarith
  next
    case False
    then show ?thesis
      using assms(2) by (auto simp: unat_sub_if' word_less_nat_alt word_unat_eq_iff)
  qed
  then show ?thesis
    using False assms(1) by (auto simp: memmove_def intro: copy_up_eq)
qed

section \<open>Strings\<close>

lemma upt_step: "[i..<i + Suc n] = i # [Suc i..<Suc i + n]"
  by (simp add: upt_conv_Cons del: upt_Suc)

lemma strncmp_loop_zero_iff:
  "strncmp_loop p q i n = 0 \<longleftrightarrow>
     takeWhile (\<lambda>c. c \<noteq> 0) (map p [i..<i + n]) = takeWhile (\<lambda>c. c \<noteq> 0) (map q [i..<i + n])"
proof (induction n arbitrary: i)
  case 0
  then show ?case by simp
next
  case (Suc n)
  show ?case
    unfolding upt_step using Suc.IH [of "Suc i"] by (auto simp: unsigned_eq_0_iff simp del: upt_Suc)
qed

lemma strncmp_zero_iff: "strncmp p q n = 0 \<longleftrightarrow> cstr n p = cstr n q"
  using strncmp_loop_zero_iff [of p q 0 n] by (simp add: strncmp_def cstr_def)

lemma memcmp_zero_iff: "memcmp v1 v2 n = 0 \<longleftrightarrow> (\<forall>i<n. v1 i = v2 i)"
proof -
  have "memcmp_loop v1 v2 i n = 0 \<longleftrightarrow> (\<forall>j. i \<le> j \<and> j < i + n \<longrightarrow> v1 j = v2 j)" for i
  proof (induction n arbitrary: i)
    case 0
    then show ?case by auto
  next
    case (Suc n)
    have range: "i \<le> j \<and> j < i + Suc n \<longleftrightarrow> j = i \<or> (Suc i \<le> j \<and> j < Suc i + n)" for j
      by auto
    show ?case
      using Suc.IH [of "Suc i"] unfolding range by auto
  qed
  from this [of 0] show ?thesis by (simp add: memcmp_def)
qed

lemma zero_fill_apply: "zero_fill s i n x = (if i \<le> x \<and> x < i + n then 0 else s x)"
  by (induction n arbitrary: s i) auto

lemma strncpy_loop_apply:
  "strncpy_loop s t i n x =
     (if i \<le> x \<and> x < i + n
      then (if \<forall>j. i \<le> j \<and> j < x \<longrightarrow> t j \<noteq> 0 then t x else 0) else s x)"
proof (induction n arbitrary: s i)
  case 0
  then show ?case by auto
next
  case (Suc n)
  have nonzero: "(\<forall>j. i \<le> j \<and> j < x \<longrightarrow> t j \<noteq> 0) \<longleftrightarrow>
      t i \<noteq> 0 \<and> (\<forall>j. Suc i \<le> j \<and> j < x \<longrightarrow> t j \<noteq> 0)" if "i < x"
    using that by (auto simp: Suc_le_eq dest: le_neq_implies_less)
  have IH: "strncpy_loop s' t (Suc i) n x = (if Suc i \<le> x \<and> x < Suc i + n
      then (if \<forall>j. Suc i \<le> j \<and> j < x \<longrightarrow> t j \<noteq> 0 then t x else 0) else s' x)" for s'
    by (rule Suc.IH)
  have step: "strncpy_loop s t i (Suc n) x = (if t i \<noteq> 0
      then strncpy_loop (s(i := t i)) t (Suc i) n x else zero_fill (s(i := t i)) (Suc i) n x)"
    by simp
  consider "x < i" | "x = i" | "i < x" by linarith
  then show ?case
    unfolding step IH zero_fill_apply using nonzero by cases auto
qed

text \<open>
  What \<open>strncpy\<close> stores: the source up to and including its first NUL, then zeros, and
  nothing outside the \<open>n\<close> bytes.
\<close>

lemma strncpy_apply:
  "strncpy s t n x = (if x < n then (if \<forall>j<x. t j \<noteq> 0 then t x else 0) else s x)"
  by (simp add: strncpy_def strncpy_loop_apply)

lemma takeWhile_map_cong:
  "(\<And>k. k < n \<Longrightarrow> (\<forall>j<k. s (i + j) \<noteq> 0) \<Longrightarrow> s (i + k) = t (i + k)) \<Longrightarrow>
     takeWhile (\<lambda>c. c \<noteq> 0) (map s [i..<i + n]) = takeWhile (\<lambda>c. c \<noteq> 0) (map t [i..<i + n])"
  for s t :: bytes
proof (induction n arbitrary: i)
  case 0
  then show ?case by simp
next
  case (Suc n)
  have head: "s i = t i"
    using Suc.prems [of 0] by simp
  have tail: "takeWhile (\<lambda>c. c \<noteq> 0) (map s [Suc i..<Suc i + n]) =
      takeWhile (\<lambda>c. c \<noteq> 0) (map t [Suc i..<Suc i + n])" if "s i \<noteq> 0"
  proof (rule Suc.IH)
    fix k
    assume k: "k < n" and nz: "\<forall>j<k. s (Suc i + j) \<noteq> 0"
    have "\<forall>j<Suc k. s (i + j) \<noteq> 0"
      using nz that by (auto simp: less_Suc_eq_0_disj)
    then show "s (Suc i + k) = t (Suc i + k)"
      using Suc.prems [of "Suc k"] k by simp
  qed
  show ?case
    unfolding upt_step list.map using head tail by (simp del: upt_Suc)
qed

lemma cstr_cong: "(\<And>i. i < n \<Longrightarrow> (\<forall>j<i. s j \<noteq> 0) \<Longrightarrow> s i = t i) \<Longrightarrow> cstr n s = cstr n t"
  using takeWhile_map_cong [of n s 0 t] by (simp add: cstr_def)

lemma cstr_strncpy: "cstr n (strncpy s t n) = cstr n t"
  by (rule cstr_cong [symmetric]) (simp add: strncpy_apply)

lemma safestrcpy_loop_frame:
  "x < i \<or> i + n < x \<Longrightarrow> safestrcpy_loop s t i n x = s x"
  by (induction n arbitrary: s i) auto

lemma safestrcpy_loop_nul: "\<exists>k. i \<le> k \<and> k \<le> i + n \<and> safestrcpy_loop s t i n k = 0"
proof (induction n arbitrary: s i)
  case 0
  then show ?case by (intro exI [of _ i]) simp
next
  case (Suc n)
  show ?case
  proof (cases "t i = 0")
    case True
    then show ?thesis by (intro exI [of _ "Suc i"]) simp
  next
    case False
    obtain k where "Suc i \<le> k \<and> k \<le> Suc i + n \<and> safestrcpy_loop (s(i := t i)) t (Suc i) n k = 0"
      using Suc.IH by blast
    with False show ?thesis by (intro exI [of _ k]) simp
  qed
qed

lemma safestrcpy_loop_string:
  "takeWhile (\<lambda>c. c \<noteq> 0) (map (safestrcpy_loop s t i n) [i..<i + Suc n]) =
     takeWhile (\<lambda>c. c \<noteq> 0) (map t [i..<i + n])"
proof (induction n arbitrary: s i)
  case 0
  then show ?case by simp
next
  case (Suc n)
  show ?case
  proof (cases "t i = 0")
    case True
    then show ?thesis
      unfolding upt_step [of i "Suc n"] upt_step [of i n] by (simp del: upt_Suc)
  next
    case False
    then have "safestrcpy_loop s t i (Suc n) i = t i"
      by (simp add: safestrcpy_loop_frame)
    moreover have "takeWhile (\<lambda>c. c \<noteq> 0) (map (safestrcpy_loop (s(i := t i)) t (Suc i) n) [Suc i..<Suc i + Suc n]) =
        takeWhile (\<lambda>c. c \<noteq> 0) (map t [Suc i..<Suc i + n])"
      by (rule Suc.IH)
    ultimately show ?thesis
      unfolding upt_step [of i "Suc n"] upt_step [of i n] list.map using False by (simp del: upt_Suc)
  qed
qed

lemma safestrcpy_string: "0 < n \<Longrightarrow> cstr n (safestrcpy s t n) = cstr (n - 1) t"
  using safestrcpy_loop_string [of s t 0 "n - 1"] by (simp add: cstr_def safestrcpy_def)

lemma safestrcpy_nul: "0 < n \<Longrightarrow> \<exists>k<n. safestrcpy s t n k = 0"
proof -
  assume n: "0 < n"
  obtain k where "k \<le> n - 1" and "safestrcpy_loop s t 0 (n - 1) k = 0"
    using safestrcpy_loop_nul [of 0 "n - 1" s t] by auto
  with n show ?thesis by (intro exI [of _ k]) (auto simp: safestrcpy_def)
qed

lemma safestrcpy_frame: "n \<le> x \<Longrightarrow> safestrcpy s t n x = s x"
  by (simp add: safestrcpy_def safestrcpy_loop_frame)

lemma strlen_loop_Some: "i \<le> n \<Longrightarrow> s n = 0 \<Longrightarrow> (\<forall>j. i \<le> j \<and> j < n \<longrightarrow> s j \<noteq> 0) \<Longrightarrow> strlen_loop s i = Some n"
proof (induction "n - i" arbitrary: i)
  case 0
  then show ?case by (simp add: strlen_loop.simps)
next
  case (Suc k)
  then have "s i \<noteq> 0" and "strlen_loop s (Suc i) = Some n" by auto
  then show ?case by (subst strlen_loop.simps) simp
qed

lemma strlen_loop_sound:
  assumes "strlen_loop s i = Some n"
  shows "i \<le> n \<and> s n = 0 \<and> (\<forall>j. i \<le> j \<and> j < n \<longrightarrow> s j \<noteq> 0)"
proof (rule strlen_loop.raw_induct
    [where P = "\<lambda>s i n. i \<le> n \<and> s n = 0 \<and> (\<forall>j. i \<le> j \<and> j < n \<longrightarrow> s j \<noteq> 0)", OF _ assms])
  fix f s i n
  assume IH: "\<And>s i n. f s i = Some n \<Longrightarrow> i \<le> n \<and> s n = 0 \<and> (\<forall>j. i \<le> j \<and> j < n \<longrightarrow> s j \<noteq> 0)"
    and eq: "(if s i = 0 then Some i else f s (Suc i)) = Some n"
  show "i \<le> n \<and> s n = 0 \<and> (\<forall>j. i \<le> j \<and> j < n \<longrightarrow> s j \<noteq> 0)"
  proof (cases "s i = 0")
    case True
    then show ?thesis using eq by auto
  next
    case False
    then show ?thesis using eq IH [of s "Suc i" n] by (auto simp: Suc_le_eq dest: le_neq_implies_less)
  qed
qed

lemma strlen_Some_iff: "strlen s = Some n \<longleftrightarrow> s n = 0 \<and> (\<forall>j<n. s j \<noteq> 0)"
  unfolding strlen_def
proof
  assume "strlen_loop s 0 = Some n"
  then show "s n = 0 \<and> (\<forall>j<n. s j \<noteq> 0)"
    by (auto dest: strlen_loop_sound)
next
  assume "s n = 0 \<and> (\<forall>j<n. s j \<noteq> 0)"
  then show "strlen_loop s 0 = Some n"
    by (intro strlen_loop_Some) simp_all
qed

section \<open>Properties\<close>

text \<open>C23. The kernel's \<open>memmove\<close> copies the source region as it was before the call, wherever the
  two regions lie and however they overlap, and changes no byte outside the destination. The
  source region must not reach the top of the address space.\<close>

theorem memmove_copies:
  assumes "n < 2 ^ 32" and "unat src + n < 2 ^ 64"
  shows "memmove m dst src n x =
    (if unat (x - dst) < n then m (src + (x - dst)) else m x)"
  by (simp add: memmove_eq_mem_write [OF assms] mem_write_def mem_read_def)

theorem memmove_copies_witness:
  "memmove (\<lambda>a. ucast a) 2 0 4 5 = 3"
  using memmove_copies [of 4 0 "\<lambda>a. ucast a" 2 5] by simp

text \<open>C24. \<open>safestrcpy\<close> into a buffer of positive size always leaves a terminated string there, it is
  the longest prefix of the source string that fits with its terminator, and no byte beyond
  the buffer changes.\<close>

theorem safestrcpy_terminates:
  assumes "0 < n"
  shows "(\<exists>k<n. safestrcpy s t n k = 0) \<and> cstr n (safestrcpy s t n) = cstr (n - 1) t \<and>
    (\<forall>x\<ge>n. safestrcpy s t n x = s x)"
  using assms by (simp add: safestrcpy_nul safestrcpy_string safestrcpy_frame)

theorem safestrcpy_terminates_witness:
  "cstr 3 (safestrcpy (\<lambda>_. 7) (of_bytes [104, 105, 33, 33]) 3) = [104, 105]"
proof -
  have "cstr 2 (of_bytes [104, 105, 33, 33]) = [104, 105]"
    by (simp add: cstr_def of_bytes_def upt_rec)
  then show ?thesis
    using safestrcpy_terminates [of 3 "\<lambda>_. 7" "of_bytes [104, 105, 33, 33]"] by simp
qed

end
