(* ===== verification/Xv6_State.thy ===== *)
theory Xv6_State
  imports Xv6_String
begin

text \<open>
  The kernel's data: the constants of \<open>param.h\<close>, \<open>fs.h\<close> and \<open>riscv.h\<close>, the structures of
  the kernel headers as records, and the record of all kernel globals. Arrays are functions
  from indices; a pointer into an array is an index, with \<open>None\<close> for the null pointer. Two
  kinds of object live in the byte-addressed physical memory instead, as they do in the
  kernel: page-table pages and trapframes, both obtained from the page allocator.
\<close>

section \<open>Constants\<close>

abbreviation NPROC :: nat where "NPROC \<equiv> 64"
abbreviation NCPU :: nat where "NCPU \<equiv> 8"
abbreviation NOFILE :: nat where "NOFILE \<equiv> 16"
abbreviation NFILE :: nat where "NFILE \<equiv> 100"
abbreviation NINODE :: nat where "NINODE \<equiv> 50"
abbreviation NDEV :: nat where "NDEV \<equiv> 10"
abbreviation NCONS :: nat where "NCONS \<equiv> 5"
abbreviation NCONTS :: nat where "NCONTS \<equiv> 5"
abbreviation MAXOPBLOCKS :: nat where "MAXOPBLOCKS \<equiv> 10"
abbreviation LOGSIZE :: nat where "LOGSIZE \<equiv> 30"
abbreviation NBUF :: nat where "NBUF \<equiv> 30"
abbreviation MAXPATH :: nat where "MAXPATH \<equiv> 128"
abbreviation BSIZE :: nat where "BSIZE \<equiv> 1024"
abbreviation PGSIZE :: u64 where "PGSIZE \<equiv> 4096"
abbreviation KERNBASE :: u64 where "KERNBASE \<equiv> 0x80000000"
abbreviation PHYSTOP :: u64 where "PHYSTOP \<equiv> 0x88000000"
abbreviation MAXVA :: u64 where "MAXVA \<equiv> 0x4000000000"
abbreviation TRAMPOLINE :: u64 where "TRAMPOLINE \<equiv> 0x3FFFFFF000"
abbreviation TRAPFRAME :: u64 where "TRAPFRAME \<equiv> 0x3FFFFFE000"

text \<open>The rounding macros of \<open>riscv.h\<close>.\<close>

definition PGROUNDUP :: "u64 \<Rightarrow> u64" where
  "PGROUNDUP sz = (sz + PGSIZE - 1) AND NOT (PGSIZE - 1)"

definition PGROUNDDOWN :: "u64 \<Rightarrow> u64" where
  "PGROUNDDOWN a = a AND NOT (PGSIZE - 1)"

section \<open>Locks and CPUs\<close>

text \<open>
  Every spin-lock of the kernel by name. \<open>BufSpin\<close> and \<open>InodeSpin\<close> are the spin-locks inside
  the sleep-locks of a buffer and of an in-memory inode.
\<close>

datatype lockid =
    PidLock | VpidLock nat | ContLock nat | ProcLock nat | KmemLock | TicksLock | PrLock
  | ConsLock nat | BcacheLock | LogLock | IcacheLock | FtableLock | PipeLock u64 | VdiskLock
  | BufSpin nat | InodeSpin nat

record spinlock =
  lk_locked :: bool
  lk_name :: string
  lk_cpu :: "nat option"

datatype sleepid = BufSleep nat | InodeSleep nat

record sleeplock =
  sk_locked :: bool
  sk_name :: string
  sk_pid :: int

text \<open>Per-CPU state; \<open>c_intr\<close> is the CPU's \<open>sstatus.SIE\<close> bit, read by \<open>intr_get\<close>.\<close>

record cpu =
  c_proc :: "nat option"
  c_noff :: int
  c_intena :: bool
  c_intr :: bool

section \<open>Processes and containers\<close>

datatype procstate = UNUSED | SLEEPING | RUNNABLE | RUNNING | ZOMBIE | SUSPENDED

text \<open>The saved kernel context; \<open>cx_s\<close> holds the callee-saved registers \<open>s0\<close> to \<open>s11\<close>.\<close>

record kcontext =
  cx_ra :: u64
  cx_sp :: u64
  cx_s :: "nat \<Rightarrow> u64"

record proc =
  p_state :: procstate
  p_parent :: "nat option"
  p_chan :: "chan option"
  p_killed :: bool
  p_xstate :: u32
  p_pid :: int
  p_kstack :: u64
  p_sz :: u64
  p_pagetable :: u64
  p_tf :: u64
  p_context :: kcontext
  p_ofile :: "nat \<Rightarrow> nat option"
  p_cwd :: "nat option"
  p_name :: bytes
  p_strace :: u64
  p_container :: "nat option"
  p_vpid :: int

datatype containerstate = CUNUSED | CSUSPENDED | CRUNNING

record container =
  ct_name :: bytes
  ct_root :: "nat option"
  ct_root_dir :: bytes
  ct_nextvpid :: int
  ct_maxproc :: int
  ct_memused :: int
  ct_memlimit :: int
  ct_diskused :: int
  ct_disklimit :: int
  ct_state :: containerstate

section \<open>Files, pipes and the disk\<close>

datatype filetype = FD_NONE | FD_PIPE | FD_INODE | FD_DEVICE

record kfile =
  f_type :: filetype
  f_ref :: int
  f_readable :: bool
  f_writable :: bool
  f_pipe :: u64
  f_ip :: "nat option"
  f_off :: u32
  f_major :: u16

record pipe =
  pi_data :: bytes
  pi_nread :: u32
  pi_nwrite :: u32
  pi_readopen :: bool
  pi_writeopen :: bool

record inode =
  i_dev :: u32
  i_inum :: u32
  i_ref :: int
  i_valid :: bool
  i_type :: u16
  i_major :: u16
  i_minor :: u16
  i_nlink :: u16
  i_size :: u32
  i_addrs :: "nat \<Rightarrow> u32"

record buf =
  b_valid :: bool
  b_disk :: bool
  b_dev :: u32
  b_blockno :: u32
  b_refcnt :: u32
  b_prev :: nat
  b_next :: nat
  b_data :: bytes

record superblock =
  sb_magic :: u32
  sb_size :: u32
  sb_nblocks :: u32
  sb_ninodes :: u32
  sb_nlog :: u32
  sb_logstart :: u32
  sb_inodestart :: u32
  sb_bmapstart :: u32

record logst =
  l_start :: u32
  l_size :: int
  l_outstanding :: int
  l_committing :: bool
  l_dev :: u32
  l_n :: int
  l_block :: "nat \<Rightarrow> u32"

record input =
  in_buf :: bytes
  in_r :: u32
  in_w :: u32
  in_e :: u32

section \<open>The kernel's globals\<close>

text \<open>
  Addresses the linker script fixes: the end of the kernel image, of its text, and the
  routines whose addresses the C code stores.
\<close>

record symtab =
  sym_end :: u64
  sym_etext :: u64
  sym_trampoline :: u64
  sym_forkret :: u64
  sym_usertrap :: u64
  sym_kernelvec :: u64
  sym_uservec :: u64
  sym_userret :: u64

text \<open>
  The supervisor trap registers; \<open>cs_spp\<close> and \<open>cs_spie\<close> are the bits \<open>SPP\<close> and \<open>SPIE\<close> of
  \<open>sstatus\<close>, whose bit \<open>SIE\<close> is \<open>c_intr\<close>.
\<close>

record csr =
  cs_scause :: u64
  cs_sepc :: u64
  cs_stval :: u64
  cs_spp :: bool
  cs_spie :: bool
  cs_stvec :: u64
  cs_satp :: u64
  cs_sip :: u64

text \<open>
  The virtio queue of the disk driver. A descriptor's address names the object it points to:
  the request header on the caller's stack (type and sector), the data of a buffer, or the
  status byte of \<open>info[i]\<close>.
\<close>

datatype dptr = VNull | VHdr u32 u64 | VData nat | VStatus nat

record vring_desc =
  d_addr :: dptr
  d_len :: u32
  d_flags :: u16
  d_next :: u16

record vdisk =
  vd_desc :: "nat \<Rightarrow> vring_desc"
  vd_avail_idx :: u16
  vd_avail :: "nat \<Rightarrow> u16"
  vd_used_id :: u16
  vd_used_elems :: "nat \<Rightarrow> u32"
  vd_free :: "nat \<Rightarrow> bool"
  vd_used_idx :: u16
  vd_info_b :: "nat \<Rightarrow> nat option"
  vd_info_status :: "nat \<Rightarrow> u8"

text \<open>
  \<open>k_hart\<close> is the hart id in the \<open>tp\<close> register of the running CPU. \<open>k_uart\<close> collects what
  was sent to the serial line, \<open>k_uart_in\<close> holds the characters its receiver has waiting. \<open>k_kbuf\<close> stands for the local variable of a routine whose
  address it hands to \<open>readi\<close> or \<open>writei\<close>. Index \<open>NBUF\<close> of \<open>k_bufs\<close> is \<open>bcache.head\<close>. \<open>k_disk\<close> is the
  contents of the disk, \<open>k_dhist\<close> the block writes done so far, oldest first. \<open>k_devsw\<close> says
  for which majors \<open>devsw\<close> holds the console routines. \<open>k_mmio\<close> is the value of the
  memory-mapped device registers, \<open>k_irqs\<close> the interrupts that wait in the PLIC, and
  \<open>k_booted\<close> the variable \<open>started\<close> of \<open>main.c\<close>. \<open>k_first\<close> is the static variable \<open>first\<close>
  of \<open>forkret\<close>.
\<close>

record kstate =
  k_hart :: nat
  k_cpus :: "nat \<Rightarrow> cpu"
  k_locks :: "lockid \<Rightarrow> spinlock"
  k_slocks :: "sleepid \<Rightarrow> sleeplock"
  k_procs :: "nat \<Rightarrow> proc"
  k_conts :: "nat \<Rightarrow> container"
  k_initproc :: "nat option"
  k_nextpid :: int
  k_started :: bool
  k_rand :: u64
  k_mem :: memory
  k_freelist :: u64
  k_kpgtbl :: u64
  k_ticks :: u32
  k_uart :: "u8 list"
  k_uart_in :: "u8 list"
  k_pr_locking :: bool
  k_panicked :: bool
  k_consoles :: "nat \<Rightarrow> input"
  k_active :: int
  k_bufs :: "nat \<Rightarrow> buf"
  k_disk :: "u32 \<Rightarrow> bytes"
  k_dhist :: "(u32 \<times> bytes) list"
  k_log :: logst
  k_sb :: superblock
  k_inodes :: "nat \<Rightarrow> inode"
  k_files :: "nat \<Rightarrow> kfile"
  k_pipes :: "u64 \<Rightarrow> pipe"
  k_kbuf :: bytes
  k_devsw :: "nat \<Rightarrow> bool"
  k_vdisk :: vdisk
  k_csr :: csr
  k_mmio :: "u64 \<Rightarrow> u32"
  k_irqs :: "u32 list"
  k_booted :: bool
  k_first :: bool
  k_syms :: symtab

type_synonym 'a k = "(kstate, 'a) kernel"

text \<open>
  What \<open>myproc\<close> and \<open>mycont\<close> may return: the pointer value \<open>-1\<close>, the null pointer, or an
  element of the table. Dereferencing one of the first two faults in the kernel, which
  \<open>kerneltrap\<close> turns into a panic.
\<close>

datatype ptr = Minus1 | Null | Ptr nat

definition deref :: "ptr \<Rightarrow> nat k" where
  "deref p = (case p of Ptr i \<Rightarrow> return i | Null \<Rightarrow> panic ''kerneltrap'' | Minus1 \<Rightarrow> panic ''kerneltrap'')"

definition deref_opt :: "nat option \<Rightarrow> nat k" where
  "deref_opt p = (case p of Some i \<Rightarrow> return i | None \<Rightarrow> panic ''kerneltrap'')"

text \<open>Assignments through pointers into the tables.\<close>

definition upd_cpu :: "(cpu \<Rightarrow> cpu) \<Rightarrow> kstate \<Rightarrow> kstate" where
  "upd_cpu f s = s\<lparr>k_cpus := (k_cpus s)(k_hart s := f (k_cpus s (k_hart s)))\<rparr>"

definition upd_lock :: "lockid \<Rightarrow> (spinlock \<Rightarrow> spinlock) \<Rightarrow> kstate \<Rightarrow> kstate" where
  "upd_lock lk f s = s\<lparr>k_locks := (k_locks s)(lk := f (k_locks s lk))\<rparr>"

definition upd_slock :: "sleepid \<Rightarrow> (sleeplock \<Rightarrow> sleeplock) \<Rightarrow> kstate \<Rightarrow> kstate" where
  "upd_slock lk f s = s\<lparr>k_slocks := (k_slocks s)(lk := f (k_slocks s lk))\<rparr>"

definition upd_proc :: "nat \<Rightarrow> (proc \<Rightarrow> proc) \<Rightarrow> kstate \<Rightarrow> kstate" where
  "upd_proc i f s = s\<lparr>k_procs := (k_procs s)(i := f (k_procs s i))\<rparr>"

definition upd_cont :: "nat \<Rightarrow> (container \<Rightarrow> container) \<Rightarrow> kstate \<Rightarrow> kstate" where
  "upd_cont i f s = s\<lparr>k_conts := (k_conts s)(i := f (k_conts s i))\<rparr>"

definition upd_buf :: "nat \<Rightarrow> (buf \<Rightarrow> buf) \<Rightarrow> kstate \<Rightarrow> kstate" where
  "upd_buf i f s = s\<lparr>k_bufs := (k_bufs s)(i := f (k_bufs s i))\<rparr>"

definition upd_inode :: "nat \<Rightarrow> (inode \<Rightarrow> inode) \<Rightarrow> kstate \<Rightarrow> kstate" where
  "upd_inode i f s = s\<lparr>k_inodes := (k_inodes s)(i := f (k_inodes s i))\<rparr>"

definition upd_file :: "nat \<Rightarrow> (kfile \<Rightarrow> kfile) \<Rightarrow> kstate \<Rightarrow> kstate" where
  "upd_file i f s = s\<lparr>k_files := (k_files s)(i := f (k_files s i))\<rparr>"

definition upd_pipe :: "u64 \<Rightarrow> (pipe \<Rightarrow> pipe) \<Rightarrow> kstate \<Rightarrow> kstate" where
  "upd_pipe a f s = s\<lparr>k_pipes := (k_pipes s)(a := f (k_pipes s a))\<rparr>"

section \<open>The kernel image before boot\<close>

text \<open>
  The globals as the loader leaves them: everything zero but what the sources initialise
  (\<open>nextpid\<close>, \<open>randstate\<close>, \<open>active\<close> and \<open>first\<close>).
\<close>

definition zero_proc :: proc where
  "zero_proc = \<lparr>p_state = UNUSED, p_parent = None, p_chan = None, p_killed = False, p_xstate = 0,
     p_pid = 0, p_kstack = 0, p_sz = 0, p_pagetable = 0, p_tf = 0,
     p_context = \<lparr>cx_ra = 0, cx_sp = 0, cx_s = (\<lambda>_. 0)\<rparr>,
     p_ofile = (\<lambda>_. None), p_cwd = None, p_name = (\<lambda>_. 0), p_strace = 0,
     p_container = None, p_vpid = 0\<rparr>"

definition zero_cont :: container where
  "zero_cont = \<lparr>ct_name = (\<lambda>_. 0), ct_root = None, ct_root_dir = (\<lambda>_. 0), ct_nextvpid = 0,
     ct_maxproc = 0, ct_memused = 0, ct_memlimit = 0, ct_diskused = 0, ct_disklimit = 0,
     ct_state = CUNUSED\<rparr>"

definition zero_inode :: inode where
  "zero_inode = \<lparr>i_dev = 0, i_inum = 0, i_ref = 0, i_valid = False, i_type = 0, i_major = 0,
     i_minor = 0, i_nlink = 0, i_size = 0, i_addrs = (\<lambda>_. 0)\<rparr>"

definition zero_file :: kfile where
  "zero_file = \<lparr>f_type = FD_NONE, f_ref = 0, f_readable = False, f_writable = False, f_pipe = 0,
     f_ip = None, f_off = 0, f_major = 0\<rparr>"

definition zero_pipe :: pipe where
  "zero_pipe = \<lparr>pi_data = (\<lambda>_. 0), pi_nread = 0, pi_nwrite = 0, pi_readopen = False,
     pi_writeopen = False\<rparr>"

definition zero_buf :: buf where
  "zero_buf = \<lparr>b_valid = False, b_disk = False, b_dev = 0, b_blockno = 0, b_refcnt = 0,
     b_prev = 0, b_next = 0, b_data = (\<lambda>_. 0)\<rparr>"

definition zero_sb :: superblock where
  "zero_sb = \<lparr>sb_magic = 0, sb_size = 0, sb_nblocks = 0, sb_ninodes = 0, sb_nlog = 0,
     sb_logstart = 0, sb_inodestart = 0, sb_bmapstart = 0\<rparr>"

definition zero_log :: logst where
  "zero_log = \<lparr>l_start = 0, l_size = 0, l_outstanding = 0, l_committing = False, l_dev = 0,
     l_n = 0, l_block = (\<lambda>_. 0)\<rparr>"

definition zero_vdisk :: vdisk where
  "zero_vdisk = \<lparr>vd_desc = (\<lambda>_. \<lparr>d_addr = VNull, d_len = 0, d_flags = 0, d_next = 0\<rparr>),
     vd_avail_idx = 0, vd_avail = (\<lambda>_. 0), vd_used_id = 0, vd_used_elems = (\<lambda>_. 0),
     vd_free = (\<lambda>_. False), vd_used_idx = 0, vd_info_b = (\<lambda>_. None), vd_info_status = (\<lambda>_. 0)\<rparr>"

definition zero_csr :: csr where
  "zero_csr = \<lparr>cs_scause = 0, cs_sepc = 0, cs_stval = 0, cs_spp = False, cs_spie = False,
     cs_stvec = 0, cs_satp = 0, cs_sip = 0\<rparr>"

definition zero_state :: kstate where
  "zero_state = \<lparr>k_hart = 0,
     k_cpus = (\<lambda>_. \<lparr>c_proc = None, c_noff = 0, c_intena = False, c_intr = False\<rparr>),
     k_locks = (\<lambda>_. \<lparr>lk_locked = False, lk_name = [], lk_cpu = None\<rparr>),
     k_slocks = (\<lambda>_. \<lparr>sk_locked = False, sk_name = [], sk_pid = 0\<rparr>),
     k_procs = (\<lambda>_. zero_proc), k_conts = (\<lambda>_. zero_cont), k_initproc = None, k_nextpid = 1,
     k_started = False, k_rand = 1, k_mem = (\<lambda>_. 0), k_freelist = 0, k_kpgtbl = 0, k_ticks = 0,
     k_uart = [], k_uart_in = [], k_pr_locking = False, k_panicked = False,
     k_consoles = (\<lambda>_. \<lparr>in_buf = (\<lambda>_. 0), in_r = 0, in_w = 0, in_e = 0\<rparr>),
     k_active = 1, k_bufs = (\<lambda>_. zero_buf), k_disk = (\<lambda>_ _. 0), k_dhist = [], k_log = zero_log,
     k_sb = zero_sb, k_inodes = (\<lambda>_. zero_inode), k_files = (\<lambda>_. zero_file),
     k_pipes = (\<lambda>_. zero_pipe), k_kbuf = (\<lambda>_. 0), k_devsw = (\<lambda>_. False),
     k_vdisk = zero_vdisk, k_csr = zero_csr, k_mmio = (\<lambda>_. 0), k_irqs = [], k_booted = False, k_first = True,
     k_syms = \<lparr>sym_end = 0x80030000, sym_etext = 0x80008000, sym_trampoline = 0x80007000,
       sym_forkret = 0x80001000, sym_usertrap = 0x80002000, sym_kernelvec = 0x80003000,
       sym_uservec = 0x80007000, sym_userret = 0x80007090\<rparr>\<rparr>"

lemmas zero_defs =
  zero_state_def zero_proc_def zero_cont_def zero_inode_def zero_file_def zero_pipe_def
  zero_buf_def zero_sb_def zero_log_def zero_vdisk_def zero_csr_def

lemmas upd_defs =
  upd_cpu_def upd_lock_def upd_slock_def upd_proc_def upd_cont_def upd_buf_def upd_inode_def
  upd_file_def upd_pipe_def

section \<open>The null and invalid pointers\<close>

lemma deref_simps [simp]:
  "deref (Ptr i) = return i" "deref Null = panic ''kerneltrap''" "deref Minus1 = panic ''kerneltrap''"
  by (simp_all add: deref_def)

lemma deref_opt_simps [simp]:
  "deref_opt (Some i) = return i" "deref_opt None = panic ''kerneltrap''"
  by (simp_all add: deref_opt_def)

lemma pres_deref [pres_intro]: "pres I (deref p)"
  by (cases p) (simp_all add: pres_intro)

lemma pres_deref_opt [pres_intro]: "pres I (deref_opt p)"
  by (cases p) (simp_all add: pres_intro)

lemma keeps_deref [keeps_intro]: "keeps f (deref p)" and keeps_deref_opt [keeps_intro]: "keeps f (deref_opt q)"
  by (simp_all add: keeps_def pres_intro)

section \<open>Page rounding\<close>

lemma PGROUNDDOWN_eq: "PGROUNDDOWN a = (a div 4096) * 4096"
proof -
  have masked: "PGROUNDDOWN a = a AND NOT (mask 12)"
    by (simp add: PGROUNDDOWN_def mask_eq_exp_minus_1)
  have "PGROUNDDOWN a = push_bit 12 (drop_bit 12 a)"
    unfolding masked by (rule bit_word_eqI) (auto simp: bit_simps)
  then show ?thesis
    by (simp add: push_bit_eq_mult drop_bit_eq_div)
qed

lemma unat_PGROUNDDOWN: "unat (PGROUNDDOWN a) = unat a div 4096 * 4096"
proof -
  have "unat a div 4096 * 4096 < 2 ^ 64"
    using unat_bound [of a] by simp
  then show ?thesis
    by (simp add: PGROUNDDOWN_eq unat_word_ariths unat_div)
qed

lemma PGROUNDUP_eq: "PGROUNDUP sz = PGROUNDDOWN (sz + 4095)"
  by (simp add: PGROUNDUP_def PGROUNDDOWN_def add.commute)

lemma PGROUNDDOWN_le: "PGROUNDDOWN a \<le> a"
  by (simp add: word_le_nat_alt unat_PGROUNDDOWN)

lemma PGROUNDDOWN_aligned: "PGROUNDDOWN a mod 4096 = 0"
  by (simp add: word_unat_eq_iff unat_mod unat_PGROUNDDOWN)

lemma PGROUNDDOWN_id: "a mod 4096 = 0 \<Longrightarrow> PGROUNDDOWN a = a"
proof -
  assume "a mod 4096 = 0"
  then have "unat (a mod 4096) = 0" by (simp only: unsigned_0)
  then have "unat a mod 4096 = 0" by (simp add: unat_mod)
  then have "unat a div 4096 * 4096 = unat a" by (simp add: mod_eq_0_iff_dvd)
  then show ?thesis by (simp only: word_unat_eq_iff unat_PGROUNDDOWN)
qed

end
