(* ===== verification/Xv6_Spinlock.thy ===== *)
theory Xv6_Spinlock
  imports Xv6_State
begin

text \<open>
  \<open>kernel/spinlock.c\<close>: nested interrupt disabling and the spin-locks built on it. Definitions
  run on the CPU \<open>k_hart\<close>; \<open>acquire\<close> of a lock that another CPU holds has the outcome \<open>Spin\<close>.
  The first group of lemmas says what a lock operation does to the state. The second is the
  protocol: in every state that any interleaving of the CPUs' lock operations can reach, a CPU
  that holds a lock runs with interrupts off, and its nesting depth bounds the number of locks
  it holds.
\<close>

definition mycpu :: "cpu k" where
  "mycpu = gets (\<lambda>s. k_cpus s (k_hart s))"

definition intr_get :: "bool k" where
  "intr_get = gets (\<lambda>s. c_intr (k_cpus s (k_hart s)))"

definition intr_off :: "unit k" where
  "intr_off = modify (upd_cpu (\<lambda>c. c\<lparr>c_intr := False\<rparr>))"

definition intr_on :: "unit k" where
  "intr_on = modify (upd_cpu (\<lambda>c. c\<lparr>c_intr := True\<rparr>))"

definition initlock :: "lockid \<Rightarrow> string \<Rightarrow> unit k" where
  "initlock lk name =
     modify (upd_lock lk (\<lambda>_. \<lparr>lk_locked = False, lk_name = name, lk_cpu = None\<rparr>))"

definition push_off :: "unit k" where
  "push_off =
     bind intr_get (\<lambda>old.
     seq intr_off (
     bind mycpu (\<lambda>c.
     seq (do_when (c_noff c = 0) (modify (upd_cpu (\<lambda>c. c\<lparr>c_intena := old\<rparr>))))
     (modify (upd_cpu (\<lambda>c. c\<lparr>c_noff := c_noff c + 1\<rparr>))))))"

definition pop_off :: "unit k" where
  "pop_off =
     bind intr_get (\<lambda>on.
     if on then panic ''pop_off - interruptible''
     else
       seq (modify (upd_cpu (\<lambda>c. c\<lparr>c_noff := c_noff c - 1\<rparr>))) (
       bind mycpu (\<lambda>c.
       if c_noff c < 0 then panic ''pop_off''
       else do_when (c_noff c = 0 \<and> c_intena c) intr_on)))"

definition holding :: "lockid \<Rightarrow> bool k" where
  "holding lk =
     seq push_off (
     bind (gets (\<lambda>s. lk_locked (k_locks s lk) \<and> lk_cpu (k_locks s lk) = Some (k_hart s))) (\<lambda>r.
     seq pop_off (return r)))"

text \<open>The atomic swap of \<open>__sync_lock_test_and_set\<close>, retried until it returns 0.\<close>

definition lock_test_and_set :: "lockid \<Rightarrow> unit k" where
  "lock_test_and_set lk = (\<lambda>s.
     if lk_locked (k_locks s lk) then Spin
     else Ok () (upd_lock lk (\<lambda>l. l\<lparr>lk_locked := True\<rparr>) s))"

definition acquire :: "lockid \<Rightarrow> unit k" where
  "acquire lk =
     seq push_off (
     bind (holding lk) (\<lambda>h.
     if h then panic ''acquire''
     else
       seq (lock_test_and_set lk)
       (modify (\<lambda>s. upd_lock lk (\<lambda>l. l\<lparr>lk_cpu := Some (k_hart s)\<rparr>) s))))"

definition release :: "lockid \<Rightarrow> unit k" where
  "release lk =
     bind (holding lk) (\<lambda>h.
     if \<not> h then panic ''release''
     else block [
       modify (upd_lock lk (\<lambda>l. l\<lparr>lk_cpu := None\<rparr>)),
       modify (upd_lock lk (\<lambda>l. l\<lparr>lk_locked := False\<rparr>)),
       pop_off])"

section \<open>What the operations do\<close>

text \<open>
  A CPU is in order when its nesting depth is not negative and interrupts are off while it is
  positive. A matched \<open>push_off\<close>, \<open>pop_off\<close> pair leaves such a CPU as it was, except that
  \<open>intena\<close> now records the interrupt state if the depth was 0: that state is \<open>irq_sync\<close>.
\<close>

definition cpu_ok :: "kstate \<Rightarrow> bool" where
  "cpu_ok s \<longleftrightarrow> (let c = k_cpus s (k_hart s) in
     0 \<le> c_noff c \<and> (0 < c_noff c \<longrightarrow> \<not> c_intr c))"

definition irq_sync :: "kstate \<Rightarrow> kstate" where
  "irq_sync = upd_cpu (\<lambda>c. if c_noff c = 0 then c\<lparr>c_intena := c_intr c\<rparr> else c)"

definition irq_pushed :: "kstate \<Rightarrow> kstate" where
  "irq_pushed = upd_cpu (\<lambda>c. (if c_noff c = 0 then c\<lparr>c_intena := c_intr c\<rparr> else c)
     \<lparr>c_noff := c_noff c + 1, c_intr := False\<rparr>)"

text \<open>
  A CPU is calm when a matched pair leaves it exactly as it is: it is in order, and at depth 0
  \<open>intena\<close> records the interrupt state already. Every state inside a critical section is calm,
  and so is every state after one.
\<close>

definition calm :: "kstate \<Rightarrow> bool" where
  "calm s \<longleftrightarrow> (let c = k_cpus s (k_hart s) in
     0 \<le> c_noff c \<and> (0 < c_noff c \<longrightarrow> \<not> c_intr c) \<and> (c_noff c = 0 \<longrightarrow> c_intena c = c_intr c))"

definition lock_free :: "lockid \<Rightarrow> kstate \<Rightarrow> bool" where
  "lock_free lk s \<longleftrightarrow> \<not> lk_locked (k_locks s lk) \<and> lk_cpu (k_locks s lk) = None"

definition lock_held :: "lockid \<Rightarrow> kstate \<Rightarrow> bool" where
  "lock_held lk s \<longleftrightarrow> lk_locked (k_locks s lk) \<and> lk_cpu (k_locks s lk) = Some (k_hart s)"

definition locked_state :: "lockid \<Rightarrow> kstate \<Rightarrow> kstate" where
  "locked_state lk s =
     upd_lock lk (\<lambda>l. l\<lparr>lk_locked := True, lk_cpu := Some (k_hart s)\<rparr>) (irq_pushed s)"

section \<open>The interleavings of the lock protocol\<close>

text \<open>
  One step of the machine is one lock operation by any CPU, a bare \<open>push_off\<close> or the
  \<open>pop_off\<close> that matches one, or an interrupt enable or disable that the kernel performs
  outside every critical section.
\<close>

definition on_cpu :: "nat \<Rightarrow> kstate \<Rightarrow> kstate" where
  "on_cpu h s = s\<lparr>k_hart := h\<rparr>"

text \<open>The locks a CPU holds.\<close>

definition held_by :: "nat \<Rightarrow> kstate \<Rightarrow> lockid set" where
  "held_by h s = {lk. lk_locked (k_locks s lk) \<and> lk_cpu (k_locks s lk) = Some h}"

inductive lock_step :: "kstate \<Rightarrow> kstate \<Rightarrow> bool" where
  acquire_step: "acquire lk (on_cpu h s) = Ok u t \<Longrightarrow> lock_step s t"
| release_step: "release lk (on_cpu h s) = Ok u t \<Longrightarrow> lock_step s t"
| push_step: "push_off (on_cpu h s) = Ok u t \<Longrightarrow> lock_step s t"
| pop_step: "int (card (held_by h s)) < c_noff (k_cpus s h) \<Longrightarrow>
     pop_off (on_cpu h s) = Ok u t \<Longrightarrow> lock_step s t"
| intr_step: "c_noff (k_cpus s h) = 0 \<Longrightarrow>
     t = upd_cpu (\<lambda>c. c\<lparr>c_intr := b\<rparr>) (on_cpu h s) \<Longrightarrow> lock_step s t"

inductive lock_reachable :: "kstate \<Rightarrow> bool" where
  boot: "(\<And>h. c_noff (k_cpus s h) = 0) \<Longrightarrow> (\<And>lk. lock_free lk s) \<Longrightarrow> lock_reachable s"
| step: "lock_reachable s \<Longrightarrow> lock_step s t \<Longrightarrow> lock_reachable t"

text \<open>The invariant of the protocol.\<close>

definition lock_inv :: "kstate \<Rightarrow> bool" where
  "lock_inv s \<longleftrightarrow>
     (\<forall>h. finite (held_by h s) \<and> int (card (held_by h s)) \<le> c_noff (k_cpus s h) \<and>
          (0 < c_noff (k_cpus s h) \<longrightarrow> \<not> c_intr (k_cpus s h))) \<and>
     (\<forall>lk. lk_locked (k_locks s lk) \<longleftrightarrow> lk_cpu (k_locks s lk) \<noteq> None)"

section \<open>Lemmas: effect of the operations\<close>

lemmas lock_op_defs =
  mycpu_def intr_get_def intr_off_def intr_on_def push_off_def pop_off_def holding_def
  lock_test_and_set_def acquire_def release_def

lemma push_off_apply: "push_off s = Ok () (irq_pushed s)"
  by (cases "k_cpus s (k_hart s)")
    (simp add: push_off_def intr_get_def intr_off_def mycpu_def irq_pushed_def run_simps
      upd_cpu_def do_when_def)

lemma pop_off_apply:
  "0 < c_noff (k_cpus s (k_hart s)) \<Longrightarrow> \<not> c_intr (k_cpus s (k_hart s)) \<Longrightarrow>
     pop_off s = Ok () (upd_cpu (\<lambda>c. c\<lparr>c_noff := c_noff c - 1,
       c_intr := (c_noff c = 1 \<and> c_intena c)\<rparr>) s)"
  by (cases "k_cpus s (k_hart s)")
    (auto simp: pop_off_def intr_get_def intr_on_def mycpu_def run_simps upd_cpu_def do_when_def)

lemma pop_pushed: "cpu_ok s \<Longrightarrow> pop_off (irq_pushed s) = Ok () (irq_sync s)"
  by (cases "k_cpus s (k_hart s)")
    (auto simp: pop_off_apply irq_pushed_def irq_sync_def cpu_ok_def upd_cpu_def Let_def)

lemma holding_apply: "cpu_ok s \<Longrightarrow> holding lk s = Ok (lock_held lk s) (irq_sync s)"
  by (simp add: holding_def push_off_apply pop_pushed seq_Ok run_simps)
    (simp add: lock_held_def irq_pushed_def upd_cpu_def)

lemma cpu_ok_pushed [simp]: "cpu_ok s \<Longrightarrow> cpu_ok (irq_pushed s)"
  by (simp add: cpu_ok_def irq_pushed_def upd_cpu_def Let_def)

lemma cpu_ok_sync [simp]: "cpu_ok (irq_sync s) = cpu_ok s"
  by (simp add: cpu_ok_def irq_sync_def upd_cpu_def Let_def)

lemma irq_sync_pushed [simp]: "cpu_ok s \<Longrightarrow> irq_sync (irq_pushed s) = irq_pushed s"
  by (auto simp: irq_sync_def irq_pushed_def upd_cpu_def cpu_ok_def Let_def)

lemma acquire_apply:
  assumes "cpu_ok s"
  shows "acquire lk s =
    (if lock_held lk s then Panic ''acquire''
     else if lk_locked (k_locks s lk) then Spin
     else Ok () (locked_state lk s))"
proof -
  have "lock_held lk (irq_pushed s) = lock_held lk s"
    and "k_locks (irq_pushed s) = k_locks s" and "k_hart (irq_pushed s) = k_hart s"
    by (simp_all add: lock_held_def irq_pushed_def upd_cpu_def)
  then show ?thesis
    using assms
    by (simp add: acquire_def push_off_apply holding_apply run_simps seq_Ok bind_Ok)
      (simp add: lock_test_and_set_def seq_def bind_def modify_apply locked_state_def upd_lock_def)
qed

lemma acquire_free: "cpu_ok s \<Longrightarrow> lock_free lk s \<Longrightarrow> acquire lk s = Ok () (locked_state lk s)"
  by (simp add: acquire_apply lock_free_def lock_held_def)

lemma release_apply:
  assumes "cpu_ok s" and "0 < c_noff (k_cpus s (k_hart s))"
  shows "release lk s =
    (if lock_held lk s
     then Ok () (upd_cpu (\<lambda>c. c\<lparr>c_noff := c_noff c - 1, c_intr := (c_noff c = 1 \<and> c_intena c)\<rparr>)
            (upd_lock lk (\<lambda>l. l\<lparr>lk_cpu := None, lk_locked := False\<rparr>) s))
     else Panic ''release'')"
proof -
  have sync: "irq_sync s = s"
    using assms(2) by (simp add: irq_sync_def upd_cpu_def)
  have "\<not> c_intr (k_cpus s (k_hart s))"
    using assms by (simp add: cpu_ok_def Let_def)
  then show ?thesis
    using assms(2)
    by (simp add: release_def bind_Ok holding_apply [OF assms(1)] sync run_simps)
      (simp add: seq_def bind_def return_apply pop_off_apply upd_lock_def)
qed

lemma release_not_held: "cpu_ok s \<Longrightarrow> \<not> lock_held lk s \<Longrightarrow> release lk s = Panic ''release''"
  by (simp add: release_def bind_Ok holding_apply run_simps)

text \<open>
  A critical section: what runs between \<open>acquire\<close> and \<open>release\<close> without touching the locks or
  the CPU state itself, run on the state with the lock held.
\<close>

lemma release_locked:
  assumes "cpu_ok s" and "lock_free lk s"
    and "k_hart t = k_hart s" and "k_cpus t = k_cpus (irq_pushed s)"
    and "k_locks t = k_locks (locked_state lk s)"
  shows "release lk t = Ok () (t\<lparr>k_locks := k_locks s, k_cpus := k_cpus (irq_sync s)\<rparr>)"
proof -
  have ok: "cpu_ok t" and depth: "0 < c_noff (k_cpus t (k_hart t))"
    using assms by (auto simp: cpu_ok_def irq_pushed_def upd_cpu_def Let_def)
  have held: "lock_held lk t"
    using assms by (simp add: lock_held_def locked_state_def upd_lock_def)
  have locks: "k_locks (upd_lock lk (\<lambda>l. l\<lparr>lk_cpu := None, lk_locked := False\<rparr>) t) = k_locks s"
    using assms
    by (cases "k_locks s lk")
      (auto simp: locked_state_def upd_lock_def irq_pushed_def upd_cpu_def lock_free_def)
  have cpus: "k_cpus (upd_cpu (\<lambda>c. c\<lparr>c_noff := c_noff c - 1, c_intr := (c_noff c = 1 \<and> c_intena c)\<rparr>) t) =
      k_cpus (irq_sync s)"
    using assms(1,3,4)
    by (cases "k_cpus s (k_hart s)") (auto simp: upd_cpu_def irq_pushed_def irq_sync_def cpu_ok_def Let_def)
  show ?thesis
    unfolding release_apply [OF ok depth] using held locks cpus
    by (simp add: upd_cpu_def upd_lock_def)
qed

lemma critical_section:
  assumes "cpu_ok s" and "lock_free lk s"
    and "body (locked_state lk s) = Ok a t"
    and "k_hart t = k_hart s" and "k_cpus t = k_cpus (irq_pushed s)"
    and "k_locks t = k_locks (locked_state lk s)"
  shows "seq (acquire lk) (bind body (\<lambda>a. seq (release lk) (return a))) s =
    Ok a (t\<lparr>k_locks := k_locks s, k_cpus := k_cpus (irq_sync s)\<rparr>)"
  using assms by (simp add: acquire_free seq_Ok bind_Ok release_locked run_simps)

lemma calm_cpu_ok: "calm s \<Longrightarrow> cpu_ok s"
  by (simp add: calm_def cpu_ok_def Let_def)

lemma calm_sync: "calm s \<Longrightarrow> irq_sync s = s"
proof -
  assume "calm s"
  then have same: "(if c_noff c = 0 then c\<lparr>c_intena := c_intr c\<rparr> else c) = c"
    if "c = k_cpus s (k_hart s)" for c
    using that by (cases c) (auto simp: calm_def Let_def)
  show ?thesis
    unfolding irq_sync_def upd_cpu_def same [OF refl] by simp
qed

lemma calm_locked [simp]: "calm s \<Longrightarrow> calm (locked_state lk s)"
  by (simp add: calm_def locked_state_def irq_pushed_def upd_cpu_def upd_lock_def Let_def)

lemma calm_cong: "k_hart t = k_hart s \<Longrightarrow> k_cpus t = k_cpus s \<Longrightarrow> calm t = calm s"
  by (simp add: calm_def)

lemma acquire_calm: "calm s \<Longrightarrow> lock_free lk s \<Longrightarrow> acquire lk s = Ok () (locked_state lk s)"
  by (simp add: calm_cpu_ok acquire_free)

lemma release_calm:
  assumes "calm s" and "lock_free lk s"
    and "k_hart t = k_hart s" and "k_cpus t = k_cpus (locked_state lk s)"
    and "k_locks t = k_locks (locked_state lk s)"
  shows "release lk t = Ok () (t\<lparr>k_locks := k_locks s, k_cpus := k_cpus s\<rparr>)"
proof -
  have "k_cpus (locked_state lk s) = k_cpus (irq_pushed s)"
    by (simp add: locked_state_def upd_lock_def)
  then show ?thesis
    using assms release_locked [of s lk t] calm_cpu_ok [of s] calm_sync [of s] by simp
qed

lemma locked_state_fields [simp]:
  "k_hart (locked_state lk s) = k_hart s" "k_slocks (locked_state lk s) = k_slocks s"
  "k_procs (locked_state lk s) = k_procs s" "k_conts (locked_state lk s) = k_conts s"
  "k_initproc (locked_state lk s) = k_initproc s" "k_nextpid (locked_state lk s) = k_nextpid s"
  "k_started (locked_state lk s) = k_started s" "k_rand (locked_state lk s) = k_rand s"
  "k_mem (locked_state lk s) = k_mem s" "k_freelist (locked_state lk s) = k_freelist s"
  "k_kpgtbl (locked_state lk s) = k_kpgtbl s" "k_ticks (locked_state lk s) = k_ticks s"
  "k_uart (locked_state lk s) = k_uart s" "k_uart_in (locked_state lk s) = k_uart_in s"
  "k_pr_locking (locked_state lk s) = k_pr_locking s" "k_panicked (locked_state lk s) = k_panicked s"
  "k_consoles (locked_state lk s) = k_consoles s" "k_active (locked_state lk s) = k_active s"
  "k_bufs (locked_state lk s) = k_bufs s" "k_disk (locked_state lk s) = k_disk s"
  "k_dhist (locked_state lk s) = k_dhist s" "k_devsw (locked_state lk s) = k_devsw s"
  "k_vdisk (locked_state lk s) = k_vdisk s" "k_csr (locked_state lk s) = k_csr s"
  "k_mmio (locked_state lk s) = k_mmio s" "k_irqs (locked_state lk s) = k_irqs s"
  "k_booted (locked_state lk s) = k_booted s" "k_first (locked_state lk s) = k_first s"
  "k_log (locked_state lk s) = k_log s" "k_sb (locked_state lk s) = k_sb s"
  "k_inodes (locked_state lk s) = k_inodes s" "k_files (locked_state lk s) = k_files s"
  "k_pipes (locked_state lk s) = k_pipes s" "k_kbuf (locked_state lk s) = k_kbuf s"
  "k_syms (locked_state lk s) = k_syms s"
  by (simp_all add: locked_state_def upd_lock_def irq_pushed_def upd_cpu_def)

lemma locked_state_proc [simp]:
  "c_proc (k_cpus (locked_state lk s) h) = c_proc (k_cpus s h)"
  by (simp add: locked_state_def upd_lock_def irq_pushed_def upd_cpu_def)

lemma locked_state_held [simp]: "lock_held lk (locked_state lk s)"
  by (simp add: lock_held_def locked_state_def upd_lock_def irq_pushed_def upd_cpu_def)

lemma lock_free_locked [simp]: "lk \<noteq> lk' \<Longrightarrow> lock_free lk (locked_state lk' s) = lock_free lk s"
  by (simp add: lock_free_def locked_state_def upd_lock_def irq_pushed_def upd_cpu_def)

lemma lock_free_cong: "k_locks t = k_locks s \<Longrightarrow> lock_free lk t = lock_free lk s"
  by (simp add: lock_free_def)

text \<open>
  A state change that neither looks at nor touches CPUs and locks commutes with taking a lock,
  so a critical section that consists of it has just its effect.
\<close>

definition off_lock :: "(kstate \<Rightarrow> kstate) \<Rightarrow> bool" where
  "off_lock g \<longleftrightarrow> (\<forall>s c l. g (s\<lparr>k_cpus := c, k_locks := l\<rparr>) = (g s)\<lparr>k_cpus := c, k_locks := l\<rparr> \<and>
     k_hart (g s) = k_hart s)"

lemma locked_state_eq:
  "locked_state lk s = s\<lparr>k_cpus := k_cpus (locked_state lk s), k_locks := k_locks (locked_state lk s)\<rparr>"
  by (simp add: locked_state_def upd_lock_def irq_pushed_def upd_cpu_def)

lemma off_lock_same:
  assumes "off_lock g"
  shows "k_cpus (g s) = k_cpus s" and "k_locks (g s) = k_locks s" and "k_hart (g s) = k_hart s"
proof -
  have "g (s\<lparr>k_cpus := k_cpus s, k_locks := k_locks s\<rparr>) =
      (g s)\<lparr>k_cpus := k_cpus s, k_locks := k_locks s\<rparr>"
    using assms unfolding off_lock_def by blast
  then have same: "g s = (g s)\<lparr>k_cpus := k_cpus s, k_locks := k_locks s\<rparr>"
    by simp
  show "k_cpus (g s) = k_cpus s"
    by (subst same) simp
  show "k_locks (g s) = k_locks s"
    by (subst same) simp
  show "k_hart (g s) = k_hart s"
    using assms by (simp add: off_lock_def)
qed

lemma off_lock_upd [simp]:
  "off_lock (upd_proc i f)" "off_lock (upd_cont i g)" "off_lock (upd_buf i h)"
  "off_lock (upd_inode i j)" "off_lock (upd_file i m)" "off_lock (upd_pipe a n)"
  "off_lock (upd_slock lk q)"
  by (simp_all add: off_lock_def upd_defs)

lemma off_lock_comp: "off_lock f \<Longrightarrow> off_lock g \<Longrightarrow> off_lock (\<lambda>s. f (g s))"
  by (simp add: off_lock_def)

lemma off_lock_calm: "off_lock g \<Longrightarrow> calm (g s) = calm s"
  by (rule calm_cong) (simp_all add: off_lock_same)

lemma off_lock_free: "off_lock g \<Longrightarrow> lock_free lk (g s) = lock_free lk s"
  by (rule lock_free_cong) (simp add: off_lock_same)

lemma off_lock_locked:
  assumes "off_lock g"
  shows "(g (locked_state lk s))\<lparr>k_locks := k_locks s, k_cpus := k_cpus s\<rparr> = g s"
    and "k_cpus (g (locked_state lk s)) = k_cpus (locked_state lk s)"
    and "k_locks (g (locked_state lk s)) = k_locks (locked_state lk s)"
    and "k_hart (g (locked_state lk s)) = k_hart s"
proof -
  have "g (s\<lparr>k_cpus := k_cpus (locked_state lk s), k_locks := k_locks (locked_state lk s)\<rparr>) =
      (g s)\<lparr>k_cpus := k_cpus (locked_state lk s), k_locks := k_locks (locked_state lk s)\<rparr>"
    using assms unfolding off_lock_def by blast
  then have gl: "g (locked_state lk s) =
      (g s)\<lparr>k_cpus := k_cpus (locked_state lk s), k_locks := k_locks (locked_state lk s)\<rparr>"
    by (simp only: locked_state_eq [symmetric])
  show "(g (locked_state lk s))\<lparr>k_locks := k_locks s, k_cpus := k_cpus s\<rparr> = g s"
    unfolding gl by (intro kstate.equality) (simp_all add: off_lock_same [OF assms])
  show "k_cpus (g (locked_state lk s)) = k_cpus (locked_state lk s)"
    and "k_locks (g (locked_state lk s)) = k_locks (locked_state lk s)"
    and "k_hart (g (locked_state lk s)) = k_hart s"
    by (simp_all add: off_lock_same [OF assms])
qed

lemma release_after:
  "calm s \<Longrightarrow> lock_free lk s \<Longrightarrow> off_lock g \<Longrightarrow> release lk (g (locked_state lk s)) = Ok () (g s)"
  by (simp add: release_calm [of s] off_lock_locked)

lemma release_locked_state [run_simps]:
  "calm s \<Longrightarrow> lock_free lk s \<Longrightarrow> release lk (locked_state lk s) = Ok () s"
  using release_after [of s lk "\<lambda>s. s"] by (simp add: off_lock_def)

text \<open>An observation that does not look at CPUs and locks survives every lock operation.\<close>

definition lock_blind :: "(kstate \<Rightarrow> 'v) \<Rightarrow> bool" where
  "lock_blind f \<longleftrightarrow> (\<forall>s c l. f (s\<lparr>k_cpus := c\<rparr>) = f s \<and> f (s\<lparr>k_locks := l\<rparr>) = f s)"

lemma lock_blindI [intro]:
  "(\<And>s c. f (s\<lparr>k_cpus := c\<rparr>) = f s) \<Longrightarrow> (\<And>s l. f (s\<lparr>k_locks := l\<rparr>) = f s) \<Longrightarrow> lock_blind f"
  by (simp add: lock_blind_def)

lemma keeps_lock_ops [keeps_intro]:
  assumes "lock_blind f"
  shows "keeps f push_off" "keeps f pop_off" "keeps f intr_on" "keeps f intr_off"
    "keeps f (holding lk)" "keeps f (acquire lk)" "keeps f (release lk)" "keeps f (initlock lk n)"
proof -
  have blind: "f (upd_cpu g s) = f s" "f (upd_lock lk' h s) = f s" for g h s lk'
    using assms by (simp_all add: lock_blind_def upd_cpu_def upd_lock_def)
  have swap: "keeps f (lock_test_and_set lk)"
    by (simp add: keeps_def pres_def lock_test_and_set_def blind)
  have push: "keeps f push_off" and pop: "keeps f pop_off" and on: "keeps f intr_on" and off: "keeps f intr_off"
    unfolding push_off_def pop_off_def intr_get_def mycpu_def intr_on_def intr_off_def
    by (intro keeps_intro keepsI_modify; simp add: blind)+
  have hold: "keeps f (holding lk)"
    unfolding holding_def by (intro keeps_intro push pop)
  show "keeps f push_off" "keeps f pop_off" "keeps f intr_on" "keeps f intr_off" "keeps f (holding lk)"
    by (rule push pop on off hold)+
  show "keeps f (acquire lk)"
    unfolding acquire_def by (intro keeps_intro push hold swap keepsI_modify) (simp add: blind)
  show "keeps f (release lk)"
    unfolding release_def
    by (intro keeps_intro hold) (auto intro!: pop keepsI_modify simp: blind)
  show "keeps f (initlock lk n)"
    unfolding initlock_def by (intro keepsI_modify) (simp add: blind)
qed

section \<open>Lemmas: the protocol\<close>

lemma cpu_ok_of_inv: "lock_inv s \<Longrightarrow> cpu_ok (on_cpu h s)"
  by (auto simp: lock_inv_def cpu_ok_def on_cpu_def Let_def
      intro: order_trans [of _ "int (card (held_by h s))"])

lemma held_by_on_cpu [simp]: "held_by h (on_cpu h' s) = held_by h s"
  by (simp add: held_by_def on_cpu_def)

lemma held_by_upd_cpu [simp]: "held_by h (upd_cpu f s) = held_by h s"
  by (simp add: held_by_def upd_cpu_def)

lemma on_cpu_fields [simp]:
  "k_cpus (on_cpu h s) = k_cpus s" "k_locks (on_cpu h s) = k_locks s" "k_hart (on_cpu h s) = h"
  by (simp_all add: on_cpu_def)

lemma lock_inv_acquire:
  assumes inv: "lock_inv s" and ok: "acquire lk (on_cpu h s) = Ok u t"
  shows "lock_inv t"
proof -
  have free: "\<not> lk_locked (k_locks s lk)" and t: "t = locked_state lk (on_cpu h s)"
    using ok cpu_ok_of_inv [OF inv] by (auto simp: acquire_apply split: if_splits)
  have locks: "k_locks t = (k_locks s)(lk := (k_locks s lk)\<lparr>lk_locked := True, lk_cpu := Some h\<rparr>)"
    by (simp add: t locked_state_def upd_lock_def irq_pushed_def upd_cpu_def)
  have noff: "c_noff (k_cpus t i) = c_noff (k_cpus s i) + (if i = h then 1 else 0)"
    and intr: "c_intr (k_cpus t i) = (i \<noteq> h \<and> c_intr (k_cpus s i))" for i
    by (auto simp: t locked_state_def upd_lock_def irq_pushed_def upd_cpu_def)
  have held: "held_by i t = (if i = h then insert lk (held_by i s) else held_by i s)" for i
    using free by (auto simp: held_by_def locks)
  have "lk \<notin> held_by h s"
    using free by (simp add: held_by_def)
  then show ?thesis
    using inv by (simp add: lock_inv_def locks noff intr held)
qed

lemma lock_inv_release:
  assumes inv: "lock_inv s" and ok: "release lk (on_cpu h s) = Ok u t"
  shows "lock_inv t"
proof -
  have cpu: "cpu_ok (on_cpu h s)"
    using inv by (rule cpu_ok_of_inv)
  have mine: "lk \<in> held_by h s"
    using ok release_not_held [OF cpu, of lk] by (auto simp: held_by_def lock_held_def)
  have fin: "finite (held_by h s)" and card: "int (card (held_by h s)) \<le> c_noff (k_cpus s h)"
    using inv by (auto simp: lock_inv_def)
  have pos: "0 < card (held_by h s)"
    using mine fin by (auto simp: card_gt_0_iff)
  then have depth: "0 < c_noff (k_cpus (on_cpu h s) (k_hart (on_cpu h s)))"
    using card by simp
  have locks: "k_locks t = (k_locks s)(lk := (k_locks s lk)\<lparr>lk_cpu := None, lk_locked := False\<rparr>)"
    and noff: "c_noff (k_cpus t i) = c_noff (k_cpus s i) - (if i = h then 1 else 0)"
    and intr: "i \<noteq> h \<Longrightarrow> c_intr (k_cpus t i) = c_intr (k_cpus s i)"
    and intr': "c_intr (k_cpus t h) \<Longrightarrow> c_noff (k_cpus t h) = 0" for i
    using ok unfolding release_apply [OF cpu depth]
    by (auto simp: upd_cpu_def upd_lock_def split: if_splits)
  have held: "held_by i t = (if i = h then held_by i s - {lk} else held_by i s)" for i
    using mine by (auto simp: held_by_def locks)
  have "int (card (held_by h s - {lk})) \<le> c_noff (k_cpus s h) - 1"
    using card mine fin pos by (simp add: card_Diff_singleton)
  moreover have "(0 < c_noff (k_cpus t h) \<longrightarrow> \<not> c_intr (k_cpus t h))"
    using intr' by auto
  ultimately show ?thesis
    using inv fin intr by (auto simp: lock_inv_def locks noff held)
qed

text \<open>An operation that only changes the CPU it runs on.\<close>

lemma lock_inv_upd_cpu:
  assumes "lock_inv s" and "int (card (held_by h s)) \<le> c_noff (f (k_cpus s h))"
    and "0 < c_noff (f (k_cpus s h)) \<Longrightarrow> \<not> c_intr (f (k_cpus s h))"
  shows "lock_inv (upd_cpu f (on_cpu h s))"
  using assms unfolding lock_inv_def held_by_upd_cpu held_by_on_cpu by (auto simp: upd_cpu_def)

lemma lock_inv_push:
  assumes inv: "lock_inv s" and ok: "push_off (on_cpu h s) = Ok u t"
  shows "lock_inv t"
proof -
  have "t = irq_pushed (on_cpu h s)"
    using ok by (simp add: push_off_apply)
  moreover have "int (card (held_by h s)) \<le> c_noff (k_cpus s h)"
    using inv by (simp add: lock_inv_def)
  ultimately show ?thesis
    unfolding irq_pushed_def by (simp add: lock_inv_upd_cpu [OF inv])
qed

lemma lock_inv_pop:
  assumes inv: "lock_inv s" and less: "int (card (held_by h s)) < c_noff (k_cpus s h)"
    and ok: "pop_off (on_cpu h s) = Ok u t"
  shows "lock_inv t"
proof -
  have depth: "0 < c_noff (k_cpus s h)"
    using less by linarith
  then have "\<not> c_intr (k_cpus s h)"
    using inv by (simp add: lock_inv_def)
  then have "t = upd_cpu (\<lambda>c. c\<lparr>c_noff := c_noff c - 1, c_intr := (c_noff c = 1 \<and> c_intena c)\<rparr>) (on_cpu h s)"
    using ok depth by (simp add: pop_off_apply)
  then show ?thesis
    using depth less by (auto intro!: lock_inv_upd_cpu [OF inv])
qed

lemma lock_inv_intr:
  assumes inv: "lock_inv s" and "c_noff (k_cpus s h) = 0"
  shows "lock_inv (upd_cpu (\<lambda>c. c\<lparr>c_intr := b\<rparr>) (on_cpu h s))"
proof -
  have "int (card (held_by h s)) \<le> c_noff (k_cpus s h)"
    using inv by (simp add: lock_inv_def)
  then show ?thesis
    using assms(2) by (intro lock_inv_upd_cpu [OF inv]) simp_all
qed

lemma lock_inv_step: "lock_step s t \<Longrightarrow> lock_inv s \<Longrightarrow> lock_inv t"
  by (induction rule: lock_step.induct)
    (auto intro: lock_inv_acquire lock_inv_release lock_inv_push lock_inv_pop lock_inv_intr)

lemma lock_inv_reachable: "lock_reachable s \<Longrightarrow> lock_inv s"
proof (induction rule: lock_reachable.induct)
  case (boot s)
  then show ?case by (simp add: lock_inv_def held_by_def lock_free_def)
next
  case (step s t)
  then show ?case by (blast intro: lock_inv_step)
qed

section \<open>Properties\<close>

text \<open>C1 (mutual exclusion). In every state reachable from boot by any interleaving of the CPUs'
  lock operations: a CPU that holds a spin-lock runs with interrupts disabled at a positive
  nesting depth; acquiring the lock again on that CPU panics; any other CPU spins when it
  tries to acquire the lock and panics when it tries to release it.\<close>

theorem lock_mutual_exclusion:
  assumes "lock_reachable s" and "lk \<in> held_by h s"
  shows "\<not> c_intr (k_cpus s h) \<and> 0 < c_noff (k_cpus s h) \<and>
    acquire lk (on_cpu h s) = Panic ''acquire'' \<and>
    (\<forall>h'. h' \<noteq> h \<longrightarrow>
      acquire lk (on_cpu h' s) = Spin \<and> release lk (on_cpu h' s) = Panic ''release'')"
proof -
  have inv: "lock_inv s"
    using assms(1) by (rule lock_inv_reachable)
  have locked: "lk_locked (k_locks s lk)" "lk_cpu (k_locks s lk) = Some h"
    using assms(2) by (simp_all add: held_by_def)
  have "0 < card (held_by h s)"
    using assms(2) inv by (auto simp: lock_inv_def card_gt_0_iff)
  then have depth: "0 < c_noff (k_cpus s h)"
    using inv unfolding lock_inv_def by (metis of_nat_0_less_iff order_less_le_trans)
  then have "\<not> c_intr (k_cpus s h)"
    using inv by (simp add: lock_inv_def)
  moreover have "acquire lk (on_cpu h s) = Panic ''acquire''"
    using locked by (simp add: acquire_apply cpu_ok_of_inv [OF inv] lock_held_def)
  moreover have "acquire lk (on_cpu h' s) = Spin \<and> release lk (on_cpu h' s) = Panic ''release''"
    if "h' \<noteq> h" for h'
    using locked that
    by (simp add: acquire_apply release_not_held cpu_ok_of_inv [OF inv] lock_held_def)
  ultimately show ?thesis
    using depth by blast
qed

definition demo_locked :: kstate where
  "demo_locked = locked_state KmemLock zero_state"

lemma demo_locked_reachable: "lock_reachable demo_locked"
proof -
  have "lock_reachable zero_state"
    by (rule boot) (simp_all add: lock_free_def zero_state_def)
  moreover have "acquire KmemLock (on_cpu 0 zero_state) = Ok () demo_locked"
    unfolding demo_locked_def
    by (simp add: acquire_apply cpu_ok_def on_cpu_def lock_held_def zero_state_def)
  ultimately show ?thesis
    by (blast intro: lock_reachable.step acquire_step)
qed

lemma demo_locked_held: "KmemLock \<in> held_by 0 demo_locked"
  by (simp add: demo_locked_def held_by_def locked_state_def upd_defs irq_pushed_def zero_state_def)

theorem lock_mutual_exclusion_witness:
  "acquire KmemLock (on_cpu 0 demo_locked) = Panic ''acquire'' \<and>
   acquire KmemLock (on_cpu 1 demo_locked) = Spin"
  using lock_mutual_exclusion [OF demo_locked_reachable demo_locked_held] by simp

end
