(* ===== verification/Xv6_Printf.thy ===== *)
theory Xv6_Printf
  imports Xv6_Spinlock
begin

text \<open>
  Console output: the transmit half of \<open>kernel/uart.c\<close>, \<open>consputc\<close> of \<open>kernel/console.c\<close> and
  the formatted output of \<open>kernel/printf.c\<close>. The serial line is the list \<open>k_uart\<close> of bytes
  sent. The main lemma is that the digits \<open>printint\<close> sends are the numeral of its argument.
\<close>

section \<open>Definitions\<close>

text \<open>
  The transmit holding register empties by itself, so the wait in \<open>uartputc\<close> ends; only the
  byte sent is recorded. \<open>uartgetc\<close> takes the oldest byte the receiver has, or \<open>-1\<close>.
\<close>

definition uartputc :: "u8 \<Rightarrow> unit k" where
  "uartputc c = modify (\<lambda>s. s\<lparr>k_uart := k_uart s @ [c]\<rparr>)"

definition uartgetc :: "int k" where
  "uartgetc = (\<lambda>s. case k_uart_in s of
      [] \<Rightarrow> Ok (- 1) s
    | c # cs \<Rightarrow> Ok (uint c) (s\<lparr>k_uart_in := cs\<rparr>))"

abbreviation BACKSPACE :: nat where "BACKSPACE \<equiv> 0x100"

definition consputc :: "nat \<Rightarrow> unit k" where
  "consputc c =
     bind (gets k_panicked) (\<lambda>p.
     if p then spin
     else if c = BACKSPACE then block [uartputc 8, uartputc 32, uartputc 8]
     else uartputc (of_nat c))"

definition digits :: "nat \<Rightarrow> u8" where
  "digits i = (if i < 10 then of_nat (48 + i) else of_nat (87 + i))"

text \<open>
  The digits of \<open>x\<close>, least significant first, as the do-while loop of \<open>printint\<close> stores them
  in \<open>buf\<close>. Every call has base 10 or 16.
\<close>

function printint_digits :: "nat \<Rightarrow> nat \<Rightarrow> u8 list" where
  "printint_digits base x =
     digits (x mod base) #
     (if base < 2 \<or> x div base = 0 then [] else printint_digits base (x div base))"
  by auto
termination
  by (relation "measure snd") (auto intro!: div_less_dividend simp: div_greater_zero_iff)

declare printint_digits.simps [simp del]

definition printint_text :: "u32 \<Rightarrow> nat \<Rightarrow> bool \<Rightarrow> u8 list" where
  "printint_text xx base sign =
     (let neg = (sign \<and> sint xx < 0);
          x = (if neg then - xx else xx)
      in rev (printint_digits base (unat x) @ (if neg then [45] else [])))"

definition printint :: "u32 \<Rightarrow> nat \<Rightarrow> bool \<Rightarrow> unit k" where
  "printint xx base sign = for_each (printint_text xx base sign) (\<lambda>c. consputc (unat c))"

definition printptr :: "u64 \<Rightarrow> unit k" where
  "printptr x =
     seq (consputc 48) (seq (consputc 120)
     (for_each [0..<16] (\<lambda>i. consputc (unat (digits (unat (drop_bit 60 (push_bit (4 * i) x))))))))"

text \<open>The variable arguments of \<open>printf\<close>, and taking the next one at the type asked for.\<close>

datatype varg = VInt u32 | VLong u64 | VStr "u8 list option"

definition va_int :: "varg list \<Rightarrow> u32" where
  "va_int ap = (case ap of VInt v # _ \<Rightarrow> v | VLong v # _ \<Rightarrow> ucast v | _ \<Rightarrow> 0)"

definition va_long :: "varg list \<Rightarrow> u64" where
  "va_long ap = (case ap of VLong v # _ \<Rightarrow> v | VInt v # _ \<Rightarrow> ucast v | _ \<Rightarrow> 0)"

definition va_str :: "varg list \<Rightarrow> u8 list" where
  "va_str ap = (case ap of VStr (Some s) # _ \<Rightarrow> s | _ \<Rightarrow> map of_char ''(null)'')"

text \<open>One conversion: what is printed, and the arguments left.\<close>

definition printf_switch :: "char \<Rightarrow> varg list \<Rightarrow> unit k \<times> varg list" where
  "printf_switch c ap =
     (if c = CHR ''d'' then (printint (va_int ap) 10 True, tl ap)
      else if c = CHR ''x'' then (printint (va_int ap) 16 True, tl ap)
      else if c = CHR ''p'' then (printptr (va_long ap), tl ap)
      else if c = CHR ''s'' then (for_each (va_str ap) (\<lambda>c. consputc (unat c)), tl ap)
      else if c = CHR ''%'' then (consputc 37, ap)
      else (seq (consputc 37) (consputc (of_char c)), ap))"

fun printf_loop :: "string \<Rightarrow> varg list \<Rightarrow> unit k" where
  "printf_loop [] ap = return ()"
| "printf_loop [c] ap = (if c \<noteq> CHR ''%'' then consputc (of_char c) else return ())"
| "printf_loop (c # c' # fmt) ap =
     (if c \<noteq> CHR ''%'' then seq (consputc (of_char c)) (printf_loop (c' # fmt) ap)
      else seq (fst (printf_switch c' ap)) (printf_loop fmt (snd (printf_switch c' ap))))"

definition printf :: "string option \<Rightarrow> varg list \<Rightarrow> unit k" where
  "printf fmt ap =
     bind (gets k_pr_locking) (\<lambda>locking.
     block [
       do_when locking (acquire PrLock),
       (case fmt of None \<Rightarrow> panic ''null fmt'' | Some f \<Rightarrow> printf_loop f ap),
       do_when locking (release PrLock)])"

definition printfinit :: "unit k" where
  "printfinit = seq (initlock PrLock ''pr'') (modify (\<lambda>s. s\<lparr>k_pr_locking := True\<rparr>))"

section \<open>Frame\<close>

lemma keeps_uartputc [keeps_intro]: "(\<And>s u. f (s\<lparr>k_uart := u\<rparr>) = f s) \<Longrightarrow> keeps f (uartputc c)"
  unfolding uartputc_def by (rule keepsI_modify) simp

lemma keeps_consputc [keeps_intro]: "(\<And>s u. f (s\<lparr>k_uart := u\<rparr>) = f s) \<Longrightarrow> keeps f (consputc c)"
  unfolding consputc_def block.simps by (intro keeps_intro)

lemma keeps_printint [keeps_intro]:
  "(\<And>s u. f (s\<lparr>k_uart := u\<rparr>) = f s) \<Longrightarrow> keeps f (printint xx base sign)"
  unfolding printint_def by (intro keeps_intro)

lemma keeps_printptr [keeps_intro]: "(\<And>s u. f (s\<lparr>k_uart := u\<rparr>) = f s) \<Longrightarrow> keeps f (printptr x)"
  unfolding printptr_def by (intro keeps_intro)

lemma keeps_printf_switch:
  "(\<And>s u. f (s\<lparr>k_uart := u\<rparr>) = f s) \<Longrightarrow> keeps f (fst (printf_switch c ap))"
  unfolding printf_switch_def by (simp add: keeps_intro)

lemma keeps_printf_loop:
  "(\<And>s u. f (s\<lparr>k_uart := u\<rparr>) = f s) \<Longrightarrow> keeps f (printf_loop fmt ap)"
  by (induction fmt ap rule: printf_loop.induct)
    (simp_all add: keeps_intro keeps_printf_switch)

lemma keeps_printf [keeps_intro]:
  "(\<And>s u. f (s\<lparr>k_uart := u\<rparr>) = f s) \<Longrightarrow> lock_blind f \<Longrightarrow> keeps f (printf fmt ap)"
  unfolding printf_def block.simps by (intro keeps_intro keeps_printf_loop)

section \<open>Printing ends\<close>

text \<open>An action that only sends bytes, unless the kernel has panicked.\<close>

definition prints :: "unit k \<Rightarrow> bool" where
  "prints m \<longleftrightarrow> (\<forall>s. \<not> k_panicked s \<longrightarrow> (\<exists>out. m s = Ok () (s\<lparr>k_uart := k_uart s @ out\<rparr>)))"

lemma prints_return: "prints (return ())"
  by (auto simp: prints_def return_apply intro: exI [of _ "[]"])

lemma prints_seq:
  assumes "prints m" and "prints m'"
  shows "prints (seq m m')"
  unfolding prints_def
proof (intro allI impI)
  fix s :: kstate
  assume "\<not> k_panicked s"
  then obtain out where 1: "m s = Ok () (s\<lparr>k_uart := k_uart s @ out\<rparr>)"
    using assms(1) by (auto simp: prints_def)
  have "\<not> k_panicked (s\<lparr>k_uart := k_uart s @ out\<rparr>)"
    using \<open>\<not> k_panicked s\<close> by simp
  then obtain out' where "m' (s\<lparr>k_uart := k_uart s @ out\<rparr>) = Ok () (s\<lparr>k_uart := k_uart s @ out @ out'\<rparr>)"
    using assms(2) [unfolded prints_def, rule_format, of "s\<lparr>k_uart := k_uart s @ out\<rparr>"] by auto
  then show "\<exists>out. seq m m' s = Ok () (s\<lparr>k_uart := k_uart s @ out\<rparr>)"
    using 1 by (auto simp: seq_Ok)
qed

lemma prints_consputc: "prints (consputc c)"
  by (auto simp: prints_def consputc_def uartputc_def run_simps)

lemma prints_for_each: "(\<And>x. prints (f x)) \<Longrightarrow> prints (for_each xs f)"
  by (induction xs) (simp_all add: prints_return prints_seq)

lemma prints_printf_switch: "prints (fst (printf_switch c ap))"
  by (simp add: printf_switch_def printint_def printptr_def prints_seq prints_for_each prints_consputc)

lemma prints_printf_loop: "prints (printf_loop fmt ap)"
  by (induction fmt ap rule: printf_loop.induct)
    (simp_all add: prints_return prints_seq prints_consputc prints_printf_switch)

lemma printf_total:
  assumes "calm s" and "lock_free PrLock s" and "\<not> k_panicked s"
  shows "\<exists>out. printf (Some fmt) ap s = Ok () (s\<lparr>k_uart := k_uart s @ out\<rparr>)"
proof (cases "k_pr_locking s")
  case True
  let ?t = "locked_state PrLock s"
  obtain out where out: "printf_loop fmt ap ?t = Ok () (?t\<lparr>k_uart := k_uart s @ out\<rparr>)"
    using prints_printf_loop [of fmt ap] assms(3) unfolding prints_def by (metis locked_state_fields)
  have "release PrLock (?t\<lparr>k_uart := k_uart s @ out\<rparr>) = Ok () (s\<lparr>k_uart := k_uart s @ out\<rparr>)"
    using release_after [OF assms(1,2), of "\<lambda>s'. s'\<lparr>k_uart := k_uart s @ out\<rparr>"] by (simp add: off_lock_def)
  then show ?thesis
    using assms(1,2) True out by (auto simp: printf_def run_simps acquire_calm)
next
  case False
  then show ?thesis
    using prints_seq [OF prints_printf_loop prints_return, of fmt ap] assms(3)
    by (simp add: printf_def run_simps prints_def)
qed

section \<open>Printing numbers\<close>

text \<open>The value of a string of digits, most significant first.\<close>

definition digit_val :: "u8 \<Rightarrow> nat" where
  "digit_val c = (if unat c < 58 then unat c - 48 else unat c - 87)"

definition numeral_val :: "nat \<Rightarrow> u8 list \<Rightarrow> nat" where
  "numeral_val base cs = foldl (\<lambda>v c. base * v + digit_val c) 0 cs"

lemma digit_val_digits: "i < 16 \<Longrightarrow> digit_val (digits i) = i"
  by (auto simp: digit_val_def digits_def unat_of_nat_small simp del: of_nat_add)

lemma numeral_val_digits:
  "2 \<le> base \<Longrightarrow> base \<le> 16 \<Longrightarrow> numeral_val base (rev (printint_digits base x)) = x"
proof (induction base x rule: printint_digits.induct)
  case (1 base x)
  have digit: "digit_val (digits (x mod base)) = x mod base"
    using 1(2,3) mod_less_divisor [of base x] by (intro digit_val_digits) linarith
  have last: "x mod base = x" if "x div base = 0"
    using mult_div_mod_eq [of base x] unfolding that by simp
  show ?case
    using 1 by (subst printint_digits.simps) (auto simp: numeral_val_def digit last)
qed

lemma printint_digits_length:
  "2 \<le> base \<Longrightarrow> x < base ^ n \<Longrightarrow> 0 < n \<Longrightarrow> length (printint_digits base x) \<le> n"
proof (induction n arbitrary: x)
  case 0
  then show ?case by simp
next
  case (Suc n)
  show ?case
  proof (cases "x div base = 0")
    case True
    then show ?thesis by (subst printint_digits.simps) simp
  next
    case False
    then have "0 < n"
      using Suc.prems by (cases n) (auto simp: div_eq_0_iff)
    moreover have "x div base < base ^ n"
      using Suc.prems by (simp add: less_mult_imp_div_less mult.commute)
    ultimately have "length (printint_digits base (x div base)) \<le> n"
      using Suc by blast
    then show ?thesis
      using False Suc.prems by (subst printint_digits.simps) simp
  qed
qed

text \<open>In base 10 these are decimal digits, and only the numeral of 0 starts with the digit 0.\<close>

lemma printint_digits_decimal: "c \<in> set (printint_digits 10 x) \<Longrightarrow> 48 \<le> c \<and> c \<le> 57"
proof (induction "10 :: nat" x rule: printint_digits.induct)
  case (1 x)
  have "48 \<le> digits (x mod 10) \<and> digits (x mod 10) \<le> 57"
    by (simp add: digits_def word_le_nat_alt unat_of_nat_small del: of_nat_add)
  moreover have "c = digits (x mod 10) \<or> x div 10 \<noteq> 0 \<and> c \<in> set (printint_digits 10 (x div 10))"
    using 1(2) unfolding printint_digits.simps [of 10 x] by (auto split: if_splits)
  ultimately show ?case
    using 1(1) by auto
qed

lemma printint_digits_lead: "0 < x \<Longrightarrow> last (printint_digits 10 x) \<noteq> 48"
proof (induction "10 :: nat" x rule: printint_digits.induct)
  case (1 x)
  show ?case
  proof (cases "x div 10 = 0")
    case True
    then have "unat (digits (x mod 10)) = 48 + x" "x < 10"
      by (simp_all add: digits_def unat_of_nat_small div_eq_0_iff del: of_nat_add)
    then have "digits (x mod 10) \<noteq> 48"
      using 1(2) by auto
    with True show ?thesis
      by (subst printint_digits.simps) simp
  next
    case False
    moreover from this have "printint_digits 10 (x div 10) \<noteq> []"
      by (subst printint_digits.simps) simp
    ultimately show ?thesis
      using 1(1) by (subst printint_digits.simps) simp
  qed
qed

lemma printint_digits_zero: "printint_digits 10 0 = [48]"
  by (subst printint_digits.simps) (simp add: digits_def)

lemma consputc_char:
  "\<not> k_panicked s \<Longrightarrow> consputc (unat c) s = Ok () (s\<lparr>k_uart := k_uart s @ [c]\<rparr>)" for c :: u8
  using unat_bound [of c] by (auto simp: consputc_def uartputc_def run_simps)

lemma emit_apply:
  "\<not> k_panicked s \<Longrightarrow>
     for_each cs (\<lambda>c. consputc (unat c)) s = Ok () (s\<lparr>k_uart := k_uart s @ cs\<rparr>)" for cs :: "u8 list"
  by (induction cs arbitrary: s) (simp_all add: consputc_char run_simps)

lemma printint_apply:
  "\<not> k_panicked s \<Longrightarrow>
     printint xx base sign s = Ok () (s\<lparr>k_uart := k_uart s @ printint_text xx base sign\<rparr>)"
  by (simp add: printint_def emit_apply)

lemma magnitude: "unat (if sint xx < 0 then - xx else xx) = nat \<bar>sint xx\<bar>" for xx :: u32
proof -
  have range: "- (2 ^ 31) \<le> sint xx" "sint xx < 2 ^ 31"
    using sint_range_size [of xx] by (simp_all add: word_size)
  have pos: "uint xx = sint xx mod 2 ^ 32"
    by (simp add: uint_sint take_bit_eq_mod)
  have neg: "uint (- xx) = (- sint xx) mod 2 ^ 32"
    by (simp add: uint_word_ariths pos mod_minus_eq)
  have "uint (if sint xx < 0 then - xx else xx) = \<bar>sint xx\<bar>"
    using range by (simp add: pos neg)
  then show ?thesis by (simp only: unat_eq_nat_uint)
qed

section \<open>Properties\<close>

text \<open>C25. \<open>printint\<close> in base 10 with the sign flag sends the decimal numeral of its argument: a
  minus sign exactly when the argument is negative, also for the most negative integer, then at
  least one character, each one of the digits \<open>0\<close> to \<open>9\<close>, without a leading zero unless the
  numeral is \<open>0\<close> itself, with the magnitude as its value. These conditions leave one numeral for
  every argument. At most 11 characters are produced, so the 16-byte buffer of the routine does
  not overflow.\<close>

theorem printint_decimal:
  assumes "\<not> k_panicked s"
  shows "\<exists>ds. printint xx 10 True s =
      Ok () (s\<lparr>k_uart := k_uart s @ (if sint xx < 0 then [45] else []) @ ds\<rparr>) \<and>
    ds \<noteq> [] \<and> (\<forall>c\<in>set ds. 48 \<le> c \<and> c \<le> 57) \<and> (hd ds = 48 \<longrightarrow> ds = [48]) \<and>
    numeral_val 10 ds = nat \<bar>sint xx\<bar> \<and> length ds \<le> 10"
proof -
  define x where "x = unat (if sint xx < 0 then - xx else xx)"
  have mag: "x = nat \<bar>sint xx\<bar>"
    unfolding x_def by (rule magnitude)
  define ds where "ds = rev (printint_digits 10 x)"
  have "x < 10 ^ 10"
    using unat_bound [of "if sint xx < 0 then - xx else xx"] unfolding x_def by simp
  then have "length ds \<le> 10"
    unfolding ds_def using printint_digits_length [of 10 x 10] by simp
  moreover have "numeral_val 10 ds = nat \<bar>sint xx\<bar>"
    unfolding ds_def mag [symmetric] by (rule numeral_val_digits) simp_all
  moreover have "ds \<noteq> []"
    unfolding ds_def by (subst printint_digits.simps) simp
  moreover have "hd ds = 48 \<longrightarrow> ds = [48]"
    using printint_digits_lead [of x] printint_digits_zero by (cases "x = 0") (simp_all add: ds_def hd_rev)
  moreover have "\<forall>c\<in>set ds. 48 \<le> c \<and> c \<le> 57"
    using printint_digits_decimal by (simp add: ds_def)
  moreover have "printint_text xx 10 True = (if sint xx < 0 then [45] else []) @ ds"
    by (simp add: printint_text_def ds_def x_def Let_def)
  ultimately show ?thesis
    using printint_apply [OF assms] by metis
qed

theorem printint_decimal_witness:
  "(\<exists>ds. printint (- 128) 10 True zero_state = Ok () (zero_state\<lparr>k_uart := [45] @ ds\<rparr>) \<and>
     numeral_val 10 ds = 128 \<and> hd ds \<noteq> 48) \<and>
   (\<exists>ds. printint 0 10 True zero_state = Ok () (zero_state\<lparr>k_uart := ds\<rparr>) \<and> numeral_val 10 ds = 0 \<and> ds \<noteq> [])"
proof
  obtain ds where "printint (- 128) 10 True zero_state = Ok () (zero_state\<lparr>k_uart := [45] @ ds\<rparr>)"
      "numeral_val 10 ds = 128" "hd ds = 48 \<longrightarrow> ds = [48]"
    using printint_decimal [of zero_state "- 128"] by (auto simp: zero_state_def)
  moreover from this have "hd ds \<noteq> 48"
    by (auto simp: numeral_val_def digit_val_def)
  ultimately show "\<exists>ds. printint (- 128) 10 True zero_state = Ok () (zero_state\<lparr>k_uart := [45] @ ds\<rparr>) \<and>
      numeral_val 10 ds = 128 \<and> hd ds \<noteq> 48"
    by blast
  show "\<exists>ds. printint 0 10 True zero_state = Ok () (zero_state\<lparr>k_uart := ds\<rparr>) \<and> numeral_val 10 ds = 0 \<and> ds \<noteq> []"
    using printint_decimal [of zero_state 0] by (auto simp: zero_state_def)
qed

end
