(* ===== verification/Xv6_Sched.thy ===== *)
theory Xv6_Sched
  imports Xv6_Printf
begin

text \<open>
  The part of \<open>kernel/proc.c\<close> every other component relies on: the current process and its
  container, process and container-local ids, sleeping and waking, giving up the CPU, and the
  scheduler. A routine that calls \<open>sched\<close> leaves through \<open>Switch\<close>; the statements after the
  call are the definitions named \<open>..._return\<close>. The container \<open>root\<close> is element 0 of
  \<open>containers\<close>.
\<close>

section \<open>The current process\<close>

definition myproc :: "ptr k" where
  "myproc =
     bind (gets k_started) (\<lambda>started.
     if \<not> started then return Minus1
     else
       seq push_off (
       bind mycpu (\<lambda>c.
       seq pop_off (return (case c_proc c of None \<Rightarrow> Null | Some p \<Rightarrow> Ptr p)))))"

definition mycont :: "ptr k" where
  "mycont =
     bind (gets k_started) (\<lambda>started.
     if \<not> started then return Minus1
     else
       bind myproc (\<lambda>pp.
       bind (deref pp) (\<lambda>p.
       gets (\<lambda>s. case p_container (k_procs s p) of None \<Rightarrow> Null | Some c \<Rightarrow> Ptr c))))"

definition isroot :: "nat option \<Rightarrow> bool" where
  "isroot c = (c = Some 0)"

definition numproc :: "nat option \<Rightarrow> int k" where
  "numproc c = gets (\<lambda>s. int (length (filter
     (\<lambda>p. p_state (k_procs s p) \<noteq> UNUSED \<and> p_container (k_procs s p) = c) [0..<NPROC])))"

definition allocpid :: "int k" where
  "allocpid =
     seq (acquire PidLock) (
     bind (gets k_nextpid) (\<lambda>pid.
     seq (modify (\<lambda>s. s\<lparr>k_nextpid := k_nextpid s + 1\<rparr>)) (
     seq (release PidLock) (return pid))))"

definition allocvpid :: "nat \<Rightarrow> int k" where
  "allocvpid c =
     seq (acquire (VpidLock c)) (
     bind (gets (\<lambda>s. ct_nextvpid (k_conts s c))) (\<lambda>pid.
     seq (modify (upd_cont c (\<lambda>ct. ct\<lparr>ct_nextvpid := ct_nextvpid ct + 1\<rparr>))) (
     seq (release (VpidLock c)) (return pid))))"

section \<open>Giving up the CPU, sleeping and waking\<close>

definition swtch :: "'a k" where
  "swtch = (\<lambda>s. Switch s)"

definition sched :: "'a k" where
  "sched =
     bind myproc (\<lambda>pp.
     bind (deref pp) (\<lambda>p.
     bind (holding (ProcLock p)) (\<lambda>h.
     if \<not> h then panic ''sched p->lock''
     else bind mycpu (\<lambda>c.
       if c_noff c \<noteq> 1 then panic ''sched locks''
       else bind (gets (\<lambda>s. p_state (k_procs s p))) (\<lambda>st.
         if st = RUNNING then panic ''sched running''
         else bind intr_get (\<lambda>on.
           if on then panic ''sched interruptible'' else swtch))))))"

text \<open>When the process runs again: \<open>intena\<close> is the local variable saved across \<open>swtch\<close>.\<close>

definition sched_return :: "bool \<Rightarrow> unit k" where
  "sched_return intena = modify (upd_cpu (\<lambda>c. c\<lparr>c_intena := intena\<rparr>))"

definition yield :: "unit k" where
  "yield =
     bind myproc (\<lambda>pp.
     bind (deref pp) (\<lambda>p.
     seq (acquire (ProcLock p)) (
     seq (modify (upd_proc p (\<lambda>q. q\<lparr>p_state := RUNNABLE\<rparr>))) sched)))"

definition yield_return :: "nat \<Rightarrow> bool \<Rightarrow> unit k" where
  "yield_return p intena = seq (sched_return intena) (release (ProcLock p))"

text \<open>
  The statements of \<open>sleep\<close> before the call of \<open>sched\<close>, and those of \<open>wakeup\<close> for one process,
  each a step of its own: other CPUs can run between any two of them.
\<close>

definition sleep_steps :: "chan \<Rightarrow> lockid \<Rightarrow> nat \<Rightarrow> unit k list" where
  "sleep_steps chan lk p =
     (if lk \<noteq> ProcLock p then [acquire (ProcLock p), release lk] else []) @
     [modify (upd_proc p (\<lambda>q. q\<lparr>p_chan := Some chan\<rparr>)),
      modify (upd_proc p (\<lambda>q. q\<lparr>p_state := SLEEPING\<rparr>))]"

definition sleep :: "chan \<Rightarrow> lockid \<Rightarrow> 'a k" where
  "sleep chan lk =
     bind myproc (\<lambda>pp.
     bind (deref pp) (\<lambda>p.
     seq (block (sleep_steps chan lk p)) sched))"

definition sleep_return :: "nat \<Rightarrow> lockid \<Rightarrow> bool \<Rightarrow> unit k" where
  "sleep_return p lk intena =
     seq (sched_return intena) (
     seq (modify (upd_proc p (\<lambda>q. q\<lparr>p_chan := None\<rparr>)))
     (do_when (lk \<noteq> ProcLock p) (seq (release (ProcLock p)) (acquire lk))))"

definition wakeup_steps :: "chan \<Rightarrow> nat \<Rightarrow> unit k list" where
  "wakeup_steps chan p =
     [acquire (ProcLock p),
      bind (gets (\<lambda>s. k_procs s p)) (\<lambda>q.
        do_when (p_state q = SLEEPING \<and> p_chan q = Some chan)
          (modify (upd_proc p (\<lambda>q. q\<lparr>p_state := RUNNABLE\<rparr>)))),
      release (ProcLock p)]"

definition wakeup :: "chan \<Rightarrow> unit k" where
  "wakeup chan = for_each [0..<NPROC] (\<lambda>p. block (wakeup_steps chan p))"

definition wakeup1 :: "nat \<Rightarrow> unit k" where
  "wakeup1 p =
     bind (holding (ProcLock p)) (\<lambda>h.
     if \<not> h then panic ''wakeup1''
     else bind (gets (\<lambda>s. k_procs s p)) (\<lambda>q.
       do_when (p_chan q = Some (ChProc p) \<and> p_state q = SLEEPING)
         (modify (upd_proc p (\<lambda>q. q\<lparr>p_state := RUNNABLE\<rparr>)))))"

section \<open>Killing\<close>

text \<open>The value of a pointer held in a structure.\<close>

definition as_ptr :: "nat option \<Rightarrow> ptr" where
  "as_ptr c = (case c of None \<Rightarrow> Null | Some i \<Rightarrow> Ptr i)"

definition kill_visit :: "int \<Rightarrow> ptr \<Rightarrow> nat \<Rightarrow> int option k" where
  "kill_visit pid c p =
     bind (gets (\<lambda>s. if c = Ptr 0 then p_pid (k_procs s p) else p_vpid (k_procs s p))) (\<lambda>proc_pid.
     seq (acquire (ProcLock p)) (
     bind (gets (\<lambda>s. k_procs s p)) (\<lambda>q.
     if proc_pid = pid then
       if c \<noteq> Ptr 0 \<and> as_ptr (p_container q) \<noteq> c then
         seq (release (ProcLock p)) (return (Some (- 1)))
       else
         seq (modify (upd_proc p (\<lambda>q. q\<lparr>p_killed := True\<rparr>))) (
         seq (do_when (p_state q = SLEEPING \<or> p_state q = SUSPENDED)
           (modify (upd_proc p (\<lambda>q. q\<lparr>p_state := RUNNABLE\<rparr>)))) (
         seq (release (ProcLock p)) (return (Some 0))))
     else seq (release (ProcLock p)) (return None))))"

definition kill :: "int \<Rightarrow> int k" where
  "kill pid =
     bind mycont (\<lambda>c.
     bind (for_ret [0..<NPROC] (kill_visit pid c)) (\<lambda>r.
     return (case r of None \<Rightarrow> - 1 | Some v \<Rightarrow> v)))"

section \<open>The scheduler\<close>

definition rand :: "u32 \<Rightarrow> u32 k" where
  "rand rand_max = (\<lambda>s.
     let r = k_rand s * 1664525 + 1013904223
     in Ok (ucast (r div 65536) mod rand_max) (s\<lparr>k_rand := r\<rparr>))"

partial_function (option) next_active :: "(nat \<Rightarrow> container) \<Rightarrow> nat \<Rightarrow> nat option" where
  "next_active conts index =
     (let i = (index + 1) mod NCONTS
      in if ct_state (conts i) = CRUNNING then Some i else next_active conts i)"

definition get_next_active_container :: "nat \<Rightarrow> nat k" where
  "get_next_active_container index =
     bind (gets (\<lambda>s. next_active (k_conts s) index)) (\<lambda>r.
     case r of None \<Rightarrow> spin | Some i \<Rightarrow> return i)"

text \<open>
  The scheduler's loop never ends, so it is given as its pieces: \<open>scheduler_start\<close> is what
  precedes the loop, \<open>scheduler_visit\<close> the body of the inner loop for one process, up to the
  switch into the process it chose or to the next process, \<open>scheduler_back\<close> what follows when
  that process switches back, \<open>scheduler_round\<close> the end of a pass over the table.
  \<open>cindex\<close> is the container whose turn it is.
\<close>

definition scheduler_start :: "nat k" where
  "scheduler_start =
     bind (get_next_active_container 0) (\<lambda>cindex.
     seq (modify (upd_cpu (\<lambda>c. c\<lparr>c_proc := None\<rparr>))) (
     seq intr_on (return cindex)))"

definition scheduler_visit :: "nat \<Rightarrow> nat \<Rightarrow> unit k" where
  "scheduler_visit cindex p =
     seq (acquire (ProcLock p)) (
     bind (gets (\<lambda>s. k_procs s p)) (\<lambda>q.
     if p_state q = RUNNABLE \<and> p_container q = Some cindex then
       seq (modify (upd_proc p (\<lambda>q. q\<lparr>p_state := RUNNING\<rparr>))) (
       seq (modify (upd_cpu (\<lambda>c. c\<lparr>c_proc := Some p\<rparr>))) swtch)
     else release (ProcLock p)))"

text \<open>The inner loop from process \<open>p\<close> on, until it switches or reaches the end of the table.\<close>

definition scheduler_pass :: "nat \<Rightarrow> nat \<Rightarrow> unit k" where
  "scheduler_pass cindex p = for_each [p..<NPROC] (scheduler_visit cindex)"

definition scheduler_back :: "nat \<Rightarrow> nat \<Rightarrow> nat k" where
  "scheduler_back cindex p =
     seq (modify (upd_cpu (\<lambda>c. c\<lparr>c_proc := None\<rparr>))) (
     bind (get_next_active_container cindex) (\<lambda>cindex'.
     seq (release (ProcLock p)) (return cindex')))"

definition scheduler_round :: "nat \<Rightarrow> nat k" where
  "scheduler_round cindex =
     bind (get_next_active_container cindex) (\<lambda>cindex'. seq intr_on (return cindex'))"

section \<open>The current process: lemmas\<close>

text \<open>The kernel is up and process \<open>p\<close> runs on this CPU.\<close>

definition running :: "nat \<Rightarrow> kstate \<Rightarrow> bool" where
  "running p s \<longleftrightarrow> k_started s \<and> c_proc (k_cpus s (k_hart s)) = Some p"

lemma push_pop_calm: "calm s \<Longrightarrow> pop_off (irq_pushed s) = Ok () s"
  by (simp add: pop_pushed calm_cpu_ok calm_sync)

lemma running_locked [simp]: "running p (locked_state lk s) = running p s"
  by (simp add: running_def)

lemma myproc_running [run_simps]: "calm s \<Longrightarrow> running p s \<Longrightarrow> myproc s = Ok (Ptr p) s"
  by (simp add: myproc_def running_def run_simps push_off_apply push_pop_calm mycpu_def)
    (simp add: irq_pushed_def upd_cpu_def)

lemma myproc_boot [run_simps]: "\<not> k_started s \<Longrightarrow> myproc s = Ok Minus1 s"
  by (simp add: myproc_def run_simps)

lemma mycont_boot [run_simps]: "\<not> k_started s \<Longrightarrow> mycont s = Ok Minus1 s"
  by (simp add: mycont_def run_simps)

lemma mycont_running [run_simps]:
  "calm s \<Longrightarrow> running p s \<Longrightarrow>
     mycont s = Ok (case p_container (k_procs s p) of None \<Rightarrow> Null | Some c \<Rightarrow> Ptr c) s"
  by (simp add: mycont_def run_simps) (simp add: running_def)

lemma holding_calm: "calm s \<Longrightarrow> holding lk s = Ok (lock_held lk s) s"
  by (simp add: holding_apply calm_cpu_ok calm_sync)

lemma keeps_myproc [keeps_intro]: "lock_blind f \<Longrightarrow> keeps f myproc"
  unfolding myproc_def mycpu_def by (intro keeps_intro)

lemma keeps_mycont [keeps_intro]: "lock_blind f \<Longrightarrow> keeps f mycont"
  unfolding mycont_def by (intro keeps_intro)

section \<open>Ids\<close>

lemma allocpid_apply:
  "calm s \<Longrightarrow> lock_free PidLock s \<Longrightarrow>
     allocpid s = Ok (k_nextpid s) (s\<lparr>k_nextpid := k_nextpid s + 1\<rparr>)"
  using release_after [of s PidLock "\<lambda>s. s\<lparr>k_nextpid := k_nextpid s + 1\<rparr>"]
  by (simp add: allocpid_def acquire_calm run_simps off_lock_def)

lemma allocvpid_apply:
  "calm s \<Longrightarrow> lock_free (VpidLock c) s \<Longrightarrow>
     allocvpid c s = Ok (ct_nextvpid (k_conts s c))
       (upd_cont c (\<lambda>ct. ct\<lparr>ct_nextvpid := ct_nextvpid ct + 1\<rparr>) s)"
  using release_after [of s "VpidLock c" "upd_cont c (\<lambda>ct. ct\<lparr>ct_nextvpid := ct_nextvpid ct + 1\<rparr>)"]
  by (simp add: allocvpid_def acquire_calm run_simps)

section \<open>Waking\<close>

text \<open>What a \<open>wakeup\<close> on \<open>ch\<close> makes of one process.\<close>

definition woken :: "chan \<Rightarrow> proc \<Rightarrow> proc" where
  "woken ch q = (if p_state q = SLEEPING \<and> p_chan q = Some ch then q\<lparr>p_state := RUNNABLE\<rparr> else q)"

lemma fold_upd_proc:
  "distinct xs \<Longrightarrow> fold (\<lambda>p. upd_proc p f) xs s =
     s\<lparr>k_procs := (\<lambda>p. if p \<in> set xs then f (k_procs s p) else k_procs s p)\<rparr>"
proof (induction xs arbitrary: s)
  case Nil
  then show ?case by simp
next
  case (Cons x xs)
  then show ?case
    by (intro kstate.equality) (auto simp: upd_proc_def)
qed

lemma wakeup_visit:
  assumes "calm s" and "lock_free (ProcLock p) s"
  shows "block (wakeup_steps chan p) s = Ok () (upd_proc p (woken chan) s)"
proof (cases "p_state (k_procs s p) = SLEEPING \<and> p_chan (k_procs s p) = Some chan")
  case True
  then have "upd_proc p (woken chan) s = upd_proc p (\<lambda>q. q\<lparr>p_state := RUNNABLE\<rparr>) s"
    by (simp add: woken_def upd_proc_def)
  then show ?thesis
    using True assms release_after [OF assms, of "upd_proc p (\<lambda>q. q\<lparr>p_state := RUNNABLE\<rparr>)"]
    by (simp add: wakeup_steps_def acquire_calm run_simps)
next
  case False
  then have "upd_proc p (woken chan) s = s"
    by (auto simp: woken_def upd_proc_def)
  then show ?thesis
    using False assms by (auto simp: wakeup_steps_def acquire_calm run_simps)
qed

lemma wakeup_apply:
  assumes "calm s" and "\<And>p. p < NPROC \<Longrightarrow> lock_free (ProcLock p) s"
  shows "wakeup ch s =
    Ok () (s\<lparr>k_procs := (\<lambda>p. if p < NPROC then woken ch (k_procs s p) else k_procs s p)\<rparr>)"
proof -
  have "wakeup ch s = Ok () (fold (\<lambda>p. upd_proc p (woken ch)) [0..<NPROC] s)"
    unfolding wakeup_def
    by (rule conjunct1, rule for_each_fold [where I = "\<lambda>s. calm s \<and> (\<forall>p<NPROC. lock_free (ProcLock p) s)"])
      (auto simp: wakeup_visit assms off_lock_calm off_lock_free)
  then show ?thesis
    by (simp add: fold_upd_proc)
qed

lemma keeps_wakeup [keeps_intro]:
  "(\<And>s q. f (s\<lparr>k_procs := q\<rparr>) = f s) \<Longrightarrow> lock_blind f \<Longrightarrow> keeps f (wakeup ch)"
  unfolding wakeup_def wakeup_steps_def block.simps by (intro keeps_intro keepsI_modify) (simp_all add: upd_proc_def)

section \<open>Sleeping\<close>

lemma sched_apply:
  assumes "calm s" and "running p s" and "lock_held (ProcLock p) s"
    and "c_noff (k_cpus s (k_hart s)) = 1" and "p_state (k_procs s p) \<noteq> RUNNING"
  shows "sched s = Switch s"
  using assms
  by (simp add: sched_def run_simps holding_calm mycpu_def intr_get_def swtch_def)
    (simp add: calm_def Let_def)

lemma release_one:
  assumes "calm s" and "lock_held lk s" and "1 < c_noff (k_cpus s (k_hart s))"
  shows "release lk s = Ok () (upd_cpu (\<lambda>c. c\<lparr>c_noff := c_noff c - 1, c_intr := False\<rparr>)
    (upd_lock lk (\<lambda>l. l\<lparr>lk_cpu := None, lk_locked := False\<rparr>) s))"
  using assms release_apply [of s lk] calm_cpu_ok [of s]
  by (simp add: upd_cpu_def upd_lock_def)

text \<open>The state in which \<open>sleep\<close> enters the scheduler.\<close>

definition asleep :: "nat \<Rightarrow> chan \<Rightarrow> lockid \<Rightarrow> kstate \<Rightarrow> kstate" where
  "asleep p ch lk s = upd_proc p (\<lambda>q. q\<lparr>p_chan := Some ch, p_state := SLEEPING\<rparr>)
     (upd_cpu (\<lambda>c. c\<lparr>c_noff := c_noff c - 1, c_intr := False\<rparr>)
       (upd_lock lk (\<lambda>l. l\<lparr>lk_cpu := None, lk_locked := False\<rparr>) (locked_state (ProcLock p) s)))"

lemma sleep_apply:
  assumes "calm s" and "running p s" and "lock_held lk s" and "lock_free (ProcLock p) s"
    and "c_noff (k_cpus s (k_hart s)) = 1"
  shows "sleep ch lk s = Switch (asleep p ch lk s)"
proof -
  have other: "lk \<noteq> ProcLock p"
    using assms(3,4) by (auto simp: lock_free_def lock_held_def)
  define t where "t = locked_state (ProcLock p) s"
  define u where "u = upd_cpu (\<lambda>c. c\<lparr>c_noff := c_noff c - 1, c_intr := False\<rparr>)
    (upd_lock lk (\<lambda>l. l\<lparr>lk_cpu := None, lk_locked := False\<rparr>) t)"
  have t: "acquire (ProcLock p) s = Ok () t"
    using assms by (simp add: acquire_calm t_def)
  have "lock_held lk t" and "1 < c_noff (k_cpus t (k_hart t))" and "calm t"
    using assms other
    by (simp_all add: t_def lock_held_def locked_state_def irq_pushed_def upd_cpu_def upd_lock_def calm_def Let_def)
  then have u: "release lk t = Ok () u"
    using release_one [of t lk] by (simp add: u_def)
  have asleep: "asleep p ch lk s = upd_proc p (\<lambda>q. q\<lparr>p_chan := Some ch, p_state := SLEEPING\<rparr>) u"
    by (simp add: asleep_def u_def t_def)
  have "sched (asleep p ch lk s) = Switch (asleep p ch lk s)"
    using assms other unfolding asleep u_def t_def
    by (intro sched_apply [where p = p])
      (simp_all add: calm_def running_def lock_held_def locked_state_def irq_pushed_def upd_defs Let_def)
  then show ?thesis
    using assms(1,2) other t u
    by (simp add: sleep_def sleep_steps_def run_simps asleep) (simp add: upd_proc_def)
qed

section \<open>Choosing a container\<close>

lemma next_active_sound:
  "next_active conts index = Some i \<Longrightarrow> i < NCONTS \<and> ct_state (conts i) = CRUNNING"
  by (rule next_active.raw_induct [of "\<lambda>conts index i. i < NCONTS \<and> ct_state (conts i) = CRUNNING"])
    (auto simp: Let_def split: if_splits)

lemma next_active_least:
  "ct_state (conts ((index + d) mod NCONTS)) = CRUNNING \<Longrightarrow> 0 < d \<Longrightarrow>
     (\<And>e. 0 < e \<Longrightarrow> e < d \<Longrightarrow> ct_state (conts ((index + e) mod NCONTS)) \<noteq> CRUNNING) \<Longrightarrow>
     next_active conts index = Some ((index + d) mod NCONTS)"
proof (induction d arbitrary: index)
  case 0
  then show ?case by simp
next
  case (Suc d)
  show ?case
  proof (cases "d = 0")
    case True
    then show ?thesis
      using Suc.prems(1) by (subst next_active.simps) (simp add: Let_def)
  next
    case False
    define j where "j = (index + 1) mod NCONTS"
    have shift: "(j + e) mod NCONTS = (index + Suc e) mod NCONTS" for e
      by (simp add: j_def mod_add_left_eq)
    have "ct_state (conts j) \<noteq> CRUNNING"
      using Suc.prems(3) [of 1] False by (simp add: j_def)
    then have "next_active conts index = next_active conts j"
      by (subst next_active.simps) (simp add: j_def Let_def)
    also have "\<dots> = Some ((j + d) mod NCONTS)"
    proof (rule Suc.IH)
      show "ct_state (conts ((j + e) mod NCONTS)) \<noteq> CRUNNING" if "0 < e" "e < d" for e
        using Suc.prems(3) [of "Suc e"] that by (simp add: shift)
    qed (use Suc.prems(1) False in \<open>simp_all add: shift\<close>)
    finally show ?thesis
      by (simp add: shift)
  qed
qed

lemma cyclic_distance:
  assumes "j < NCONTS"
  shows "\<exists>d. 0 < d \<and> d \<le> NCONTS \<and> (index + d) mod NCONTS = j"
proof -
  let ?m = "index mod NCONTS"
  have index: "index = NCONTS * (index div NCONTS) + ?m" and "?m < NCONTS"
    by simp_all
  show ?thesis
  proof (cases "?m < j")
    case True
    have "index + (j - ?m) = NCONTS * (index div NCONTS) + j"
      using index True by linarith
    then have "(index + (j - ?m)) mod NCONTS = j"
      using assms by simp
    then show ?thesis
      using True assms by (intro exI [of _ "j - ?m"]) auto
  next
    case False
    have "index + (j + NCONTS - ?m) = NCONTS * (index div NCONTS) + (j + NCONTS)"
      using index \<open>?m < NCONTS\<close> by linarith
    then have "(index + (j + NCONTS - ?m)) mod NCONTS = j"
      using assms by simp
    then show ?thesis
      using False \<open>?m < NCONTS\<close> by (intro exI [of _ "j + NCONTS - ?m"]) linarith
  qed
qed

lemma next_active_exists:
  assumes "ct_state (conts j) = CRUNNING" and "j < NCONTS"
  shows "\<exists>d. 0 < d \<and> next_active conts index = Some ((index + d) mod NCONTS)"
proof -
  let ?P = "\<lambda>d. 0 < d \<and> ct_state (conts ((index + d) mod NCONTS)) = CRUNNING"
  have ex: "\<exists>d. ?P d"
    using cyclic_distance [OF assms(2), of index] assms(1) by auto
  have "next_active conts index = Some ((index + (LEAST d. ?P d)) mod NCONTS)"
    using LeastI_ex [OF ex] by (intro next_active_least) (auto dest: not_less_Least)
  then show ?thesis
    using LeastI_ex [OF ex] by blast
qed

lemma next_active_None_iff:
  "next_active conts index = None \<longleftrightarrow> (\<forall>j<NCONTS. ct_state (conts j) \<noteq> CRUNNING)"
proof
  assume none: "next_active conts index = None"
  show "\<forall>j<NCONTS. ct_state (conts j) \<noteq> CRUNNING"
  proof (intro allI impI notI)
    fix j assume "j < NCONTS" "ct_state (conts j) = CRUNNING"
    then obtain d where "next_active conts index = Some ((index + d) mod NCONTS)"
      using next_active_exists by metis
    then show False using none by simp
  qed
next
  assume "\<forall>j<NCONTS. ct_state (conts j) \<noteq> CRUNNING"
  then show "next_active conts index = None"
    using next_active_sound [of conts index] by (cases "next_active conts index") auto
qed

lemma next_active_turns:
  assumes "ct_state (conts j) = CRUNNING" and "j < NCONTS"
  shows "\<exists>n. 0 < n \<and> n \<le> NCONTS \<and>
    ((\<lambda>i. the (next_active conts i)) ^^ n) index = j"
proof -
  let ?next = "\<lambda>i. the (next_active conts i)"
  have main: "\<exists>n. 0 < n \<and> n \<le> d \<and> (?next ^^ n) i = j"
    if "(i + d) mod NCONTS = j" and "0 < d" for d i
    using that
  proof (induction d arbitrary: i rule: less_induct)
    case (less d)
    let ?P = "\<lambda>e. 0 < e \<and> ct_state (conts ((i + e) mod NCONTS)) = CRUNNING"
    define e where "e = (LEAST e. ?P e)"
    have "?P d"
      using less.prems assms(1) by simp
    then have e: "?P e" and "e \<le> d"
      unfolding e_def by (rule LeastI, rule Least_le)
    have step: "?next i = (i + e) mod NCONTS"
      using e next_active_least [of conts i e] not_less_Least [of _ ?P] unfolding e_def
      by (metis (no_types, lifting) option.sel)
    show ?case
    proof (cases "e = d")
      case True
      then show ?thesis
        using step less.prems by (intro exI [of _ 1]) simp
    next
      case False
      have "((i + e) mod NCONTS + (d - e)) mod NCONTS = j"
        unfolding mod_add_left_eq using \<open>e \<le> d\<close> less.prems(1) by simp
      then obtain n where "0 < n" "n \<le> d - e" "(?next ^^ n) ((i + e) mod NCONTS) = j"
        using less.IH [of "d - e" "(i + e) mod NCONTS"] False \<open>e \<le> d\<close> e by auto
      then show ?thesis
        using step \<open>e \<le> d\<close> e
        by (intro exI [of _ "Suc n"]) (auto simp: funpow_Suc_right simp del: funpow.simps)
    qed
  qed
  obtain d where "0 < d" "d \<le> NCONTS" "(index + d) mod NCONTS = j"
    using cyclic_distance [OF assms(2)] by blast
  then show ?thesis
    using main [of index d] by (meson order_trans)
qed

section \<open>The scheduler and the process it runs\<close>

definition may_run :: "nat \<Rightarrow> kstate \<Rightarrow> nat \<Rightarrow> bool" where
  "may_run cindex s p \<longleftrightarrow> p_state (k_procs s p) = RUNNABLE \<and> p_container (k_procs s p) = Some cindex"

text \<open>The state in which the scheduler switches to process \<open>p\<close>.\<close>

definition chosen :: "nat \<Rightarrow> kstate \<Rightarrow> kstate" where
  "chosen p s = upd_cpu (\<lambda>c. c\<lparr>c_proc := Some p\<rparr>)
     (upd_proc p (\<lambda>q. q\<lparr>p_state := RUNNING\<rparr>) (locked_state (ProcLock p) s))"

lemma scheduler_visit_apply:
  "calm s \<Longrightarrow> lock_free (ProcLock p) s \<Longrightarrow>
     scheduler_visit cindex p s = (if may_run cindex s p then Switch (chosen p s) else Ok () s)"
  by (simp add: scheduler_visit_def acquire_calm run_simps swtch_def may_run_def chosen_def)

lemma scheduler_pass_apply:
  assumes "calm s" and "\<And>p. p \<in> set ps \<Longrightarrow> lock_free (ProcLock p) s"
  shows "for_each ps (scheduler_visit cindex) s =
    (case find (may_run cindex s) ps of None \<Rightarrow> Ok () s | Some p \<Rightarrow> Switch (chosen p s))"
  using assms(2) by (induction ps) (auto simp: scheduler_visit_apply [OF assms(1)] seq_def bind_def return_def)

text \<open>The process runs with its lock dropped and its own interrupt state.\<close>

definition resumed :: "nat \<Rightarrow> bool \<Rightarrow> kstate \<Rightarrow> kstate" where
  "resumed p on s = upd_cpu (\<lambda>c. c\<lparr>c_proc := Some p, c_intena := on, c_intr := on\<rparr>)
     (upd_proc p (\<lambda>q. q\<lparr>p_state := RUNNING\<rparr>) s)"

lemma lock_free_same: "lock_free lk s \<Longrightarrow> (k_locks s lk)\<lparr>lk_cpu := None, lk_locked := False\<rparr> = k_locks s lk"
  by (cases "k_locks s lk") (simp add: lock_free_def)

lemma yield_return_chosen:
  assumes "calm s" and "lock_free (ProcLock p) s" and "c_noff (k_cpus s (k_hart s)) = 0"
  shows "yield_return p on (chosen p s) = Ok () (resumed p on s)"
proof -
  let ?t = "upd_cpu (\<lambda>c. c\<lparr>c_intena := on\<rparr>) (chosen p s)"
  have t: "k_hart ?t = k_hart s" "c_noff (k_cpus ?t (k_hart s)) = 1" "c_intena (k_cpus ?t (k_hart s)) = on" "cpu_ok ?t" "lock_held (ProcLock p) ?t"
    using assms(3) by (simp_all add: chosen_def upd_defs cpu_ok_def lock_held_def locked_state_def irq_pushed_def)
  have "release (ProcLock p) ?t = Ok () (upd_cpu (\<lambda>c. c\<lparr>c_noff := c_noff c - 1, c_intr := (c_noff c = 1 \<and> c_intena c)\<rparr>)
            (upd_lock (ProcLock p) (\<lambda>l. l\<lparr>lk_cpu := None, lk_locked := False\<rparr>) ?t))"
    using t by (subst release_apply) simp_all
  also have "upd_cpu (\<lambda>c. c\<lparr>c_noff := c_noff c - 1, c_intr := (c_noff c = 1 \<and> c_intena c)\<rparr>)
            (upd_lock (ProcLock p) (\<lambda>l. l\<lparr>lk_cpu := None, lk_locked := False\<rparr>) ?t) = resumed p on s"
    using assms(3) lock_free_same [OF assms(2)]
    by (intro kstate.equality) (simp_all add: resumed_def chosen_def upd_defs locked_state_def irq_pushed_def fun_eq_iff)
  finally show ?thesis
    by (simp add: yield_return_def sched_return_def run_simps)
qed

lemma yield_resumed:
  assumes "k_started s" and "lock_free (ProcLock p) s" and "c_noff (k_cpus s (k_hart s)) = 0"
  shows "yield (resumed p on s) =
    Switch (upd_proc p (\<lambda>q. q\<lparr>p_state := RUNNABLE\<rparr>) (locked_state (ProcLock p) (resumed p on s)))"
proof -
  let ?u = "resumed p on s"
  let ?v = "upd_proc p (\<lambda>q. q\<lparr>p_state := RUNNABLE\<rparr>) (locked_state (ProcLock p) ?u)"
  have u: "calm ?u" "running p ?u" "lock_free (ProcLock p) ?u" "c_noff (k_cpus ?u (k_hart ?u)) = 0"
    using assms by (simp_all add: resumed_def upd_defs calm_def running_def lock_free_def)
  have "sched ?v = Switch ?v"
    using u by (intro sched_apply [of _ p])
      (simp_all add: off_lock_calm, simp_all add: upd_proc_def running_def lock_held_def locked_state_def irq_pushed_def upd_cpu_def upd_lock_def)
  then show ?thesis
    using u by (simp add: yield_def run_simps acquire_calm)
qed

lemma scheduler_back_yielded:
  assumes "calm s" and "lock_free (ProcLock p) s" and "c_noff (k_cpus s (k_hart s)) = 0" and "c_proc (k_cpus s (k_hart s)) = None"
    and "p_state (k_procs s p) = RUNNABLE" and "next_active (k_conts s) cindex = Some c"
  shows "scheduler_back cindex p (upd_proc p (\<lambda>q. q\<lparr>p_state := RUNNABLE\<rparr>) (locked_state (ProcLock p) (resumed p on s))) =
    Ok c (upd_cpu (\<lambda>c. c\<lparr>c_intena := on, c_intr := on\<rparr>) s)"
proof -
  let ?w = "upd_cpu (\<lambda>c. c\<lparr>c_proc := None\<rparr>) (upd_proc p (\<lambda>q. q\<lparr>p_state := RUNNABLE\<rparr>) (locked_state (ProcLock p) (resumed p on s)))"
  have w: "k_hart ?w = k_hart s" "k_conts ?w = k_conts s" "c_noff (k_cpus ?w (k_hart s)) = 1" "cpu_ok ?w" "lock_held (ProcLock p) ?w"
    using assms(3) by (simp_all add: resumed_def upd_defs cpu_ok_def lock_held_def locked_state_def irq_pushed_def)
  have same: "(k_procs s p)\<lparr>p_state := RUNNABLE\<rparr> = k_procs s p"
    using assms(5) by (cases "k_procs s p") simp
  have cpu: "(k_cpus s (k_hart s))\<lparr>c_intena := on, c_proc := None, c_noff := 0, c_intr := on\<rparr> = (k_cpus s (k_hart s))\<lparr>c_intena := on, c_intr := on\<rparr>"
    using assms(3,4) by (cases "k_cpus s (k_hart s)") simp
  have "release (ProcLock p) ?w = Ok () (upd_cpu (\<lambda>c. c\<lparr>c_noff := c_noff c - 1, c_intr := (c_noff c = 1 \<and> c_intena c)\<rparr>)
            (upd_lock (ProcLock p) (\<lambda>l. l\<lparr>lk_cpu := None, lk_locked := False\<rparr>) ?w))"
    using w by (subst release_apply) simp_all
  also have "upd_cpu (\<lambda>c. c\<lparr>c_noff := c_noff c - 1, c_intr := (c_noff c = 1 \<and> c_intena c)\<rparr>)
            (upd_lock (ProcLock p) (\<lambda>l. l\<lparr>lk_cpu := None, lk_locked := False\<rparr>) ?w) = upd_cpu (\<lambda>c. c\<lparr>c_intena := on, c_intr := on\<rparr>) s"
    using assms(3) lock_free_same [OF assms(2)] same cpu
    by (intro kstate.equality) (simp_all add: resumed_def upd_defs locked_state_def irq_pushed_def fun_eq_iff)
  finally show ?thesis
    using assms(6) w(2) by (simp add: scheduler_back_def get_next_active_container_def run_simps)
qed

text \<open>The round trip: from the switch into the process, through its \<open>yield\<close>, to the scheduler again.\<close>

lemma yield_cycle:
  assumes "calm s" and "k_started s" and "lock_free (ProcLock p) s" and "c_noff (k_cpus s (k_hart s)) = 0"
    and "c_proc (k_cpus s (k_hart s)) = None" and "p_state (k_procs s p) = RUNNABLE" and "\<exists>j<NCONTS. ct_state (k_conts s j) = CRUNNING"
  shows "\<forall>on. \<exists>u v c. yield_return p on (chosen p s) = Ok () u \<and> lock_free (ProcLock p) u \<and> c_intr (k_cpus u (k_hart u)) = on \<and>
    yield u = Switch v \<and> ct_state (k_conts s c) = CRUNNING \<and>
    scheduler_back cindex p v = Ok c (upd_cpu (\<lambda>c. c\<lparr>c_intena := on, c_intr := on\<rparr>) s)"
proof
  fix on
  obtain c where c: "next_active (k_conts s) cindex = Some c" "ct_state (k_conts s c) = CRUNNING"
    using assms(7) next_active_None_iff [of "k_conts s" cindex] next_active_sound [of "k_conts s" cindex]
    by (cases "next_active (k_conts s) cindex") auto
  have "lock_free (ProcLock p) (resumed p on s)" "c_intr (k_cpus (resumed p on s) (k_hart (resumed p on s))) = on"
    using assms(3) by (simp_all add: resumed_def upd_defs lock_free_def)
  then show "\<exists>u v c. yield_return p on (chosen p s) = Ok () u \<and> lock_free (ProcLock p) u \<and> c_intr (k_cpus u (k_hart u)) = on \<and>
    yield u = Switch v \<and> ct_state (k_conts s c) = CRUNNING \<and>
    scheduler_back cindex p v = Ok c (upd_cpu (\<lambda>c. c\<lparr>c_intena := on, c_intr := on\<rparr>) s)"
    using yield_return_chosen [OF assms(1,3,4), of on] yield_resumed [OF assms(2-4), of on]
      scheduler_back_yielded [OF assms(1,3-6) c(1), of on] c(2) by blast
qed

section \<open>Properties\<close>

text \<open>C20. \<open>wakeup\<close>, called with no process lock held, makes exactly the processes sleeping on the
  channel runnable and changes nothing else: no process lock stays held, and the interrupt
  state is as before.\<close>

theorem wakeup_wakes_exactly:
  assumes "calm s" and "\<And>p. p < NPROC \<Longrightarrow> lock_free (ProcLock p) s"
  shows "wakeup ch s = Ok () (s\<lparr>k_procs := (\<lambda>p.
    if p < NPROC \<and> p_state (k_procs s p) = SLEEPING \<and> p_chan (k_procs s p) = Some ch
    then (k_procs s p)\<lparr>p_state := RUNNABLE\<rparr> else k_procs s p)\<rparr>)"
  using wakeup_apply [OF assms] by (auto simp: woken_def fun_eq_iff intro!: arg_cong2 [where f = Ok] kstate.equality)

definition demo_sleeper :: kstate where
  "demo_sleeper = upd_proc 3 (\<lambda>q. q\<lparr>p_state := SLEEPING, p_chan := Some ChTicks\<rparr>) zero_state"

theorem wakeup_wakes_exactly_witness:
  "\<exists>t. wakeup ChTicks demo_sleeper = Ok () t \<and> p_state (k_procs t 3) = RUNNABLE \<and>
     p_state (k_procs t 4) = UNUSED"
proof -
  have "calm demo_sleeper" and "\<And>p. lock_free (ProcLock p) demo_sleeper"
    by (simp_all add: demo_sleeper_def calm_def lock_free_def upd_proc_def zero_state_def)
  then show ?thesis
    using wakeup_wakes_exactly [of demo_sleeper ChTicks]
    by (simp add: demo_sleeper_def upd_proc_def zero_state_def zero_proc_def)
qed

definition demo_running :: kstate where
  "demo_running = zero_state\<lparr>k_started := True,
     k_cpus := (\<lambda>_. \<lparr>c_proc = Some 2, c_noff = 0, c_intena = True, c_intr = True\<rparr>)\<rparr>"

text \<open>C21 (the scheduler's cycle). A pass of the scheduler over the process table from process \<open>p0\<close> on
  switches to the first process that is runnable and belongs to the container whose turn it is,
  marked running on this CPU, with its lock held and interrupts off, and with no other process
  changed; if there is none it leaves everything as it found it. The process that resumes there
  drops its lock and gets its own interrupt state back. When it gives the CPU up by \<open>yield\<close> and
  the scheduler continues, the scheduler has the state it switched from: the process is
  runnable, every lock is as it was, the CPU has no process, and only the interrupt state is
  that of the process; the turn passes to a running container.\<close>

theorem scheduler_cycle:
  assumes "calm s" and "\<And>q. q < NPROC \<Longrightarrow> lock_free (ProcLock q) s" and "k_started s"
    and "c_noff (k_cpus s (k_hart s)) = 0" and "c_proc (k_cpus s (k_hart s)) = None"
    and "\<exists>j<NCONTS. ct_state (k_conts s j) = CRUNNING"
  shows "case find (\<lambda>p. p_state (k_procs s p) = RUNNABLE \<and> p_container (k_procs s p) = Some cindex) [p0..<NPROC] of
      None \<Rightarrow> scheduler_pass cindex p0 s = Ok () s
    | Some p \<Rightarrow> \<exists>t. scheduler_pass cindex p0 s = Switch t \<and> running p t \<and> p_state (k_procs t p) = RUNNING \<and>
        lock_held (ProcLock p) t \<and> \<not> c_intr (k_cpus t (k_hart t)) \<and> (\<forall>q. q \<noteq> p \<longrightarrow> k_procs t q = k_procs s q) \<and>
        (\<forall>on. \<exists>u v c. yield_return p on t = Ok () u \<and> lock_free (ProcLock p) u \<and> c_intr (k_cpus u (k_hart u)) = on \<and>
          yield u = Switch v \<and> ct_state (k_conts s c) = CRUNNING \<and>
          scheduler_back cindex p v = Ok c (upd_cpu (\<lambda>c. c\<lparr>c_intena := on, c_intr := on\<rparr>) s))"
proof -
  let ?P = "\<lambda>p. p_state (k_procs s p) = RUNNABLE \<and> p_container (k_procs s p) = Some cindex"
  have "may_run cindex s = ?P"
    by (simp add: fun_eq_iff may_run_def)
  then have pass: "scheduler_pass cindex p0 s = (case find ?P [p0..<NPROC] of None \<Rightarrow> Ok () s | Some p \<Rightarrow> Switch (chosen p s))"
    unfolding scheduler_pass_def using assms(2) scheduler_pass_apply [OF assms(1), of "[p0..<NPROC]" cindex] by simp
  show ?thesis
  proof (cases "find ?P [p0..<NPROC]")
    case None
    then show ?thesis
      using pass by simp
  next
    case (Some p)
    then have "p < NPROC" and r: "p_state (k_procs s p) = RUNNABLE"
      by (auto simp: find_Some_iff nth_upt)
    then have free: "lock_free (ProcLock p) s"
      using assms(2) by blast
    have "running p (chosen p s)" "p_state (k_procs (chosen p s) p) = RUNNING" "lock_held (ProcLock p) (chosen p s)"
        "\<not> c_intr (k_cpus (chosen p s) (k_hart (chosen p s)))" "\<forall>q. q \<noteq> p \<longrightarrow> k_procs (chosen p s) q = k_procs s q"
      using assms(3) by (simp_all add: chosen_def upd_defs running_def lock_held_def locked_state_def irq_pushed_def)
    then show ?thesis
      using pass yield_cycle [OF assms(1,3) free assms(4,5) r assms(6)] unfolding Some option.case by blast
  qed
qed

text \<open>Two processes, of which only the second is runnable in the container whose turn it is.\<close>

definition demo_ready :: kstate where
  "demo_ready = zero_state\<lparr>k_started := True, k_conts := (k_conts zero_state)(2 := (k_conts zero_state 2)\<lparr>ct_state := CRUNNING\<rparr>),
     k_procs := (k_procs zero_state)(3 := (k_procs zero_state 3)\<lparr>p_state := RUNNABLE, p_container := Some 4\<rparr>,
       5 := (k_procs zero_state 5)\<lparr>p_state := RUNNABLE, p_container := Some 2\<rparr>)\<rparr>"

theorem scheduler_cycle_witness:
  "(\<exists>t u v. scheduler_pass 2 0 demo_ready = Switch t \<and> running 5 t \<and> yield_return 5 True t = Ok () u \<and> yield u = Switch v \<and>
     (\<exists>c. scheduler_back 2 5 v = Ok c (upd_cpu (\<lambda>c. c\<lparr>c_intena := True, c_intr := True\<rparr>) demo_ready))) \<and>
   scheduler_pass 2 6 demo_ready = Ok () demo_ready"
proof -
  have s: "calm demo_ready" "\<And>q. lock_free (ProcLock q) demo_ready" "k_started demo_ready"
      "c_noff (k_cpus demo_ready (k_hart demo_ready)) = 0" "c_proc (k_cpus demo_ready (k_hart demo_ready)) = None"
    by (simp_all add: demo_ready_def calm_def lock_free_def zero_defs)
  have j: "\<exists>j<NCONTS. ct_state (k_conts demo_ready j) = CRUNNING"
    by (rule exI [of _ 2]) (simp add: demo_ready_def)
  have f: "find (\<lambda>p. p_state (k_procs demo_ready p) = RUNNABLE \<and> p_container (k_procs demo_ready p) = Some 2) [0..<NPROC] = Some 5"
    by (rule find_upt_least) (simp_all add: demo_ready_def zero_state_def zero_proc_def)
  have g: "find (\<lambda>p. p_state (k_procs demo_ready p) = RUNNABLE \<and> p_container (k_procs demo_ready p) = Some 2) [6..<NPROC] = None"
    unfolding find_None_iff set_upt by (auto simp: demo_ready_def zero_state_def zero_proc_def)
  have "\<exists>t u v. scheduler_pass 2 0 demo_ready = Switch t \<and> running 5 t \<and> yield_return 5 True t = Ok () u \<and> yield u = Switch v \<and>
     (\<exists>c. scheduler_back 2 5 v = Ok c (upd_cpu (\<lambda>c. c\<lparr>c_intena := True, c_intr := True\<rparr>) demo_ready))"
    using scheduler_cycle [OF s j, of 2 0] unfolding f option.case by blast
  moreover have "scheduler_pass 2 6 demo_ready = Ok () demo_ready"
    using scheduler_cycle [OF s j, of 2 6] unfolding g option.case .
  ultimately show ?thesis by blast
qed

text \<open>C22 (round robin). \<open>get_next_active_container\<close> only ever returns a running container; it spins
  exactly when none is running; and every running container gets its turn within
  \<open>NCONTS\<close> consecutive choices, whatever container the sequence starts from.\<close>

theorem container_round_robin:
  "(\<forall>i t. get_next_active_container index s = Ok i t \<longrightarrow>
      i < NCONTS \<and> ct_state (k_conts s i) = CRUNNING \<and> t = s) \<and>
   (get_next_active_container index s = Spin \<longleftrightarrow> (\<forall>j<NCONTS. ct_state (k_conts s j) \<noteq> CRUNNING)) \<and>
   (\<forall>j<NCONTS. ct_state (k_conts s j) = CRUNNING \<longrightarrow>
      (\<exists>n. 0 < n \<and> n \<le> NCONTS \<and> ((\<lambda>i. the (next_active (k_conts s) i)) ^^ n) index = j))"
proof (intro conjI allI impI)
  show "(get_next_active_container index s = Spin) = (\<forall>j<NCONTS. ct_state (k_conts s j) \<noteq> CRUNNING)"
    unfolding next_active_None_iff [symmetric, of _ index]
    by (cases "next_active (k_conts s) index") (simp_all add: get_next_active_container_def run_simps)
next
  fix i t
  assume "get_next_active_container index s = Ok i t"
  then have "next_active (k_conts s) index = Some i" and "t = s"
    by (cases "next_active (k_conts s) index"; simp add: get_next_active_container_def run_simps)+
  then show "i < NCONTS" and "ct_state (k_conts s i) = CRUNNING" and "t = s"
    using next_active_sound [of "k_conts s" index i] by simp_all
next
  fix j
  assume "j < NCONTS" and "ct_state (k_conts s j) = CRUNNING"
  then show "\<exists>n. 0 < n \<and> n \<le> NCONTS \<and> ((\<lambda>i. the (next_active (k_conts s) i)) ^^ n) index = j"
    by (intro next_active_turns)
qed

definition demo_conts :: kstate where
  "demo_conts = upd_cont 2 (\<lambda>c. c\<lparr>ct_state := CRUNNING\<rparr>) zero_state"

theorem container_round_robin_witness:
  "get_next_active_container 4 demo_conts \<noteq> Spin \<and>
   (\<exists>n. 0 < n \<and> n \<le> NCONTS \<and> ((\<lambda>i. the (next_active (k_conts demo_conts) i)) ^^ n) 4 = 2)"
proof -
  have "ct_state (k_conts demo_conts 2) = CRUNNING"
    by (simp add: demo_conts_def upd_cont_def)
  then show ?thesis
    using container_round_robin [of 4 demo_conts] by auto
qed

end
