(* ===== verification/Xv6_Kalloc.thy ===== *)
theory Xv6_Kalloc
  imports Xv6_Sched
begin

text \<open>
  \<open>kernel/kalloc.c\<close>: the page allocator and its per-container accounting. The free list lives
  in the free pages themselves: \<open>r->next\<close> is the word at the start of a free page. The
  abstraction relates it to a list of page addresses; \<open>kalloc\<close> and \<open>kfree\<close> then are
  the removal and insertion of a page, which is what the locale \<open>page_allocator\<close> promises to
  the components that allocate.
\<close>

section \<open>Definitions\<close>

definition kfree :: "u64 \<Rightarrow> unit k" where
  "kfree pa =
     bind mycont (\<lambda>cp.
     seq (if cp \<noteq> Minus1
          then bind (deref cp) (\<lambda>c. modify (upd_cont c (\<lambda>ct. ct\<lparr>ct_memused := ct_memused ct - 1\<rparr>)))
          else return ()) (
     bind (gets (\<lambda>s. sym_end (k_syms s))) (\<lambda>end.
     if pa mod PGSIZE \<noteq> 0 \<or> pa < end \<or> pa \<ge> PHYSTOP then panic ''kfree''
     else block [
       modify (\<lambda>s. s\<lparr>k_mem := memset (k_mem s) pa 1 4096\<rparr>),
       acquire KmemLock,
       modify (\<lambda>s. s\<lparr>k_mem := st64 (k_mem s) pa (k_freelist s)\<rparr>),
       modify (\<lambda>s. s\<lparr>k_freelist := pa\<rparr>),
       release KmemLock])))"

text \<open>
  The accounting at the head of \<open>kalloc\<close>, for the container of the running process; it tells
  whether the allocation goes on.
\<close>

definition kalloc_charge_cont :: "nat option \<Rightarrow> bool k" where
  "kalloc_charge_cont cp =
     bind (if isroot cp then return False
           else bind (deref_opt cp) (\<lambda>c.
             gets (\<lambda>s. ct_memused (k_conts s c) \<ge> ct_memlimit (k_conts s c)))) (\<lambda>over.
     if over then
       seq (printf (Some (''kalloc: failed: container mem limit exceeded'' @ [CHR 0x0A])) [])
         (return False)
     else
       bind (deref_opt cp) (\<lambda>c.
       seq (modify (upd_cont c (\<lambda>ct. ct\<lparr>ct_memused := ct_memused ct + 1\<rparr>))) (return True)))"

definition kalloc_charge :: "bool k" where
  "kalloc_charge =
     bind myproc (\<lambda>pp.
     if pp = Minus1 then return True
     else
       bind (deref pp) (\<lambda>p.
       bind (gets (\<lambda>s. p_container (k_procs s p))) kalloc_charge_cont))"

definition kalloc_take :: "u64 k" where
  "kalloc_take =
     seq (acquire KmemLock) (
     bind (gets k_freelist) (\<lambda>r.
     seq (do_when (r \<noteq> 0) (modify (\<lambda>s. s\<lparr>k_freelist := ld64 (k_mem s) r\<rparr>))) (
     seq (release KmemLock) (
     seq (do_when (r \<noteq> 0) (modify (\<lambda>s. s\<lparr>k_mem := memset (k_mem s) r 5 4096\<rparr>)))
     (return r)))))"

definition kalloc :: "u64 k" where
  "kalloc = bind kalloc_charge (\<lambda>go. if \<not> go then return 0 else kalloc_take)"

text \<open>A sweep over the address space has at most \<open>2 ^ 52\<close> pages.\<close>

definition freerange :: "u64 \<Rightarrow> u64 \<Rightarrow> unit k" where
  "freerange pa_start pa_end =
     loop (2 ^ 52 + 1) (\<lambda>p.
       if p + PGSIZE \<le> pa_end then seq (kfree p) (return (Inl (p + PGSIZE))) else return (Inr ()))
     (PGROUNDUP pa_start)"

definition kinit :: "unit k" where
  "kinit =
     seq (initlock KmemLock ''kmem'') (
     bind (gets (\<lambda>s. sym_end (k_syms s))) (\<lambda>end. freerange end PHYSTOP))"

section \<open>The free list\<close>

primrec free_chain :: "memory \<Rightarrow> u64 \<Rightarrow> u64 list \<Rightarrow> bool" where
  "free_chain m r [] = (r = 0)"
| "free_chain m r (x # xs) = (r = x \<and> x \<noteq> 0 \<and> free_chain m (ld64 m x) xs)"

definition page_aligned :: "u64 \<Rightarrow> bool" where
  "page_aligned a \<longleftrightarrow> a mod PGSIZE = 0"

definition page_ok :: "kstate \<Rightarrow> u64 \<Rightarrow> bool" where
  "page_ok s pa \<longleftrightarrow> page_aligned pa \<and> sym_end (k_syms s) \<le> pa \<and> pa < PHYSTOP"

definition kmem_inv :: "kstate \<Rightarrow> u64 list \<Rightarrow> bool" where
  "kmem_inv s xs \<longleftrightarrow> free_chain (k_mem s) (k_freelist s) xs \<and> distinct xs \<and>
     (\<forall>x\<in>set xs. page_ok s x) \<and> 0 < sym_end (k_syms s)"

lemma free_chain_unique: "free_chain m r xs \<Longrightarrow> free_chain m r ys \<Longrightarrow> xs = ys"
proof (induction xs arbitrary: r ys)
  case Nil
  then show ?case by (cases ys) auto
next
  case (Cons x xs)
  then show ?case by (cases ys) auto
qed

lemma free_chain_cong:
  "(\<And>x. x \<in> set xs \<Longrightarrow> ld64 m' x = ld64 m x) \<Longrightarrow> free_chain m' r xs = free_chain m r xs"
  by (induction xs arbitrary: r) auto

lemma page_aligned_dvd: "page_aligned a \<longleftrightarrow> 4096 dvd unat a"
  by (simp add: page_aligned_def word_unat_eq_iff unat_mod flip: dvd_eq_mod_eq_0 del: mod_0_imp_dvd)

lemma page_diff:
  assumes "page_aligned a" and "page_aligned b" and "a \<noteq> b"
  shows "4096 \<le> unat (a - b)"
proof -
  have ab: "4096 dvd unat a" "4096 dvd unat b"
    using assms(1,2) by (simp_all only: page_aligned_dvd)
  have "4096 dvd unat (a - b)"
  proof (cases "unat b \<le> unat a")
    case True
    then have "unat (a - b) = unat a - unat b"
      by (simp add: unat_sub_if')
    then show ?thesis
      using dvd_diff_nat [OF ab] by (simp only:)
  next
    case False
    then have "unat (a - b) = (2 ^ 64 + unat a) - unat b"
      by (simp add: unat_sub_if')
    moreover have "4096 dvd (2 ^ 64 + unat a)"
      using dvd_add [OF _ ab(1), of "2 ^ 64"] by simp
    ultimately show ?thesis
      using dvd_diff_nat [OF _ ab(2)] by (simp only:)
  qed
  moreover have "0 < unat (a - b)"
    using assms(3) by (simp add: unat_gt_0)
  ultimately show ?thesis
    by (rule dvd_imp_le)
qed

text \<open>Filling one page leaves the words of every other page alone.\<close>

lemma ld64_other_page:
  assumes "page_aligned a" and "page_aligned b" and "a \<noteq> b" and "n \<le> 4096"
  shows "ld64 (mem_write m a n src) b = ld64 m b"
  using page_diff [of a b] page_diff [of b a] assms by (intro ld64_mem_write_other) auto

lemma kmem_inv_take:
  assumes "kmem_inv s (x # xs)"
  shows "kmem_inv (s\<lparr>k_freelist := ld64 (k_mem s) x, k_mem := memset (k_mem s) x c 4096\<rparr>) xs"
proof -
  have "ld64 (memset (k_mem s) x c 4096) y = ld64 (k_mem s) y" if "y \<in> set xs" for y
    using assms that by (auto simp: kmem_inv_def page_ok_def memset_eq intro!: ld64_other_page)
  then have "free_chain (memset (k_mem s) x c 4096) r xs = free_chain (k_mem s) r xs" for r
    by (rule free_chain_cong)
  then show ?thesis
    using assms by (simp add: kmem_inv_def page_ok_def)
qed

lemma kmem_inv_put:
  assumes "kmem_inv s xs" and "page_ok s x" and "x \<notin> set xs"
  shows "kmem_inv (s\<lparr>k_mem := st64 (memset (k_mem s) x c 4096) x (k_freelist s), k_freelist := x\<rparr>) (x # xs)"
proof -
  let ?m = "st64 (memset (k_mem s) x c 4096) x (k_freelist s)"
  have "ld64 ?m y = ld64 (k_mem s) y" if "y \<in> set xs" for y
  proof -
    have y: "page_aligned x" "page_aligned y" "x \<noteq> y"
      using assms that by (auto simp: kmem_inv_def page_ok_def)
    then have "ld64 ?m y = ld64 (memset (k_mem s) x c 4096) y"
      unfolding st64_def by (rule ld64_other_page) simp
    also have "\<dots> = ld64 (k_mem s) y"
      using y by (simp add: memset_eq ld64_other_page)
    finally show ?thesis .
  qed
  then have "free_chain ?m r xs = free_chain (k_mem s) r xs" for r
    by (rule free_chain_cong)
  moreover have "x \<noteq> 0"
    using assms by (auto simp: kmem_inv_def page_ok_def)
  ultimately show ?thesis
    using assms by (simp add: kmem_inv_def page_ok_def)
qed

section \<open>What the operations do\<close>

text \<open>
  Where an allocation is charged: nowhere before the first process runs, otherwise to the
  container of the running process.
\<close>

definition charge :: "kstate \<Rightarrow> int \<Rightarrow> kstate" where
  "charge s d =
     (if \<not> k_started s then s
      else case c_proc (k_cpus s (k_hart s)) of
        None \<Rightarrow> s
      | Some p \<Rightarrow> (case p_container (k_procs s p) of
          None \<Rightarrow> s | Some c \<Rightarrow> upd_cont c (\<lambda>ct. ct\<lparr>ct_memused := ct_memused ct + d\<rparr>) s))"

text \<open>The allocator is usable: on a calm CPU with its lock free, by a process that has a container.\<close>

definition alloc_ready :: "kstate \<Rightarrow> bool" where
  "alloc_ready s \<longleftrightarrow> calm s \<and> lock_free KmemLock s \<and>
     (k_started s \<longrightarrow> (\<exists>p c. c_proc (k_cpus s (k_hart s)) = Some p \<and> p_container (k_procs s p) = Some c))"

definition under_limit :: "kstate \<Rightarrow> bool" where
  "under_limit s \<longleftrightarrow> (k_started s \<longrightarrow> (\<forall>p c. c_proc (k_cpus s (k_hart s)) = Some p \<longrightarrow>
     p_container (k_procs s p) = Some c \<longrightarrow> c = 0 \<or> ct_memused (k_conts s c) < ct_memlimit (k_conts s c)))"

lemma charge_fields [simp]:
  "k_hart (charge s d) = k_hart s" "k_cpus (charge s d) = k_cpus s" "k_locks (charge s d) = k_locks s"
  "k_procs (charge s d) = k_procs s" "k_mem (charge s d) = k_mem s"
  "k_freelist (charge s d) = k_freelist s" "k_syms (charge s d) = k_syms s"
  "k_started (charge s d) = k_started s"
  by (simp_all add: charge_def upd_cont_def split: option.split)

lemma off_lock_charge: "calm (charge s d) = calm s" "lock_free lk (charge s d) = lock_free lk s"
  by (simp_all add: calm_def lock_free_def)

lemma kalloc_charge_ok:
  assumes "alloc_ready s" and "under_limit s"
  shows "kalloc_charge s = Ok True (charge s 1)"
proof (cases "k_started s")
  case False
  then show ?thesis
    by (simp add: kalloc_charge_def run_simps charge_def)
next
  case True
  then obtain p c where pc: "c_proc (k_cpus s (k_hart s)) = Some p" "p_container (k_procs s p) = Some c"
    and calm: "calm s"
    using assms(1) by (auto simp: alloc_ready_def)
  then have "running p s"
    using True by (simp add: running_def)
  moreover have "c = 0 \<or> \<not> ct_memlimit (k_conts s c) \<le> ct_memused (k_conts s c)"
    using assms(2) True pc by (auto simp: under_limit_def)
  ultimately show ?thesis
    using True pc calm by (auto simp: kalloc_charge_def kalloc_charge_cont_def run_simps charge_def isroot_def)
qed

lemma kalloc_take_apply:
  assumes "calm s" and "lock_free KmemLock s" and "kmem_inv s xs"
  shows "kalloc_take s = (case xs of [] \<Rightarrow> Ok 0 s
     | x # _ \<Rightarrow> Ok x (s\<lparr>k_freelist := ld64 (k_mem s) x, k_mem := memset (k_mem s) x 5 4096\<rparr>))"
proof (cases xs)
  case Nil
  then show ?thesis
    using assms by (simp add: kalloc_take_def acquire_calm run_simps kmem_inv_def)
next
  case (Cons x ys)
  then have "k_freelist s = x" and "x \<noteq> 0"
    using assms(3) by (simp_all add: kmem_inv_def)
  then show ?thesis
    using assms Cons release_after [of s KmemLock "\<lambda>s. s\<lparr>k_freelist := ld64 (k_mem s) x\<rparr>"]
    by (simp add: kalloc_take_def acquire_calm run_simps off_lock_def)
qed

lemma kalloc_apply:
  assumes "alloc_ready s" and "under_limit s" and "kmem_inv s xs"
  shows "kalloc s = (case xs of [] \<Rightarrow> Ok 0 (charge s 1)
    | x # _ \<Rightarrow> Ok x ((charge s 1)\<lparr>k_freelist := ld64 (k_mem s) x, k_mem := memset (k_mem s) x 5 4096\<rparr>))"
proof -
  have "kmem_inv (charge s 1) xs"
    using assms(3) by (simp add: kmem_inv_def page_ok_def)
  then show ?thesis
    using kalloc_take_apply [of "charge s 1" xs] assms
    by (cases xs) (simp_all add: kalloc_def kalloc_charge_ok run_simps off_lock_charge alloc_ready_def)
qed

lemma kfree_apply:
  assumes "alloc_ready s" and "page_ok s pa"
  shows "kfree pa s = Ok () ((charge s (- 1))\<lparr>k_mem := st64 (memset (k_mem s) pa 1 4096) pa (k_freelist s),
    k_freelist := pa\<rparr>)"
proof -
  let ?u = "(charge s (- 1))\<lparr>k_mem := memset (k_mem s) pa 1 4096\<rparr>"
  have "bind mycont (\<lambda>cp. seq (if cp \<noteq> Minus1
          then bind (deref cp) (\<lambda>c. modify (upd_cont c (\<lambda>ct. ct\<lparr>ct_memused := ct_memused ct - 1\<rparr>)))
          else return ()) m) s = m (charge s (- 1))" for m :: "unit k"
  proof (cases "k_started s")
    case False
    then show ?thesis by (simp add: run_simps charge_def)
  next
    case True
    then obtain p c where "c_proc (k_cpus s (k_hart s)) = Some p" "p_container (k_procs s p) = Some c" "calm s"
      using assms(1) by (auto simp: alloc_ready_def)
    then show ?thesis
      using True mycont_running [of s p] by (simp add: run_simps charge_def running_def)
  qed
  moreover have "calm ?u" and "lock_free KmemLock ?u"
    using assms(1) by (simp_all add: alloc_ready_def calm_def lock_free_def)
  ultimately show ?thesis
    using assms(2) release_after [of ?u KmemLock "\<lambda>s. s\<lparr>k_mem := st64 (k_mem s) pa (k_freelist s), k_freelist := pa\<rparr>"]
    by (simp add: kfree_def run_simps page_ok_def page_aligned_def acquire_calm off_lock_def not_less not_le)
qed

section \<open>The container's memory quota\<close>

definition quota_ok :: "nat \<Rightarrow> kstate \<Rightarrow> bool" where
  "quota_ok c s \<longleftrightarrow> c \<noteq> 0 \<longrightarrow> ct_memused (k_conts s c) \<le> ct_memlimit (k_conts s c)"

lemma keeps_conts_printf: "keeps k_conts (printf fmt ap)"
  by (intro keeps_intro lock_blindI) simp_all

lemma charge_cont_quota: "quota_ok c s \<Longrightarrow> wlp (kalloc_charge_cont cp) (\<lambda>_. quota_ok c) s"
  by (cases cp)
    (auto simp: kalloc_charge_cont_def isroot_def quota_ok_def upd_cont_def
      intro!: wlp_keeps [OF keeps_conts_printf])

lemma kalloc_quota: "quota_ok c s \<Longrightarrow> wlp kalloc (\<lambda>_. quota_ok c) s"
proof -
  assume quota: "quota_ok c s"
  have charged: "wlp kalloc_charge (\<lambda>_. quota_ok c) s"
    unfolding kalloc_charge_def wlp_bind
  proof (rule wlp_keeps [where f = k_conts])
    show "keeps k_conts myproc"
      by (intro keeps_intro lock_blindI) simp_all
    fix pp and t :: kstate
    assume "k_conts t = k_conts s"
    then have "quota_ok c t"
      using quota by (simp add: quota_ok_def)
    then show "wlp (if pp = Minus1 then return True
        else bind (deref pp) (\<lambda>p. bind (gets (\<lambda>s. p_container (k_procs s p))) kalloc_charge_cont))
      (\<lambda>_. quota_ok c) t"
      by (cases pp) (simp_all add: charge_cont_quota)
  qed
  have "keeps k_conts kalloc_take"
    unfolding kalloc_take_def by (intro keeps_intro keepsI_modify lock_blindI) simp_all
  then have "wlp kalloc_take (\<lambda>_. quota_ok c) t" if "quota_ok c t" for t
    by (rule wlp_keeps) (use that in \<open>simp add: quota_ok_def\<close>)
  then show ?thesis
    unfolding kalloc_def wlp_bind using charged by (elim wlp_mono) simp
qed

section \<open>Freeing a range\<close>

lemma kfree_boot:
  assumes "\<not> k_started s" and "alloc_ready s" and "kmem_inv s xs" and "page_ok s x" and "x \<notin> set xs"
  shows "\<exists>t. kfree x s = Ok () t \<and> \<not> k_started t \<and> alloc_ready t \<and> kmem_inv t (x # xs) \<and>
    k_syms t = k_syms s"
proof -
  have "charge s (- 1) = s"
    using assms(1) by (simp add: charge_def)
  then show ?thesis
    using kfree_apply [OF assms(2,4)] kmem_inv_put [OF assms(3,4,5)] assms(1,2)
    by (simp add: alloc_ready_def calm_def lock_free_def)
qed

text \<open>The pages of a range, from the last to the first.\<close>

definition pages_from :: "u64 \<Rightarrow> nat \<Rightarrow> u64 list" where
  "pages_from p n = rev (map (\<lambda>i. p + of_nat i * PGSIZE) [0..<n])"

lemma pages_from_Suc: "pages_from p (Suc n) = pages_from (p + PGSIZE) n @ [p]"
  unfolding pages_from_def upt_conv_Cons [OF zero_less_Suc]
  by (simp add: map_Suc_upt [symmetric] comp_def algebra_simps del: upt_Suc)

lemma freerange_loop:
  assumes "\<not> k_started s" and "alloc_ready s" and "kmem_inv s xs"
    and "unat p + n * 4096 \<le> unat pa_end" and "unat pa_end < unat p + (n + 1) * 4096"
    and "unat pa_end + 4096 < 2 ^ 64"
    and "\<And>i. i < n \<Longrightarrow> page_ok s (p + of_nat i * PGSIZE) \<and> p + of_nat i * PGSIZE \<notin> set xs"
    and "n < fuel"
  shows "\<exists>t. loop fuel (\<lambda>p. if p + PGSIZE \<le> pa_end then seq (kfree p) (return (Inl (p + PGSIZE)))
      else return (Inr ())) p s = Ok () t \<and> alloc_ready t \<and> kmem_inv t (pages_from p n @ xs)"
  using assms
proof (induction n arbitrary: s p xs fuel)
  case 0
  have "unat (p + PGSIZE) = unat p + 4096"
    using 0 by (simp add: unat_word_ariths)
  then have "\<not> p + PGSIZE \<le> pa_end"
    using 0 by (simp add: word_le_nat_alt)
  then show ?case
    using 0 by (simp add: loop_unfold run_simps pages_from_def)
next
  case (Suc n)
  have next_p: "unat (p + PGSIZE) = unat p + 4096"
    using Suc.prems by (simp add: unat_word_ariths)
  then have more: "p + PGSIZE \<le> pa_end"
    using Suc.prems by (simp add: word_le_nat_alt)
  obtain t where t: "kfree p s = Ok () t" "\<not> k_started t" "alloc_ready t" "kmem_inv t (p # xs)" "k_syms t = k_syms s"
    using kfree_boot [OF Suc.prems(1-3), of p] Suc.prems(7) [of 0] by auto
  have "\<exists>u. loop (fuel - 1) (\<lambda>p. if p + PGSIZE \<le> pa_end then seq (kfree p) (return (Inl (p + PGSIZE)))
      else return (Inr ())) (p + PGSIZE) t = Ok () u \<and> alloc_ready u \<and>
      kmem_inv u (pages_from (p + PGSIZE) n @ p # xs)"
  proof (rule Suc.IH [OF t(2-4)])
    fix i assume "i < n"
    have shift: "p + PGSIZE + of_nat i * PGSIZE = p + of_nat (Suc i) * PGSIZE"
      by (simp add: algebra_simps)
    have "of_nat (Suc i) * PGSIZE \<noteq> 0"
    proof -
      have "Suc i * 4096 < 2 ^ 64"
        using Suc.prems(4,6) \<open>i < n\<close> by simp
      then have "unat (of_nat (Suc i) * PGSIZE) = Suc i * 4096"
        by (simp add: unat_word_ariths unat_of_nat del: of_nat_Suc)
      then show ?thesis by auto
    qed
    then show "page_ok t (p + PGSIZE + of_nat i * PGSIZE) \<and> p + PGSIZE + of_nat i * PGSIZE \<notin> set (p # xs)"
      unfolding shift using Suc.prems(7) [of "Suc i"] \<open>i < n\<close> t(5)
      by (auto simp: page_ok_def simp del: of_nat_Suc)
  qed (use Suc.prems next_p in auto)
  then show ?case
    using more t(1) Suc.prems(8) by (simp add: loop_unfold run_simps pages_from_Suc)
qed

section \<open>The allocator's contract\<close>

text \<open>
  What the allocator promises to its clients: \<open>pages\<close> is the set of free pages, \<open>usable\<close> the set
  of all pages it manages. An allocation takes a page out of the free set, or returns 0 when
  the set is empty; freeing puts the page back.
\<close>

locale page_allocator =
  fixes alloc :: "('s, u64) kernel" and free :: "u64 \<Rightarrow> ('s, unit) kernel"
    and ready :: "'s \<Rightarrow> bool" and pages :: "'s \<Rightarrow> u64 set" and usable :: "'s \<Rightarrow> u64 set"
  assumes pages_usable: "ready s \<Longrightarrow> pages s \<subseteq> usable s"
    and null_unusable: "ready s \<Longrightarrow> 0 \<notin> usable s"
    and alloc_page: "ready s \<Longrightarrow> pages s \<noteq> {} \<Longrightarrow>
      \<exists>x t. alloc s = Ok x t \<and> x \<in> pages s \<and> pages t = pages s - {x} \<and> usable t = usable s \<and> ready t"
    and alloc_empty: "ready s \<Longrightarrow> pages s = {} \<Longrightarrow>
      \<exists>t. alloc s = Ok 0 t \<and> pages t = {} \<and> usable t = usable s \<and> ready t"
    and free_page: "ready s \<Longrightarrow> x \<in> usable s - pages s \<Longrightarrow>
      \<exists>t. free x s = Ok () t \<and> pages t = insert x (pages s) \<and> usable t = usable s \<and> ready t"
begin

lemma alloc_returns: "ready s \<Longrightarrow> \<exists>x t. alloc s = Ok x t \<and> (x \<noteq> 0 \<longleftrightarrow> pages s \<noteq> {}) \<and> ready t"
  using alloc_page [of s] alloc_empty [of s] pages_usable [of s] null_unusable [of s] by blast

lemma alloc_free:
  assumes "ready s" and "pages s \<noteq> {}"
  shows "\<exists>t. bind alloc free s = Ok () t \<and> pages t = pages s \<and> ready t"
proof -
  obtain x t where t: "alloc s = Ok x t" "x \<in> pages s" "pages t = pages s - {x}" "usable t = usable s" "ready t"
    using alloc_page [OF assms] by blast
  then have "x \<in> usable t - pages t"
    using pages_usable [OF assms(1)] by auto
  then obtain u where "free x t = Ok () u" "pages u = insert x (pages t)" "ready u"
    using free_page [OF t(5)] by blast
  then show ?thesis
    using t by (auto simp: bind_Ok)
qed

lemma alloc_twice:
  assumes "ready s" and "alloc s = Ok x t" and "alloc t = Ok y u" and "x \<noteq> 0" and "y \<noteq> 0"
  shows "x \<noteq> y \<and> {x, y} \<subseteq> pages s \<and> pages u = pages s - {x, y}"
proof -
  have "pages s \<noteq> {}"
    using alloc_empty [OF assms(1)] assms(2,4) by auto
  then have x: "x \<in> pages s" "pages t = pages s - {x}" "ready t"
    using alloc_page [OF assms(1)] assms(2) by auto
  then have "pages t \<noteq> {}"
    using alloc_empty [of t] assms(3,5) by auto
  then have "y \<in> pages t" "pages u = pages t - {y}"
    using alloc_page [OF x(3)] assms(3) by auto
  then show ?thesis
    using x by auto
qed

end

text \<open>
  The laws hold of \<open>kalloc\<close> and \<open>kfree\<close> while allocation is not metered: before the first
  process runs, and for processes of the root container.
\<close>

definition free_pages :: "kstate \<Rightarrow> u64 set" where
  "free_pages s = {x. \<exists>xs. free_chain (k_mem s) (k_freelist s) xs \<and> x \<in> set xs}"

definition kalloc_ready :: "kstate \<Rightarrow> bool" where
  "kalloc_ready s \<longleftrightarrow> alloc_ready s \<and> (\<exists>xs. kmem_inv s xs) \<and>
     (k_started s \<longrightarrow> (\<exists>p. running p s \<and> p_container (k_procs s p) = Some 0))"

lemma free_pages_eq: "kmem_inv s xs \<Longrightarrow> free_pages s = set xs"
  unfolding kmem_inv_def free_pages_def by (auto dest: free_chain_unique)

lemma kalloc_ready_limit: "kalloc_ready s \<Longrightarrow> under_limit s"
  by (auto simp: kalloc_ready_def under_limit_def running_def)

lemma kalloc_ready_step:
  "kalloc_ready s \<Longrightarrow> kmem_inv ((charge s d)\<lparr>k_mem := m, k_freelist := r\<rparr>) xs \<Longrightarrow>
     kalloc_ready ((charge s d)\<lparr>k_mem := m, k_freelist := r\<rparr>)"
  by (auto simp: kalloc_ready_def alloc_ready_def running_def calm_def lock_free_def)

lemma kmem_inv_charge [simp]: "kmem_inv (charge s d) xs = kmem_inv s xs"
  by (simp add: kmem_inv_def page_ok_def)

interpretation kmem: page_allocator kalloc kfree kalloc_ready free_pages "\<lambda>s. {x. page_ok s x}"
proof
  fix s
  assume ready: "kalloc_ready s"
  then obtain xs where xs: "kmem_inv s xs" and alloc: "alloc_ready s"
    by (auto simp: kalloc_ready_def)
  show "free_pages s \<subseteq> {x. page_ok s x}"
    using xs by (auto simp: free_pages_eq kmem_inv_def)
  show "0 \<notin> {x. page_ok s x}"
    using xs by (auto simp: kmem_inv_def page_ok_def)
  note kalloc = kalloc_apply [OF alloc kalloc_ready_limit [OF ready] xs]
  {
    assume "free_pages s \<noteq> {}"
    then obtain x ys where Cons: "xs = x # ys"
      using free_pages_eq [OF xs] by (cases xs) auto
    let ?t = "(charge s 1)\<lparr>k_mem := memset (k_mem s) x 5 4096, k_freelist := ld64 (k_mem s) x\<rparr>"
    have inv: "kmem_inv ?t ys"
      using kmem_inv_take [of "charge s 1" x ys 5] xs Cons by (simp add: kmem_inv_def page_ok_def)
    have "kalloc s = Ok x ?t"
      using kalloc Cons by simp
    moreover have "free_pages ?t = free_pages s - {x}"
      using free_pages_eq [OF inv] free_pages_eq [OF xs] xs Cons by (auto simp: kmem_inv_def)
    moreover have "kalloc_ready ?t"
      using ready inv by (rule kalloc_ready_step)
    ultimately show "\<exists>x t. kalloc s = Ok x t \<and> x \<in> free_pages s \<and> free_pages t = free_pages s - {x} \<and>
        {x. page_ok t x} = {x. page_ok s x} \<and> kalloc_ready t"
      using free_pages_eq [OF xs] Cons by (intro exI conjI) (assumption | simp add: page_ok_def)+
  }
  {
    assume "free_pages s = {}"
    then have "xs = []"
      using free_pages_eq [OF xs] by simp
    moreover have "kalloc_ready (charge s 1)"
      using ready by (auto simp: kalloc_ready_def alloc_ready_def running_def calm_def lock_free_def)
    ultimately show "\<exists>t. kalloc s = Ok 0 t \<and> free_pages t = {} \<and>
        {x. page_ok t x} = {x. page_ok s x} \<and> kalloc_ready t"
      using kalloc \<open>free_pages s = {}\<close>
      by (intro exI [of _ "charge s 1"]) (simp add: page_ok_def free_pages_def)
  }
  fix x
  assume "x \<in> {x. page_ok s x} - free_pages s"
  then have x: "page_ok s x" "x \<notin> set xs"
    using free_pages_eq [OF xs] by auto
  let ?t = "(charge s (- 1))\<lparr>k_mem := st64 (memset (k_mem s) x 1 4096) x (k_freelist s), k_freelist := x\<rparr>"
  have inv: "kmem_inv ?t (x # xs)"
    using kmem_inv_put [of "charge s (- 1)" xs x 1] xs x by (simp add: page_ok_def)
  then show "\<exists>t. kfree x s = Ok () t \<and> free_pages t = insert x (free_pages s) \<and>
      {x. page_ok t x} = {x. page_ok s x} \<and> kalloc_ready t"
    using kfree_apply [OF alloc x(1)] free_pages_eq [OF inv] free_pages_eq [OF xs]
      kalloc_ready_step [OF ready inv]
    by (intro exI [of _ ?t]) (simp add: page_ok_def)
qed

section \<open>Properties\<close>

text \<open>C3. For a process of the root container (and at boot) \<open>kalloc\<close> takes one page out of the set
  of free pages and returns it, a page-aligned address inside the managed range, or returns 0
  when that set is empty; two allocations in a row never return the same page. The free
  list stays well formed.\<close>

theorem kalloc_distinct_pages:
  assumes "kalloc_ready s" and "kalloc s = Ok x t" and "kalloc t = Ok y u" and "x \<noteq> 0" and "y \<noteq> 0"
  shows "x \<noteq> y \<and> page_ok s x \<and> page_ok s y \<and> {x, y} \<subseteq> free_pages s \<and>
    free_pages u = free_pages s - {x, y}"
  using kmem.alloc_twice [OF assms] kmem.pages_usable [OF assms(1)] by auto

definition demo_heap :: kstate where
  "demo_heap = zero_state\<lparr>k_freelist := 0x80030000,
     k_mem := st64 (st64 (\<lambda>_. 0) 0x80030000 0x80031000) 0x80031000 0\<rparr>"

lemma demo_heap_inv: "kmem_inv demo_heap [0x80030000, 0x80031000]"
proof -
  have "ld64 (st64 (st64 (\<lambda>_. 0) 0x80030000 0x80031000) 0x80031000 0) 0x80030000 = 0x80031000"
    by (subst ld64_st64_other) simp_all
  then show ?thesis
    by (simp add: demo_heap_def kmem_inv_def page_ok_def page_aligned_def zero_state_def)
qed

lemma demo_heap_ready: "kalloc_ready demo_heap"
  using demo_heap_inv
  by (auto simp: kalloc_ready_def alloc_ready_def calm_def lock_free_def demo_heap_def zero_state_def)

theorem kalloc_distinct_pages_witness:
  "\<exists>x y t u. kalloc demo_heap = Ok x t \<and> kalloc t = Ok y u \<and> x \<noteq> y \<and> free_pages u = {}"
proof -
  have two: "free_pages demo_heap = {0x80030000, 0x80031000}"
    using free_pages_eq [OF demo_heap_inv] by simp
  then have "free_pages demo_heap \<noteq> {}"
    by simp
  then obtain x t where t: "kalloc demo_heap = Ok x t" "x \<in> free_pages demo_heap"
      "free_pages t = free_pages demo_heap - {x}" "kalloc_ready t"
    using kmem.alloc_page [OF demo_heap_ready] by blast
  have "{0x80030000, 0x80031000} - {x} \<noteq> {}"
    by (cases "x = 0x80030000") auto
  then have "free_pages t \<noteq> {}"
    unfolding t(3) two .
  then obtain y u where u: "kalloc t = Ok y u" "y \<in> free_pages t" "free_pages u = free_pages t - {y}"
    using kmem.alloc_page [OF t(4)] by blast
  have "x \<noteq> 0" and "y \<noteq> 0"
    using t(2) u(2) unfolding t(3) two by auto
  then have "x \<noteq> y \<and> free_pages u = free_pages demo_heap - {x, y}"
    using kalloc_distinct_pages [OF demo_heap_ready t(1) u(1)] by blast
  moreover have "free_pages demo_heap - {x, y} = {}"
    using t(2) u(2) unfolding t(3) two by auto
  ultimately show ?thesis
    using t(1) u(1) by auto
qed

text \<open>C4. No allocation takes a container other than root beyond its memory limit: if the pages
  charged to it are within the limit before \<open>kalloc\<close>, they are afterwards, whichever
  process allocates and whether or not the allocation succeeds.\<close>

theorem kalloc_respects_limit:
  assumes "c \<noteq> 0" and "ct_memused (k_conts s c) \<le> ct_memlimit (k_conts s c)"
    and "kalloc s = Ok pa t"
  shows "ct_memused (k_conts t c) \<le> ct_memlimit (k_conts t c)"
  using wlpD [of kalloc "\<lambda>_. quota_ok c" s pa t] kalloc_quota [of c s] assms by (simp add: quota_ok_def)

definition demo_limited :: kstate where
  "demo_limited = demo_heap\<lparr>k_started := True,
     k_cpus := (\<lambda>_. \<lparr>c_proc = Some 2, c_noff = 0, c_intena = True, c_intr = True\<rparr>),
     k_procs := (\<lambda>_. zero_proc\<lparr>p_container := Some 1\<rparr>),
     k_conts := (\<lambda>_. zero_cont\<lparr>ct_memused := 4, ct_memlimit := 5\<rparr>)\<rparr>"

lemma demo_limited_kalloc: "\<exists>t. kalloc demo_limited = Ok 0x80030000 t \<and> ct_memused (k_conts t 1) = 5"
proof -
  have "alloc_ready demo_limited" and "under_limit demo_limited"
    by (simp_all add: alloc_ready_def under_limit_def calm_def lock_free_def demo_limited_def demo_heap_def zero_state_def)
  moreover have "kmem_inv demo_limited [0x80030000, 0x80031000]"
    using demo_heap_inv by (simp add: kmem_inv_def page_ok_def demo_limited_def)
  ultimately show ?thesis
    using kalloc_apply [of demo_limited] by (simp add: charge_def demo_limited_def upd_cont_def)
qed

theorem kalloc_respects_limit_witness:
  "\<exists>t. kalloc demo_limited = Ok 0x80030000 t \<and> ct_memused (k_conts t 1) \<le> ct_memlimit (k_conts t 1)"
proof -
  obtain t where t: "kalloc demo_limited = Ok 0x80030000 t"
    using demo_limited_kalloc by blast
  have "ct_memused (k_conts demo_limited 1) \<le> ct_memlimit (k_conts demo_limited 1)"
    by (simp add: demo_limited_def)
  then show ?thesis
    using kalloc_respects_limit [of 1 demo_limited, OF _ _ t] t by auto
qed

text \<open>C5. \<open>kinit\<close> puts every whole page between the end of the kernel and the top of memory on the
  free list, each exactly once, and none else; the sweep over the range comes to an end.\<close>

theorem kinit_frees_all:
  assumes "\<not> k_started s" and "calm s" and "k_freelist s = 0"
    and "0 < sym_end (k_syms s)" and "sym_end (k_syms s) \<le> PHYSTOP"
  shows "\<exists>t. kinit s = Ok () t \<and>
    kmem_inv t (pages_from (PGROUNDUP (sym_end (k_syms s)))
      ((unat PHYSTOP - unat (PGROUNDUP (sym_end (k_syms s)))) div 4096))"
proof -
  let ?e = "sym_end (k_syms s)"
  let ?p = "PGROUNDUP ?e"
  define n where "n = (unat PHYSTOP - unat ?p) div 4096"
  define s' where "s' = upd_lock KmemLock (\<lambda>_. \<lparr>lk_locked = False, lk_name = ''kmem'', lk_cpu = None\<rparr>) s"
  have e: "unat ?e \<le> 0x88000000"
    using assms(5) by (simp add: word_le_nat_alt)
  have "unat (?e + 4095) = unat ?e + 4095"
    using e by (simp add: unat_word_ariths)
  then have p: "unat ?p = (unat ?e + 4095) div 4096 * 4096"
    by (simp add: PGROUNDUP_eq unat_PGROUNDDOWN)
  have range: "unat ?e \<le> unat ?p" "unat ?p \<le> 0x88000000"
    using e div_le_mono [of "unat ?e + 4095" "0x88000000 + 4095" 4096] unfolding p
    by (linarith, simp)
  have ready: "alloc_ready s'" "\<not> k_started s'" "kmem_inv s' []"
    using assms by (simp_all add: s'_def alloc_ready_def calm_def lock_free_def upd_lock_def kmem_inv_def)
  have addr: "unat (?p + of_nat i * PGSIZE) = unat ?p + i * 4096" if "i < n" for i
    using that range unfolding n_def by (simp add: unat_word_ariths unat_of_nat)
  have ok: "page_ok s' (?p + of_nat i * PGSIZE)" if "i < n" for i
    using addr [OF that] that range
    by (simp add: page_ok_def page_aligned_dvd word_le_nat_alt word_less_nat_alt s'_def upd_lock_def n_def p)
  have "\<exists>t. freerange ?e PHYSTOP s' = Ok () t \<and> alloc_ready t \<and> kmem_inv t (pages_from ?p n @ [])"
    unfolding freerange_def
    by (rule freerange_loop [OF ready(2,1,3)]) (use range ok in \<open>auto simp: n_def\<close>)
  moreover have "kinit s = freerange ?e PHYSTOP s'"
    by (simp add: kinit_def initlock_def run_simps s'_def upd_lock_def)
  ultimately show ?thesis
    unfolding n_def by auto
qed

theorem kinit_frees_all_witness:
  "\<exists>t. kinit zero_state = Ok () t \<and> 0x87FFF000 \<in> free_pages t"
proof -
  have p: "PGROUNDUP (sym_end (k_syms zero_state)) = 0x80030000"
    by (simp add: zero_state_def PGROUNDUP_def)
  have "\<not> k_started zero_state" "calm zero_state" "k_freelist zero_state = 0"
    "0 < sym_end (k_syms zero_state)" "sym_end (k_syms zero_state) \<le> PHYSTOP"
    by (simp_all add: zero_state_def calm_def)
  then obtain t where "kinit zero_state = Ok () t"
      and inv: "kmem_inv t (pages_from 0x80030000 ((unat PHYSTOP - unat (0x80030000 :: u64)) div 4096))"
    using kinit_frees_all [of zero_state] unfolding p by blast
  moreover have "0x87FFF000 \<in> set (pages_from 0x80030000 ((unat PHYSTOP - unat (0x80030000 :: u64)) div 4096))"
    unfolding pages_from_def by (simp, rule image_eqI [of _ _ "32719"]) simp_all
  ultimately show ?thesis
    using free_pages_eq [OF inv] by auto
qed

end
