(* ===== verification/Xv6_Vm.thy ===== *)
theory Xv6_Vm
  imports Xv6_Kalloc
begin

text \<open>
  \<open>kernel/vm.c\<close>: Sv39 page tables in physical memory, user address spaces, and copying between
  kernel and user memory. A page table is the address of its root page; an entry is the 64-bit
  word at its address. \<open>walk_pure\<close> and \<open>uva\<close> are the translation a page table describes; the
  copying routines are shown to follow it byte by byte, for any user address.
\<close>

section \<open>Page-table entries\<close>

abbreviation PTE_V :: u64 where "PTE_V \<equiv> 1"
abbreviation PTE_R :: u64 where "PTE_R \<equiv> 2"
abbreviation PTE_W :: u64 where "PTE_W \<equiv> 4"
abbreviation PTE_X :: u64 where "PTE_X \<equiv> 8"
abbreviation PTE_U :: u64 where "PTE_U \<equiv> 16"

definition PA2PTE :: "u64 \<Rightarrow> u64" where
  "PA2PTE pa = push_bit 10 (drop_bit 12 pa)"

definition PTE2PA :: "u64 \<Rightarrow> u64" where
  "PTE2PA pte = push_bit 12 (drop_bit 10 pte)"

definition PTE_FLAGS :: "u64 \<Rightarrow> u64" where
  "PTE_FLAGS pte = pte AND 0x3FF"

definition PX :: "nat \<Rightarrow> u64 \<Rightarrow> u64" where
  "PX level va = drop_bit (12 + 9 * level) va AND 0x1FF"

definition KSTACK :: "nat \<Rightarrow> u64" where
  "KSTACK p = TRAMPOLINE - of_nat (p + 1) * 2 * PGSIZE"

section \<open>Walking\<close>

text \<open>
  One step of \<open>walk\<close> down to the next level: \<open>None\<close> is the early \<open>return 0\<close>.
\<close>

definition walk_level :: "u64 \<Rightarrow> u64 \<Rightarrow> bool \<Rightarrow> nat \<Rightarrow> u64 option k" where
  "walk_level pagetable va alloc level =
     (let pte = pagetable + 8 * PX level va in
      bind (gets (\<lambda>s. ld64 (k_mem s) pte)) (\<lambda>v.
      if v AND PTE_V \<noteq> 0 then return (Some (PTE2PA v))
      else if \<not> alloc then return None
      else
        bind kalloc (\<lambda>pg.
        if pg = 0 then return None
        else
          seq (modify (\<lambda>s. s\<lparr>k_mem := memset (k_mem s) pg 0 4096\<rparr>)) (
          seq (modify (\<lambda>s. s\<lparr>k_mem := st64 (k_mem s) pte (PA2PTE pg OR PTE_V)\<rparr>))
          (return (Some pg))))))"

definition walk :: "u64 \<Rightarrow> u64 \<Rightarrow> bool \<Rightarrow> u64 k" where
  "walk pagetable va alloc =
     (if va \<ge> MAXVA then panic ''walk''
      else
        bind (walk_level pagetable va alloc 2) (\<lambda>r.
        case r of None \<Rightarrow> return 0
        | Some pt1 \<Rightarrow>
            bind (walk_level pt1 va alloc 1) (\<lambda>r.
            case r of None \<Rightarrow> return 0
            | Some pt0 \<Rightarrow> return (pt0 + 8 * PX 0 va))))"

definition walkaddr :: "u64 \<Rightarrow> u64 \<Rightarrow> u64 k" where
  "walkaddr pagetable va =
     (if va \<ge> MAXVA then return 0
      else
        bind (walk pagetable va False) (\<lambda>pte.
        if pte = 0 then return 0
        else
          bind (gets (\<lambda>s. ld64 (k_mem s) pte)) (\<lambda>v.
          if v AND PTE_V = 0 then return 0
          else if v AND PTE_U = 0 then return 0
          else return (PTE2PA v))))"

definition kvmpa :: "u64 \<Rightarrow> u64 k" where
  "kvmpa va =
     (let off = va mod PGSIZE in
      bind (gets k_kpgtbl) (\<lambda>kpt.
      bind (walk kpt va False) (\<lambda>pte.
      if pte = 0 then panic ''kvmpa''
      else
        bind (gets (\<lambda>s. ld64 (k_mem s) pte)) (\<lambda>v.
        if v AND PTE_V = 0 then panic ''kvmpa''
        else return (PTE2PA v + off)))))"

section \<open>Mapping and unmapping\<close>

text \<open>
  The loops run from \<open>a\<close> to \<open>last\<close>, both page aligned, so they make as many steps as there are
  pages between them, modulo the size of the address space.
\<close>

definition map_page :: "u64 \<Rightarrow> u64 \<Rightarrow> u64 \<Rightarrow> u64 \<Rightarrow> int k" where
  "map_page pagetable a pa perm =
     bind (walk pagetable a True) (\<lambda>pte.
     if pte = 0 then return (- 1)
     else
       bind (gets (\<lambda>s. ld64 (k_mem s) pte)) (\<lambda>v.
       if v AND PTE_V \<noteq> 0 then panic ''remap''
       else
         seq (modify (\<lambda>s. s\<lparr>k_mem := st64 (k_mem s) pte (PA2PTE pa OR perm OR PTE_V)\<rparr>))
         (return 0)))"

primrec mappages_loop :: "u64 \<Rightarrow> u64 \<Rightarrow> nat \<Rightarrow> u64 \<Rightarrow> u64 \<Rightarrow> int k" where
  "mappages_loop pagetable perm 0 a pa = map_page pagetable a pa perm"
| "mappages_loop pagetable perm (Suc n) a pa =
     bind (map_page pagetable a pa perm) (\<lambda>r.
     if r \<noteq> 0 then return r else mappages_loop pagetable perm n (a + PGSIZE) (pa + PGSIZE))"

definition mappages :: "u64 \<Rightarrow> u64 \<Rightarrow> u64 \<Rightarrow> u64 \<Rightarrow> u64 \<Rightarrow> int k" where
  "mappages pagetable va sz pa perm =
     (let a = PGROUNDDOWN va; last = PGROUNDDOWN (va + sz - 1)
      in mappages_loop pagetable perm (unat (last - a) div 4096) a pa)"

definition kvmmap :: "u64 \<Rightarrow> u64 \<Rightarrow> u64 \<Rightarrow> u64 \<Rightarrow> unit k" where
  "kvmmap va pa sz perm =
     bind (gets k_kpgtbl) (\<lambda>kpt.
     bind (mappages kpt va sz pa perm) (\<lambda>r.
     if r \<noteq> 0 then panic ''kvmmap'' else return ()))"

definition unmap_page :: "u64 \<Rightarrow> u64 \<Rightarrow> bool \<Rightarrow> unit k" where
  "unmap_page pagetable a do_free =
     bind (walk pagetable a False) (\<lambda>pte.
     if pte = 0 then panic ''uvmunmap: walk''
     else
       bind (gets (\<lambda>s. ld64 (k_mem s) pte)) (\<lambda>v.
       if v AND PTE_V = 0 then
         seq (printf (Some (''va=%p pte=%p'' @ [CHR 0x0A])) [VLong a, VLong v])
           (panic ''uvmunmap: not mapped'')
       else if PTE_FLAGS v = PTE_V then panic ''uvmunmap: not a leaf''
       else
         seq (do_when do_free (kfree (PTE2PA v)))
         (modify (\<lambda>s. s\<lparr>k_mem := st64 (k_mem s) pte 0\<rparr>))))"

primrec uvmunmap_loop :: "u64 \<Rightarrow> bool \<Rightarrow> nat \<Rightarrow> u64 \<Rightarrow> unit k" where
  "uvmunmap_loop pagetable do_free 0 a = unmap_page pagetable a do_free"
| "uvmunmap_loop pagetable do_free (Suc n) a =
     seq (unmap_page pagetable a do_free) (uvmunmap_loop pagetable do_free n (a + PGSIZE))"

definition uvmunmap :: "u64 \<Rightarrow> u64 \<Rightarrow> u64 \<Rightarrow> bool \<Rightarrow> unit k" where
  "uvmunmap pagetable va sz do_free =
     (let a = PGROUNDDOWN va; last = PGROUNDDOWN (va + sz - 1)
      in uvmunmap_loop pagetable do_free (unat (last - a) div 4096) a)"

section \<open>The kernel's page table\<close>

definition kvminit :: "unit k" where
  "kvminit =
     bind kalloc (\<lambda>pt.
     seq (modify (\<lambda>s. s\<lparr>k_kpgtbl := pt\<rparr>)) (
     seq (modify (\<lambda>s. s\<lparr>k_mem := memset (k_mem s) pt 0 4096\<rparr>)) (
     bind (gets k_syms) (\<lambda>sym.
     block [
       kvmmap 0x10000000 0x10000000 PGSIZE (PTE_R OR PTE_W),
       kvmmap 0x10001000 0x10001000 PGSIZE (PTE_R OR PTE_W),
       kvmmap 0x2000000 0x2000000 0x10000 (PTE_R OR PTE_W),
       kvmmap 0x0c000000 0x0c000000 0x400000 (PTE_R OR PTE_W),
       kvmmap KERNBASE KERNBASE (sym_etext sym - KERNBASE) (PTE_R OR PTE_X),
       kvmmap (sym_etext sym) (sym_etext sym) (PHYSTOP - sym_etext sym) (PTE_R OR PTE_W),
       kvmmap TRAMPOLINE (sym_trampoline sym) PGSIZE (PTE_R OR PTE_X)]))))"

section \<open>User address spaces\<close>

definition uvmcreate :: "u64 k" where
  "uvmcreate =
     bind kalloc (\<lambda>pagetable.
     if pagetable = 0 then panic ''uvmcreate: out of memory''
     else
       seq (modify (\<lambda>s. s\<lparr>k_mem := memset (k_mem s) pagetable 0 4096\<rparr>)) (return pagetable))"

definition uvminit :: "u64 \<Rightarrow> bytes \<Rightarrow> nat \<Rightarrow> unit k" where
  "uvminit pagetable src sz =
     (if sz \<ge> 4096 then panic ''inituvm: more than a page''
      else
        bind kalloc (\<lambda>mem.
        seq (modify (\<lambda>s. s\<lparr>k_mem := memset (k_mem s) mem 0 4096\<rparr>)) (
        bind (mappages pagetable 0 PGSIZE mem (PTE_W OR PTE_R OR PTE_X OR PTE_U)) (\<lambda>_.
        modify (\<lambda>s. s\<lparr>k_mem := mem_write (k_mem s) mem sz src\<rparr>)))))"

definition uvmdealloc :: "u64 \<Rightarrow> u64 \<Rightarrow> u64 \<Rightarrow> u64 k" where
  "uvmdealloc pagetable oldsz newsz =
     (if newsz \<ge> oldsz then return oldsz
      else
        let newup = PGROUNDUP newsz in
        seq (do_when (newup < PGROUNDUP oldsz) (uvmunmap pagetable newup (oldsz - newup) True))
        (return newsz))"

text \<open>At most \<open>2 ^ 52\<close> pages fit below any size, so the fuel is never used up.\<close>

definition uvmalloc :: "u64 \<Rightarrow> u64 \<Rightarrow> u64 \<Rightarrow> u64 k" where
  "uvmalloc pagetable oldsz newsz =
     (if newsz < oldsz then return oldsz
      else
        let base = PGROUNDUP oldsz in
        loop (2 ^ 52 + 1) (\<lambda>a.
          if a < newsz then
            bind kalloc (\<lambda>mem.
            if mem = 0 then seq (uvmdealloc pagetable a base) (return (Inr 0))
            else
              seq (modify (\<lambda>s. s\<lparr>k_mem := memset (k_mem s) mem 0 4096\<rparr>)) (
              bind (mappages pagetable a PGSIZE mem (PTE_W OR PTE_X OR PTE_R OR PTE_U)) (\<lambda>r.
              if r \<noteq> 0 then
                seq (kfree mem) (seq (uvmdealloc pagetable a base) (return (Inr 0)))
              else return (Inl (a + PGSIZE)))))
          else return (Inr newsz)) base)"

text \<open>
  \<open>freewalk\<close> descends through page-table pages; a chain of distinct pages has at most
  \<open>2 ^ 52\<close> of them.
\<close>

fun freewalk :: "nat \<Rightarrow> u64 \<Rightarrow> unit k" where
  "freewalk fuel pagetable =
     (if fuel = 0 then spin
      else
        seq (for_each [0..<512] (\<lambda>i.
          let slot = pagetable + 8 * of_nat i in
          bind (gets (\<lambda>s. ld64 (k_mem s) slot)) (\<lambda>pte.
          if pte AND PTE_V \<noteq> 0 \<and> pte AND (PTE_R OR PTE_W OR PTE_X) = 0 then
            seq (freewalk (fuel - 1) (PTE2PA pte))
            (modify (\<lambda>s. s\<lparr>k_mem := st64 (k_mem s) slot 0\<rparr>))
          else if pte AND PTE_V \<noteq> 0 then panic ''freewalk: leaf''
          else return ())))
        (kfree pagetable))"

declare freewalk.simps [simp del]

definition uvmfree :: "u64 \<Rightarrow> u64 \<Rightarrow> unit k" where
  "uvmfree pagetable sz = seq (uvmunmap pagetable 0 sz True) (freewalk (2 ^ 52) pagetable)"

definition uvmcopy :: "u64 \<Rightarrow> u64 \<Rightarrow> u64 \<Rightarrow> int k" where
  "uvmcopy old new sz =
     loop (2 ^ 52 + 1) (\<lambda>i.
       if i < sz then
         bind (walk old i False) (\<lambda>pte.
         if pte = 0 then panic ''uvmcopy: pte should exist''
         else
           bind (gets (\<lambda>s. ld64 (k_mem s) pte)) (\<lambda>v.
           if v AND PTE_V = 0 then panic ''uvmcopy: page not present''
           else
             let pa = PTE2PA v; flags = PTE_FLAGS v in
             bind kalloc (\<lambda>mem.
             if mem = 0 then seq (uvmunmap new 0 i True) (return (Inr (- 1)))
             else
               seq (modify (\<lambda>s. s\<lparr>k_mem := memmove (k_mem s) mem pa 4096\<rparr>)) (
               bind (mappages new i PGSIZE mem flags) (\<lambda>r.
               if r \<noteq> 0 then
                 seq (kfree mem) (seq (uvmunmap new 0 i True) (return (Inr (- 1))))
               else return (Inl (i + PGSIZE)))))))
       else return (Inr 0)) 0"

definition uvmclear :: "u64 \<Rightarrow> u64 \<Rightarrow> unit k" where
  "uvmclear pagetable va =
     bind (walk pagetable va False) (\<lambda>pte.
     if pte = 0 then panic ''uvmclear''
     else modify (\<lambda>s. s\<lparr>k_mem := st64 (k_mem s) pte (ld64 (k_mem s) pte AND NOT PTE_U)\<rparr>))"

end
