(* ===== verification/Xv6_Copy.thy ===== *)
theory Xv6_Copy
  imports Xv6_Vm
begin

text \<open>
  Copying between the kernel and user memory: \<open>copyout\<close>, \<open>copyin\<close> and \<open>copyinstr\<close> of
  \<open>kernel/vm.c\<close>, \<open>either_copyout\<close> and \<open>either_copyin\<close> of \<open>kernel/proc.c\<close>. A kernel object
  that takes part is given by its bytes; a routine that fills one returns its new contents.
  The lemmas relate the routines to \<open>uva\<close>, the physical address of a user-accessible byte.
\<close>

section \<open>Definitions\<close>

text \<open>How much of the page that contains \<open>va\<close> lies at or above \<open>va\<close>, at most \<open>len\<close>.\<close>

definition page_part :: "u64 \<Rightarrow> nat \<Rightarrow> nat" where
  "page_part va len = min (4096 - unat (va - PGROUNDDOWN va)) len"

lemma page_offset: "unat (va - PGROUNDDOWN va) = unat va mod 4096"
proof -
  have "unat (va - PGROUNDDOWN va) = unat va - unat va div 4096 * 4096"
    by (simp add: unat_sub_if' unat_PGROUNDDOWN)
  then show ?thesis
    by (simp add: minus_div_mult_eq_mod)
qed

lemma page_part_pos: "0 < len \<Longrightarrow> 0 < page_part va len"
  by (simp add: page_part_def page_offset)

lemma page_part_le: "page_part va len \<le> len"
  by (simp add: page_part_def)

function copyout :: "u64 \<Rightarrow> u64 \<Rightarrow> bytes \<Rightarrow> nat \<Rightarrow> int k" where
  "copyout pagetable dstva src len =
     (if len = 0 then return 0
      else
        let va0 = PGROUNDDOWN dstva; n = page_part dstva len in
        bind (walkaddr pagetable va0) (\<lambda>pa0.
        if pa0 = 0 then return (- 1)
        else
          seq (modify (\<lambda>s. s\<lparr>k_mem := mem_write (k_mem s) (pa0 + (dstva - va0)) n src\<rparr>))
          (copyout pagetable (va0 + PGSIZE) (at src n) (len - n))))"
  by auto
termination
  by (relation "measure (\<lambda>(_, _, _, len). len)") (auto simp: page_part_pos)

declare copyout.simps [simp del]

text \<open>\<open>off\<close> is how far the destination pointer has advanced.\<close>

function copyin_loop :: "u64 \<Rightarrow> bytes \<Rightarrow> nat \<Rightarrow> u64 \<Rightarrow> nat \<Rightarrow> (int \<times> bytes) k" where
  "copyin_loop pagetable dst off srcva len =
     (if len = 0 then return (0, dst)
      else
        let va0 = PGROUNDDOWN srcva; n = page_part srcva len in
        bind (walkaddr pagetable va0) (\<lambda>pa0.
        if pa0 = 0 then return (- 1, dst)
        else
          bind (gets (\<lambda>s. overwrite dst off n (mem_read (k_mem s) (pa0 + (srcva - va0))))) (\<lambda>dst'.
          copyin_loop pagetable dst' (off + n) (va0 + PGSIZE) (len - n))))"
  by auto
termination
  by (relation "measure (\<lambda>(_, _, _, _, len). len)") (auto simp: page_part_pos)

declare copyin_loop.simps [simp del]

definition copyin :: "u64 \<Rightarrow> bytes \<Rightarrow> u64 \<Rightarrow> nat \<Rightarrow> (int \<times> bytes) k" where
  "copyin pagetable dst srcva len = copyin_loop pagetable dst 0 srcva len"

text \<open>The inner loop of \<open>copyinstr\<close>: at most \<open>n\<close> bytes of one page, until a NUL.\<close>

primrec copyinstr_scan :: "memory \<Rightarrow> u64 \<Rightarrow> bytes \<Rightarrow> nat \<Rightarrow> nat \<Rightarrow> bytes \<times> bool" where
  "copyinstr_scan m p dst off 0 = (dst, False)"
| "copyinstr_scan m p dst off (Suc n) =
     (if m p = 0 then (dst(off := 0), True)
      else copyinstr_scan m (p + 1) (dst(off := m p)) (Suc off) n)"

function copyinstr_loop :: "u64 \<Rightarrow> bytes \<Rightarrow> nat \<Rightarrow> u64 \<Rightarrow> nat \<Rightarrow> (int \<times> bytes) k" where
  "copyinstr_loop pagetable dst off srcva mx =
     (if mx = 0 then return (- 1, dst)
      else
        let va0 = PGROUNDDOWN srcva; n = page_part srcva mx in
        bind (walkaddr pagetable va0) (\<lambda>pa0.
        if pa0 = 0 then return (- 1, dst)
        else
          bind (gets (\<lambda>s. copyinstr_scan (k_mem s) (pa0 + (srcva - va0)) dst off n)) (\<lambda>(dst', got_null).
          if got_null then return (0, dst')
          else copyinstr_loop pagetable dst' (off + n) (va0 + PGSIZE) (mx - n))))"
  by auto
termination
  by (relation "measure (\<lambda>(_, _, _, _, mx). mx)") (auto simp: page_part_pos)

declare copyinstr_loop.simps [simp del]

definition copyinstr :: "u64 \<Rightarrow> bytes \<Rightarrow> u64 \<Rightarrow> nat \<Rightarrow> (int \<times> bytes) k" where
  "copyinstr pagetable dst srcva mx = copyinstr_loop pagetable dst 0 srcva mx"

text \<open>
  The other end of a transfer by \<open>readi\<close>, \<open>writei\<close> or a device: a user address, a kernel
  address, or a local object of the caller, whose bytes are \<open>k_kbuf\<close>.
\<close>

datatype place = UserA u64 | KernA u64 | LocalA nat

definition place_add :: "place \<Rightarrow> nat \<Rightarrow> place" where
  "place_add a n = (case a of UserA v \<Rightarrow> UserA (v + of_nat n) | KernA v \<Rightarrow> KernA (v + of_nat n)
     | LocalA i \<Rightarrow> LocalA (i + n))"

definition either_copyout :: "place \<Rightarrow> bytes \<Rightarrow> nat \<Rightarrow> int k" where
  "either_copyout dst src len =
     bind myproc (\<lambda>pp.
     case dst of
       UserA va \<Rightarrow> bind (deref pp) (\<lambda>p.
         bind (gets (\<lambda>s. p_pagetable (k_procs s p))) (\<lambda>pt. copyout pt va src len))
     | KernA a \<Rightarrow> seq (modify (\<lambda>s. s\<lparr>k_mem := mem_write (k_mem s) a len src\<rparr>)) (return 0)
     | LocalA i \<Rightarrow> seq (modify (\<lambda>s. s\<lparr>k_kbuf := overwrite (k_kbuf s) i len src\<rparr>)) (return 0))"

definition either_copyin :: "bytes \<Rightarrow> place \<Rightarrow> nat \<Rightarrow> (int \<times> bytes) k" where
  "either_copyin dst src len =
     bind myproc (\<lambda>pp.
     case src of
       UserA va \<Rightarrow> bind (deref pp) (\<lambda>p.
         bind (gets (\<lambda>s. p_pagetable (k_procs s p))) (\<lambda>pt. copyin pt dst va len))
     | KernA a \<Rightarrow> bind (gets (\<lambda>s. mem_read (k_mem s) a)) (\<lambda>d. return (0, overwrite dst 0 len d))
     | LocalA i \<Rightarrow> bind (gets (\<lambda>s. at (k_kbuf s) i)) (\<lambda>d. return (0, overwrite dst 0 len d)))"

section \<open>Translation\<close>

text \<open>The address of the leaf entry for \<open>va\<close>, and the physical address of a user byte.\<close>

definition walk_pure :: "memory \<Rightarrow> u64 \<Rightarrow> u64 \<Rightarrow> u64" where
  "walk_pure m pt va =
     (let v2 = ld64 m (pt + 8 * PX 2 va) in
      if v2 AND PTE_V = 0 then 0
      else let v1 = ld64 m (PTE2PA v2 + 8 * PX 1 va) in
        if v1 AND PTE_V = 0 then 0 else PTE2PA v1 + 8 * PX 0 va)"

definition upage :: "memory \<Rightarrow> u64 \<Rightarrow> u64 \<Rightarrow> u64" where
  "upage m pt va =
     (if va \<ge> MAXVA then 0
      else let pte = walk_pure m pt va; v = ld64 m pte in
        if pte = 0 \<or> v AND PTE_V = 0 \<or> v AND PTE_U = 0 then 0 else PTE2PA v)"

definition uva :: "memory \<Rightarrow> u64 \<Rightarrow> u64 \<Rightarrow> u64 option" where
  "uva m pt va =
     (let pa = upage m pt (PGROUNDDOWN va)
      in if pa = 0 then None else Some (pa + (va - PGROUNDDOWN va)))"

lemma walk_level_pure:
  "walk_level pt va False l s =
     Ok (if ld64 (k_mem s) (pt + 8 * PX l va) AND PTE_V = 0 then None
         else Some (PTE2PA (ld64 (k_mem s) (pt + 8 * PX l va)))) s"
  by (simp add: walk_level_def run_simps Let_def)

lemma walk_noalloc: "va < MAXVA \<Longrightarrow> walk pt va False s = Ok (walk_pure (k_mem s) pt va) s"
  by (simp add: walk_def walk_level_pure walk_pure_def run_simps Let_def not_le)

lemma walkaddr_apply: "walkaddr pt va s = Ok (upage (k_mem s) pt va) s"
  by (cases "va < MAXVA") (simp_all add: walkaddr_def walk_noalloc upage_def run_simps Let_def)

text \<open>Bytes of one page stay on it.\<close>

lemma same_page:
  assumes "i < 4096 - unat va mod 4096"
  shows "PGROUNDDOWN (va + of_nat i) = PGROUNDDOWN va"
proof -
  have split: "unat va = 4096 * (unat va div 4096) + unat va mod 4096"
    by simp
  have "4096 * (unat va div 4096) + 4096 \<le> 2 ^ 64"
    using unat_bound [of va] by simp
  then have "unat va + i < 2 ^ 64"
    using assms split by linarith
  then have sum: "unat (va + of_nat i) = unat va + i"
    by (simp add: unat_word_ariths unat_of_nat)
  have quot: "(4096 * q + r) div 4096 = q" if "r < 4096" for q r :: nat
    using that by simp
  have whole: "unat va + i = 4096 * (unat va div 4096) + (unat va mod 4096 + i)"
    using split by linarith
  have "(unat va + i) div 4096 = unat va div 4096"
    by (subst whole, rule quot) (use assms in linarith)
  then show ?thesis
    by (simp add: word_unat_eq_iff unat_PGROUNDDOWN sum)
qed

lemma uva_same_page:
  assumes "i < page_part va len"
  shows "uva m pt (va + of_nat i) =
    (if upage m pt (PGROUNDDOWN va) = 0 then None
     else Some (upage m pt (PGROUNDDOWN va) + (va - PGROUNDDOWN va) + of_nat i))"
  using assms same_page [of i va] by (simp add: uva_def page_part_def page_offset Let_def)

text \<open>The address after the part of the page.\<close>

lemma next_page:
  assumes "page_part va len < len"
  shows "PGROUNDDOWN va + PGSIZE = va + of_nat (page_part va len)"
proof -
  have n: "page_part va len = 4096 - unat va mod 4096"
    using assms by (auto simp: page_part_def page_offset min_def split: if_splits)
  define P where "P = PGROUNDDOWN va"
  define d where "d = va - P"
  have "unat d = unat va mod 4096"
    by (simp add: d_def P_def page_offset)
  moreover have "of_nat (unat d) = d"
    by simp
  ultimately have "d + of_nat (page_part va len) = of_nat (unat va mod 4096) + of_nat (4096 - unat va mod 4096)"
    by (simp only: n)
  also have "\<dots> = (of_nat 4096 :: u64)"
    unfolding of_nat_add [symmetric] by simp
  finally have "d + of_nat (page_part va len) = PGSIZE"
    by simp
  moreover have "va + of_nat (page_part va len) = P + (d + of_nat (page_part va len))"
    by (simp add: d_def)
  ultimately show ?thesis
    by (simp only: P_def)
qed

section \<open>Reading user memory\<close>

lemma split_range:
  "n \<le> len \<Longrightarrow> (\<forall>i<len. P i) \<longleftrightarrow> (\<forall>i<n. P i) \<and> (\<forall>j<len - n. P (n + j))" for n len :: nat
  by (metis add_diff_inverse_nat less_diff_conv2 nat_add_left_cancel_less not_less
      le_add_diff_inverse add.commute less_le_trans)

lemma copyin_loop_total:
  "\<exists>r d. copyin_loop pt dst off srcva len s = Ok (r, d) s \<and>
     (\<forall>x. x < off \<or> off + len \<le> x \<longrightarrow> d x = dst x) \<and>
     (if \<forall>i<len. uva (k_mem s) pt (srcva + of_nat i) \<noteq> None
      then r = 0 \<and> (\<forall>i<len. d (off + i) = k_mem s (the (uva (k_mem s) pt (srcva + of_nat i))))
      else r = - 1)"
proof (induction len arbitrary: dst off srcva rule: less_induct)
  case (less len)
  let ?m = "k_mem s"
  show ?case
  proof (cases "len = 0")
    case True
    then show ?thesis
      by (subst copyin_loop.simps) (simp add: run_simps)
  next
    case False
    define n where "n = page_part srcva len"
    define pa where "pa = upage ?m pt (PGROUNDDOWN srcva)"
    have n: "0 < n" "n \<le> len"
      using False page_part_pos page_part_le by (simp_all add: n_def)
    have here: "uva ?m pt (srcva + of_nat i) =
        (if pa = 0 then None else Some (pa + (srcva - PGROUNDDOWN srcva) + of_nat i))" if "i < n" for i
      using uva_same_page [of i srcva len ?m pt] that by (simp add: n_def pa_def)
    show ?thesis
    proof (cases "pa = 0")
      case True
      then have "copyin_loop pt dst off srcva len s = Ok (- 1, dst) s"
        using False by (subst copyin_loop.simps) (simp add: run_simps walkaddr_apply pa_def Let_def)
      moreover have "uva ?m pt (srcva + of_nat 0) = None"
        using here [OF n(1)] True by simp
      ultimately show ?thesis
        using False by auto
    next
      case mapped: False
      define d where "d = overwrite dst off n (mem_read ?m (pa + (srcva - PGROUNDDOWN srcva)))"
      have step: "copyin_loop pt dst off srcva len s =
          copyin_loop pt d (off + n) (PGROUNDDOWN srcva + PGSIZE) (len - n) s"
        using False mapped
        by (subst copyin_loop.simps) (simp add: run_simps walkaddr_apply pa_def n_def d_def Let_def)
      have next_va: "PGROUNDDOWN srcva + PGSIZE + of_nat j = srcva + of_nat (n + j)" if "j < len - n" for j
        using next_page [of srcva len] that by (simp add: n_def algebra_simps)
      obtain r e where e: "copyin_loop pt d (off + n) (PGROUNDDOWN srcva + PGSIZE) (len - n) s = Ok (r, e) s"
        and out: "\<And>x. x < off + n \<or> off + n + (len - n) \<le> x \<Longrightarrow> e x = d x"
        and res: "if \<forall>j<len - n. uva ?m pt (PGROUNDDOWN srcva + PGSIZE + of_nat j) \<noteq> None
          then r = 0 \<and> (\<forall>j<len - n. e (off + n + j) = ?m (the (uva ?m pt (PGROUNDDOWN srcva + PGSIZE + of_nat j))))
          else r = - 1"
        using less.IH [of "len - n" d "off + n" "PGROUNDDOWN srcva + PGSIZE"] n by auto
      have rest: "if \<forall>j<len - n. uva ?m pt (srcva + of_nat (n + j)) \<noteq> None
          then r = 0 \<and> (\<forall>j<len - n. e (off + (n + j)) = ?m (the (uva ?m pt (srcva + of_nat (n + j)))))
          else r = - 1"
        using res
        by (simp add: next_va del: of_nat_add cong: imp_cong)
          (auto simp: next_va add.assoc [symmetric] simp del: of_nat_add split: if_splits)
      have low: "e (off + i) = ?m (the (uva ?m pt (srcva + of_nat i)))" if "i < n" for i
        using out [of "off + i"] that here [OF that] mapped by (simp add: d_def mem_read_def)
      have frame: "e x = dst x" if "x < off \<or> off + len \<le> x" for x
        using out [of x] that n by (auto simp: d_def)
      show ?thesis
      proof (intro exI conjI)
        show "copyin_loop pt dst off srcva len s = Ok (r, e) s"
          using step e by simp
        show "\<forall>x. x < off \<or> off + len \<le> x \<longrightarrow> e x = dst x"
          using frame by blast
        show "if \<forall>i<len. uva ?m pt (srcva + of_nat i) \<noteq> None
          then r = 0 \<and> (\<forall>i<len. e (off + i) = ?m (the (uva ?m pt (srcva + of_nat i))))
          else r = - 1"
          using rest low here mapped unfolding split_range [OF n(2)]
          by (auto simp del: of_nat_add split: if_splits)
      qed
    qed
  qed
qed

section \<open>Writing user memory\<close>

text \<open>
  The page-table entries that translate a range of user addresses are not themselves among
  the bytes of the range: whatever is stored there, the translation of the range stays.
\<close>

definition pt_private :: "memory \<Rightarrow> u64 \<Rightarrow> u64 \<Rightarrow> nat \<Rightarrow> bool" where
  "pt_private m pt va len \<longleftrightarrow>
     (\<forall>m'. (\<forall>x. (\<forall>i<len. uva m pt (va + of_nat i) \<noteq> Some x) \<longrightarrow> m' x = m x) \<longrightarrow>
       (\<forall>i<len. uva m' pt (va + of_nat i) = uva m pt (va + of_nat i)))"

text \<open>The user bytes of a range have physical addresses of their own.\<close>

definition frames_distinct :: "memory \<Rightarrow> u64 \<Rightarrow> u64 \<Rightarrow> nat \<Rightarrow> bool" where
  "frames_distinct m pt va len \<longleftrightarrow>
     (\<forall>i<len. \<forall>j<len. uva m pt (va + of_nat i) = uva m pt (va + of_nat j) \<longrightarrow> i = j)"

lemma pt_private_same:
  "pt_private m pt va len \<Longrightarrow>
     (\<And>x. (\<And>i. i < len \<Longrightarrow> uva m pt (va + of_nat i) \<noteq> Some x) \<Longrightarrow> m' x = m x) \<Longrightarrow>
     i < len \<Longrightarrow> uva m' pt (va + of_nat i) = uva m pt (va + of_nat i)"
  unfolding pt_private_def by blast

lemma pt_private_rest:
  assumes priv: "pt_private m pt va len" and "n \<le> len"
    and m1: "\<And>x. (\<And>i. i < n \<Longrightarrow> uva m pt (va + of_nat i) \<noteq> Some x) \<Longrightarrow> m1 x = m x"
    and conv: "\<And>j. j < len - n \<Longrightarrow> uva m1 pt (va' + of_nat j) = uva m pt (va + of_nat (n + j))"
    and va': "\<And>j. j < len - n \<Longrightarrow> va' + of_nat j = va + of_nat (n + j)"
  shows "pt_private m1 pt va' (len - n)"
  unfolding pt_private_def
proof (intro allI impI)
  fix m' j
  assume same: "\<forall>x. (\<forall>i<len - n. uva m1 pt (va' + of_nat i) \<noteq> Some x) \<longrightarrow> m' x = m1 x" and j: "j < len - n"
  have "m' x = m x" if out: "\<And>i. i < len \<Longrightarrow> uva m pt (va + of_nat i) \<noteq> Some x" for x
  proof -
    have "m' x = m1 x"
      using same out conv by (metis add.commute less_diff_conv)
    also have "\<dots> = m x"
      using m1 out assms(2) by (meson less_le_trans)
    finally show ?thesis .
  qed
  then have "uva m' pt (va + of_nat (n + j)) = uva m pt (va + of_nat (n + j))"
    using pt_private_same [OF priv, of m' "n + j"] j by simp
  then show "uva m' pt (va' + of_nat j) = uva m1 pt (va' + of_nat j)"
    using conv [OF j] unfolding va' [OF j] by (simp only:)
qed

lemma mem_write_at: "i < n \<Longrightarrow> n \<le> 4096 \<Longrightarrow> mem_write m a n src (a + of_nat i) = src i"
  by (simp add: mem_write_def unat_of_nat)

lemma mem_write_out: "(\<And>i. i < n \<Longrightarrow> x \<noteq> a + of_nat i) \<Longrightarrow> mem_write m a n src x = m x"
proof -
  assume "\<And>i. i < n \<Longrightarrow> x \<noteq> a + of_nat i"
  then have "\<not> unat (x - a) < n"
    using word_add_diff [of x a] by blast
  then show ?thesis
    by (simp add: mem_write_def)
qed

text \<open>One page of \<open>copyout\<close>.\<close>

lemma copyout_step:
  assumes "0 < len" and "upage (k_mem s) pt (PGROUNDDOWN dstva) = pa" and "pa \<noteq> 0"
  shows "copyout pt dstva src len s =
    copyout pt (PGROUNDDOWN dstva + PGSIZE) (at src (page_part dstva len)) (len - page_part dstva len)
      (s\<lparr>k_mem := mem_write (k_mem s) (pa + (dstva - PGROUNDDOWN dstva)) (page_part dstva len) src\<rparr>)"
  using assms by (subst copyout.simps) (simp add: run_simps walkaddr_apply Let_def)

text \<open>What a result of \<open>copyout\<close> to \<open>dstva\<close> must be.\<close>

definition delivered :: "memory \<Rightarrow> u64 \<Rightarrow> u64 \<Rightarrow> bytes \<Rightarrow> nat \<Rightarrow> int \<Rightarrow> memory \<Rightarrow> bool" where
  "delivered m pt dstva src len r m' \<longleftrightarrow>
     (\<forall>x. (\<forall>i<len. uva m pt (dstva + of_nat i) \<noteq> Some x) \<longrightarrow> m' x = m x) \<and>
     r = (if \<forall>i<len. uva m pt (dstva + of_nat i) \<noteq> None then 0 else - 1) \<and>
     (r = 0 \<and> frames_distinct m pt dstva len \<longrightarrow>
       (\<forall>i<len. m' (the (uva m pt (dstva + of_nat i))) = src i))"

lemma delivered_later:
  assumes here: "\<And>i. i < n \<Longrightarrow> uva m pt (dstva + of_nat i) = Some (a + of_nat i)"
    and n: "n \<le> len" "n \<le> 4096"
    and rest: "delivered (mem_write m a n src) pt va' (at src n) (len - n) r m'"
    and conv: "\<And>j. j < len - n \<Longrightarrow>
      uva (mem_write m a n src) pt (va' + of_nat j) = uva m pt (dstva + of_nat (n + j))"
  shows "delivered m pt dstva src len r m'"
proof -
  let ?u = "\<lambda>i. uva m pt (dstva + of_nat i)"
  have out: "m' x = mem_write m a n src x" if "\<And>j. j < len - n \<Longrightarrow> ?u (n + j) \<noteq> Some x" for x
    using rest that conv unfolding delivered_def by simp
  have r: "r = (if \<forall>j<len - n. ?u (n + j) \<noteq> None then 0 else - 1)"
    using rest conv unfolding delivered_def by (simp cong: imp_cong)
  have frame: "m' x = m x" if "\<forall>i<len. ?u i \<noteq> Some x" for x
  proof -
    have "mem_write m a n src x = m x"
      using that here n(1) by (intro mem_write_out) (metis less_le_trans)
    moreover have "?u (n + j) \<noteq> Some x" if "j < len - n" for j
      using spec [OF \<open>\<forall>i<len. ?u i \<noteq> Some x\<close>, of "n + j"] that by simp
    then have "m' x = mem_write m a n src x"
      by (rule out)
    ultimately show ?thesis by simp
  qed
  have data: "m' (the (?u i)) = src i" if "r = 0" and distinct: "frames_distinct m pt dstva len" and i: "i < len" for i
  proof (cases "i < n")
    case True
    have "?u (n + j) \<noteq> Some (a + of_nat i)" if "j < len - n" for j
    proof
      assume "?u (n + j) = Some (a + of_nat i)"
      then have "?u (n + j) = ?u i"
        using here [OF True] by simp
      then have "n + j = i"
        using distinct that i unfolding frames_distinct_def by auto
      then show False
        using True by simp
    qed
    then show ?thesis
      using out here [OF True] True n(2) by (simp add: mem_write_at)
  next
    case False
    have "frames_distinct (mem_write m a n src) pt va' (len - n)"
      unfolding frames_distinct_def
    proof (intro allI impI)
      fix j k
      assume jk: "j < len - n" "k < len - n"
        "uva (mem_write m a n src) pt (va' + of_nat j) = uva (mem_write m a n src) pt (va' + of_nat k)"
      then have "?u (n + j) = ?u (n + k)"
        unfolding conv [OF jk(1)] conv [OF jk(2)] by blast
      moreover have "n + j < len" "n + k < len"
        using jk(1,2) by simp_all
      ultimately have "n + j = n + k"
        using distinct unfolding frames_distinct_def by blast
      then show "j = k" by simp
    qed
    moreover have small: "i - n < len - n" and sum: "n + (i - n) = i"
      using False i by simp_all
    ultimately have "m' (the (uva (mem_write m a n src) pt (va' + of_nat (i - n)))) = at src n (i - n)"
      using rest \<open>r = 0\<close> unfolding delivered_def by blast
    then show ?thesis
      unfolding conv [OF small] at_def sum .
  qed
  show ?thesis
    unfolding delivered_def using frame data r here
    unfolding split_range [OF n(1), of "\<lambda>i. ?u i \<noteq> None"] by auto
qed

lemma copyout_total:
  assumes "pt_private (k_mem s) pt dstva len"
  shows "\<exists>r m'. copyout pt dstva src len s = Ok r (s\<lparr>k_mem := m'\<rparr>) \<and>
    delivered (k_mem s) pt dstva src len r m'"
  using assms
proof (induction len arbitrary: dstva src s rule: less_induct)
  case (less len)
  let ?m = "k_mem s"
  define n where "n = page_part dstva len"
  define pa where "pa = upage ?m pt (PGROUNDDOWN dstva)"
  consider (empty) "len = 0" | (unmapped) "0 < len" "pa = 0" | (mapped) "0 < len" "pa \<noteq> 0"
    by blast
  then show ?case
  proof cases
    case empty
    then show ?thesis
      by (subst copyout.simps) (auto simp: run_simps delivered_def intro!: exI [of _ ?m])
  next
    case unmapped
    then have "uva ?m pt (dstva + of_nat 0) = None"
      using uva_same_page [of 0 dstva len ?m pt] page_part_pos by (simp add: pa_def)
    moreover have "copyout pt dstva src len s = Ok (- 1) s"
      using unmapped by (subst copyout.simps) (simp add: run_simps walkaddr_apply pa_def Let_def)
    ultimately show ?thesis
      using unmapped by (intro exI [of _ "- 1"] exI [of _ ?m]) (auto simp: delivered_def)
  next
    case mapped
    define a where "a = pa + (dstva - PGROUNDDOWN dstva)"
    define m1 where "m1 = mem_write ?m a n src"
    define va' where "va' = PGROUNDDOWN dstva + PGSIZE"
    have n: "0 < n" "n \<le> len" "n \<le> 4096"
      using mapped page_part_pos page_part_le by (auto simp: n_def page_part_def)
    have here: "uva ?m pt (dstva + of_nat i) = Some (a + of_nat i)" if "i < n" for i
      using uva_same_page [of i dstva len ?m pt] that mapped by (simp add: n_def pa_def a_def)
    have out1: "m1 x = ?m x" if "\<And>i. i < n \<Longrightarrow> uva ?m pt (dstva + of_nat i) \<noteq> Some x" for x
      unfolding m1_def using that here by (intro mem_write_out) auto
    have va': "va' + of_nat j = dstva + of_nat (n + j)" if "j < len - n" for j
      using next_page [of dstva len] that by (simp add: n_def va'_def algebra_simps)
    have conv: "uva m1 pt (va' + of_nat j) = uva ?m pt (dstva + of_nat (n + j))" if "j < len - n" for j
      unfolding va' [OF that]
      by (rule pt_private_same [OF less.prems]) (use out1 n(2) that in \<open>auto intro: less_le_trans\<close>)
    have "pt_private m1 pt va' (len - n)"
      using less.prems n(2) out1 conv va' by (rule pt_private_rest)
    then obtain r m' where "copyout pt va' (at src n) (len - n) (s\<lparr>k_mem := m1\<rparr>) = Ok r (s\<lparr>k_mem := m'\<rparr>)"
      and "delivered m1 pt va' (at src n) (len - n) r m'"
      using less.IH [of "len - n" "s\<lparr>k_mem := m1\<rparr>" va' "at src n"] n mapped(1) by auto
    then show ?thesis
      using delivered_later [OF here n(2,3)] conv copyout_step [OF mapped(1) pa_def [symmetric] mapped(2), of src]
      by (auto simp: m1_def a_def n_def va'_def)
  qed
qed

section \<open>Reading a user string\<close>

text \<open>
  What \<open>copyinstr\<close> does to the destination after \<open>k\<close> bytes: they are the user bytes, none of
  them NUL.
\<close>

lemma scan_spec:
  "n \<le> 4096 \<Longrightarrow> copyinstr_scan m p dst off n =
     (if \<exists>k<n. m (p + of_nat k) = 0
      then let k = (LEAST k. m (p + of_nat k) = 0)
        in (overwrite dst off (Suc k) (mem_read m p), True)
      else (overwrite dst off n (mem_read m p), False))"
proof (induction n arbitrary: p dst off)
  case 0
  then show ?case by (auto simp: overwrite_def fun_eq_iff)
next
  case (Suc n)
  show ?case
  proof (cases "m p = 0")
    case True
    then have "(LEAST k. m (p + of_nat k) = 0) = 0" by simp
    moreover have "\<exists>k<Suc n. m (p + of_nat k) = 0"
      using True by (intro exI [of _ 0]) simp
    moreover have "dst(off := 0) = overwrite dst off (Suc 0) (mem_read m p)"
      using True by (auto simp: overwrite_def mem_read_def fun_eq_iff)
    ultimately show ?thesis
      using True by (simp add: Let_def)
  next
    case False
    have shift: "p + 1 + of_nat k = p + of_nat (Suc k)" for k
      by (simp add: algebra_simps)
    have ex: "(\<exists>k<Suc n. m (p + of_nat k) = 0) \<longleftrightarrow> (\<exists>k<n. m (p + 1 + of_nat k) = 0)"
      unfolding shift using False by (auto simp: Ex_less_Suc2 simp del: of_nat_Suc)
    have least: "(LEAST k. m (p + of_nat k) = 0) = Suc (LEAST k. m (p + 1 + of_nat k) = 0)"
      if "m (p + of_nat k) = 0" for k
      unfolding shift using that False by (intro Least_Suc) simp_all
    have over: "overwrite (dst(off := m p)) (Suc off) l (mem_read m (p + 1)) =
        overwrite dst off (Suc l) (mem_read m p)" for l
    proof
      fix x
      show "overwrite (dst(off := m p)) (Suc off) l (mem_read m (p + 1)) x =
          overwrite dst off (Suc l) (mem_read m p) x"
      proof (cases "Suc off \<le> x")
        case True
        then have "x - off = Suc (x - Suc off)"
          by linarith
        then have "of_nat (x - off) = 1 + (of_nat (x - Suc off) :: u64)"
          by (simp only: of_nat_Suc)
        then show ?thesis
          using True by (auto simp: overwrite_def mem_read_def algebra_simps)
      qed (auto simp: overwrite_def mem_read_def)
    qed
    have "copyinstr_scan m p dst off (Suc n) = copyinstr_scan m (p + 1) (dst(off := m p)) (Suc off) n"
      using False by simp
    also have "\<dots> = (if \<exists>k<n. m (p + 1 + of_nat k) = 0
      then let k = (LEAST k. m (p + 1 + of_nat k) = 0)
        in (overwrite (dst(off := m p)) (Suc off) (Suc k) (mem_read m (p + 1)), True)
      else (overwrite (dst(off := m p)) (Suc off) n (mem_read m (p + 1)), False))"
      using Suc by simp
    finally show ?thesis
      unfolding over ex [symmetric] using least by (auto simp: Let_def)
  qed
qed

text \<open>The user's byte at an address, and that a string ends \<open>k\<close> bytes after it.\<close>

definition ubyte :: "memory \<Rightarrow> u64 \<Rightarrow> u64 \<Rightarrow> u8 option" where
  "ubyte m pt va = map_option m (uva m pt va)"

definition string_end :: "memory \<Rightarrow> u64 \<Rightarrow> u64 \<Rightarrow> nat \<Rightarrow> bool" where
  "string_end m pt va k \<longleftrightarrow>
     (\<forall>i<k. \<exists>c. ubyte m pt (va + of_nat i) = Some c \<and> c \<noteq> 0) \<and> ubyte m pt (va + of_nat k) = Some 0"

lemma string_end_later:
  assumes "\<And>i. i < n \<Longrightarrow> \<exists>c. ubyte m pt (va + of_nat i) = Some c \<and> c \<noteq> 0"
  shows "string_end m pt va k \<longleftrightarrow> n \<le> k \<and> string_end m pt (va + of_nat n) (k - n)"
proof (cases "n \<le> k")
  case True
  then obtain j where k: "k = n + j"
    using le_Suc_ex by blast
  have "(\<forall>i<n + j. P i) \<longleftrightarrow> (\<forall>i<n. P i) \<and> (\<forall>i<j. P (n + i))" for P
    using split_range [of n "n + j" P] by simp
  then show ?thesis
    using assms True unfolding k string_end_def by (simp add: add.assoc)
next
  case False
  then have "\<exists>c. ubyte m pt (va + of_nat k) = Some c \<and> c \<noteq> 0"
    using assms by simp
  then show ?thesis
    using False by (auto simp: string_end_def)
qed

text \<open>What a result of \<open>copyinstr\<close> from \<open>srcva\<close> into \<open>dst\<close> must be.\<close>

definition fetched :: "memory \<Rightarrow> u64 \<Rightarrow> bytes \<Rightarrow> nat \<Rightarrow> u64 \<Rightarrow> nat \<Rightarrow> int \<Rightarrow> bytes \<Rightarrow> bool" where
  "fetched m pt dst off srcva mx r d \<longleftrightarrow>
     (\<forall>x. x < off \<or> off + mx \<le> x \<longrightarrow> d x = dst x) \<and>
     (if \<exists>k<mx. string_end m pt srcva k
      then r = 0 \<and> (\<forall>k i. string_end m pt srcva k \<longrightarrow> i \<le> k \<longrightarrow>
        ubyte m pt (srcva + of_nat i) = Some (d (off + i)))
      else r = - 1)"

lemma string_end_unique: "string_end m pt va j \<Longrightarrow> string_end m pt va k \<Longrightarrow> j = k"
  unfolding string_end_def by (metis linorder_neqE_nat option.inject)

lemma fetched_here:
  assumes bytes: "\<And>i. i < n \<Longrightarrow> ubyte m pt (srcva + of_nat i) = Some (m (a + of_nat i))"
    and "n \<le> mx" and "j < n" and "m (a + of_nat j) = 0"
  shows "fetched m pt dst off srcva mx 0
    (overwrite dst off (Suc (LEAST k. m (a + of_nat k) = 0)) (mem_read m a))"
proof -
  let ?P = "\<lambda>k. m (a + of_nat k) = 0"
  define k where "k = (LEAST k. ?P k)"
  have zero: "?P k"
    unfolding k_def using assms(4) by (rule LeastI)
  have "k \<le> j"
    unfolding k_def using assms(4) by (rule Least_le)
  then have k: "k < n"
    using assms(3) by simp
  have low: "\<not> ?P i" if "i < k" for i
    using that unfolding k_def by (rule not_less_Least)
  have ends: "string_end m pt srcva k"
    using bytes low zero k by (auto simp: string_end_def)
  then have "\<exists>k<mx. string_end m pt srcva k"
    using k assms(2) by (meson less_le_trans)
  moreover have "ubyte m pt (srcva + of_nat i) = Some (overwrite dst off (Suc k) (mem_read m a) (off + i))"
    if "string_end m pt srcva j" "i \<le> j" for i j
    using bytes [of i] k string_end_unique [OF ends that(1)] that(2) by (simp add: mem_read_def)
  ultimately show ?thesis
    using k assms(2) unfolding fetched_def k_def [symmetric] by auto
qed

lemma fetched_later:
  assumes bytes: "\<And>i. i < n \<Longrightarrow> ubyte m pt (srcva + of_nat i) = Some (m (a + of_nat i)) \<and> m (a + of_nat i) \<noteq> 0"
    and "n \<le> mx"
    and rest: "fetched m pt (overwrite dst off n (mem_read m a)) (off + n) (srcva + of_nat n) (mx - n) r d"
  shows "fetched m pt dst off srcva mx r d"
proof -
  have later: "string_end m pt srcva k \<longleftrightarrow> n \<le> k \<and> string_end m pt (srcva + of_nat n) (k - n)" for k
    using bytes by (intro string_end_later) auto
  have ends: "(\<exists>k<mx. string_end m pt srcva k) \<longleftrightarrow> (\<exists>k<mx - n. string_end m pt (srcva + of_nat n) k)"
  proof
    assume "\<exists>k<mx. string_end m pt srcva k"
    then obtain k where "k < mx" "n \<le> k" "string_end m pt (srcva + of_nat n) (k - n)"
      using later by blast
    then show "\<exists>k<mx - n. string_end m pt (srcva + of_nat n) k"
      by (intro exI [of _ "k - n"]) auto
  next
    assume "\<exists>k<mx - n. string_end m pt (srcva + of_nat n) k"
    then obtain k where "k < mx - n" "string_end m pt (srcva + of_nat n) k"
      by blast
    then show "\<exists>k<mx. string_end m pt srcva k"
      using later [of "n + k"] by (intro exI [of _ "n + k"]) auto
  qed
  have outside: "d x = dst x" if "x < off \<or> off + mx \<le> x" for x
    using rest that assms(2) by (auto simp: fetched_def)
  have low: "d (off + i) = m (a + of_nat i)" if "i < n" for i
    using rest that by (simp add: fetched_def mem_read_def)
  have all: "ubyte m pt (srcva + of_nat i) = Some (d (off + i))"
    if "\<exists>k<mx. string_end m pt srcva k" "string_end m pt srcva k" "i \<le> k" for i k
  proof (cases "i < n")
    case True
    then show ?thesis using bytes low by simp
  next
    case False
    have "\<exists>k<mx - n. string_end m pt (srcva + of_nat n) k"
      and "string_end m pt (srcva + of_nat n) (k - n)" and "i - n \<le> k - n" and sum: "n + (i - n) = i"
      using that later ends False by auto
    then have "ubyte m pt (srcva + of_nat n + of_nat (i - n)) = Some (d (off + n + (i - n)))"
      using rest unfolding fetched_def by presburger
    then show ?thesis
      unfolding add.assoc of_nat_add [symmetric] sum .
  qed
  then show ?thesis
    using rest outside ends unfolding fetched_def by (auto split: if_splits)
qed

lemma copyinstr_loop_total:
  "\<exists>r d. copyinstr_loop pt dst off srcva mx s = Ok (r, d) s \<and> fetched (k_mem s) pt dst off srcva mx r d"
proof (induction mx arbitrary: dst off srcva rule: less_induct)
  case (less mx)
  let ?m = "k_mem s"
  define n where "n = page_part srcva mx"
  define pa where "pa = upage ?m pt (PGROUNDDOWN srcva)"
  define a where "a = pa + (srcva - PGROUNDDOWN srcva)"
  have n: "n \<le> mx" "n \<le> 4096" and pos: "0 < mx \<Longrightarrow> 0 < n"
    using page_part_pos by (auto simp: n_def page_part_def)
  have bytes: "ubyte ?m pt (srcva + of_nat i) = (if pa = 0 then None else Some (?m (a + of_nat i)))"
    if "i < n" for i
    using uva_same_page [of i srcva mx ?m pt] that by (simp add: n_def pa_def a_def ubyte_def)
  have step: "copyinstr_loop pt dst off srcva mx s =
      (case copyinstr_scan ?m a dst off n of (dst', got_null) \<Rightarrow>
        if got_null then Ok (0, dst') s
        else copyinstr_loop pt dst' (off + n) (PGROUNDDOWN srcva + PGSIZE) (mx - n) s)" if "0 < mx" "pa \<noteq> 0"
    using that by (subst copyinstr_loop.simps)
      (simp add: run_simps walkaddr_apply pa_def [symmetric] n_def [symmetric] a_def [symmetric] Let_def
        split: prod.split)
  consider (empty) "mx = 0" | (unmapped) "0 < mx" "pa = 0"
    | (found) k where "0 < mx" "pa \<noteq> 0" "k < n" "?m (a + of_nat k) = 0"
    | (more) "0 < mx" "pa \<noteq> 0" "\<forall>k<n. ?m (a + of_nat k) \<noteq> 0"
    by blast
  then show ?case
  proof cases
    case empty
    then show ?thesis
      by (subst copyinstr_loop.simps) (simp add: run_simps fetched_def)
  next
    case unmapped
    have "\<not> string_end ?m pt srcva k" for k
      using bytes [of 0] pos unmapped unfolding string_end_def by (cases k) auto
    moreover have "copyinstr_loop pt dst off srcva mx s = Ok (- 1, dst) s"
      using unmapped by (subst copyinstr_loop.simps) (simp add: run_simps walkaddr_apply pa_def Let_def)
    ultimately show ?thesis by (simp add: fetched_def)
  next
    case (found k)
    then have "\<exists>k<n. ?m (a + of_nat k) = 0"
      by blast
    then have "copyinstr_loop pt dst off srcva mx s =
        Ok (0, overwrite dst off (Suc (LEAST k. ?m (a + of_nat k) = 0)) (mem_read ?m a)) s"
      using step found(1,2) scan_spec [OF n(2), of ?m a dst off] by (simp add: Let_def)
    then show ?thesis
      using fetched_here [of n ?m pt srcva a mx k dst off] bytes found n(1) by auto
  next
    case more
    have "copyinstr_loop pt dst off srcva mx s =
        copyinstr_loop pt (overwrite dst off n (mem_read ?m a)) (off + n) (PGROUNDDOWN srcva + PGSIZE) (mx - n) s"
      using step more scan_spec [OF n(2), of ?m a dst off] by auto
    moreover have "\<exists>r d. copyinstr_loop pt (overwrite dst off n (mem_read ?m a)) (off + n)
        (PGROUNDDOWN srcva + PGSIZE) (mx - n) s = Ok (r, d) s \<and>
        fetched ?m pt (overwrite dst off n (mem_read ?m a)) (off + n) (srcva + of_nat n) (mx - n) r d"
    proof (cases "n < mx")
      case True
      then show ?thesis
        using less.IH [of "mx - n"] next_page [of srcva mx] pos more(1) by (simp add: n_def [symmetric])
    next
      case False
      then show ?thesis
        by (subst copyinstr_loop.simps) (simp add: run_simps fetched_def)
    qed
    ultimately show ?thesis
      using fetched_later [of n ?m pt srcva a mx dst off] bytes more n(1) by metis
  qed
qed

section \<open>Properties\<close>

text \<open>C26. Reading user memory is safe for every address and length: \<open>copyin\<close> never panics and
  changes no state. If every byte of the range is user-accessible it returns 0 with exactly
  those bytes; otherwise it returns -1. Bytes of the destination beyond the length are
  untouched.\<close>

theorem copyin_total:
  "\<exists>r d. copyin pt dst srcva len s = Ok (r, d) s \<and> (\<forall>x\<ge>len. d x = dst x) \<and>
     (if \<forall>i<len. ubyte (k_mem s) pt (srcva + of_nat i) \<noteq> None
      then r = 0 \<and> (\<forall>i<len. ubyte (k_mem s) pt (srcva + of_nat i) = Some (d i))
      else r = - 1)"
proof -
  obtain r d where "copyin_loop pt dst 0 srcva len s = Ok (r, d) s" and "\<forall>x\<ge>len. d x = dst x"
    and "if \<forall>i<len. uva (k_mem s) pt (srcva + of_nat i) \<noteq> None
      then r = 0 \<and> (\<forall>i<len. d i = k_mem s (the (uva (k_mem s) pt (srcva + of_nat i))))
      else r = - 1"
    using copyin_loop_total [of pt dst 0 srcva len s] unfolding add_0 by blast
  then show ?thesis
    by (intro exI [of _ r] exI [of _ d]) (auto simp: copyin_def ubyte_def split: if_splits)
qed

definition demo_user :: kstate where
  "demo_user = zero_state\<lparr>k_mem :=
     mem_write (st64 (st64 (st64 (\<lambda>_. 0) 0x80040000 0x20010401) 0x80041000 0x20010801)
       0x80042000 0x20010C1F) 0x80043000 4 (of_bytes [104, 105, 0, 33])\<rparr>"

lemma demo_user_entries:
  "ld64 (k_mem demo_user) 0x80040000 = 0x20010401" "ld64 (k_mem demo_user) 0x80041000 = 0x20010801"
  "ld64 (k_mem demo_user) 0x80042000 = 0x20010C1F"
  unfolding demo_user_def
  by (simp_all add: ld64_mem_write_other ld64_st64_other)

lemma demo_user_page: "upage (k_mem demo_user) 0x80040000 0 = 0x80043000"
  by (simp add: upage_def walk_pure_def PX_def PTE2PA_def demo_user_entries Let_def)

lemma demo_user_bytes:
  "i < 4 \<Longrightarrow> ubyte (k_mem demo_user) 0x80040000 (of_nat i) = Some ([104, 105, 0, 33] ! i)"
proof -
  assume i: "i < 4"
  have "uva (k_mem demo_user) 0x80040000 (0 + of_nat i) = Some (0x80043000 + of_nat i)"
    using uva_same_page [of i 0 4] i demo_user_page by (simp add: page_part_def PGROUNDDOWN_def)
  moreover have "k_mem demo_user (0x80043000 + of_nat i) = [104, 105, 0, 33] ! i"
    using i by (simp add: demo_user_def mem_write_at of_bytes_def)
  ultimately show ?thesis
    by (simp add: ubyte_def)
qed

lemma demo_user_uva: "i < 2 \<Longrightarrow> uva (k_mem demo_user) 0x80040000 (0 + of_nat i) = Some (0x80043000 + of_nat i)"
  using uva_same_page [of i 0 2] demo_user_page by (simp add: page_part_def PGROUNDDOWN_def)

lemma demo_user_private: "pt_private (k_mem demo_user) 0x80040000 0 2"
  unfolding pt_private_def
proof (intro allI impI)
  fix m' i
  assume same: "\<forall>x. (\<forall>i<2. uva (k_mem demo_user) 0x80040000 (0 + of_nat i) \<noteq> Some x) \<longrightarrow> m' x = (k_mem demo_user) x" and i: "i < (2 :: nat)"
  have agree: "m' x = (k_mem demo_user) x" if "x \<noteq> 0x80043000" "x \<noteq> 0x80043001" for x
    using spec [OF same, of x] demo_user_uva [of 0] demo_user_uva [of 1] that by (auto simp: less_2_cases_iff)
  have ld: "ld64 m' p = ld64 (k_mem demo_user) p" if p: "p \<in> {0x80040000, 0x80041000, 0x80042000}" for p
  proof -
    have "mem_read m' p k = mem_read (k_mem demo_user) p k" if "k < 8" for k
    proof -
      have "unat (p + of_nat k) < unat (0x80043000 :: u64)"
        using p that by (auto simp: unat_word_ariths unat_of_nat)
      then show ?thesis
        unfolding mem_read_def by (intro agree) auto
    qed
    then have "le_nat 8 (mem_read m' p) = le_nat 8 (mem_read (k_mem demo_user) p)"
      by (rule le_nat_cong)
    then show ?thesis
      by (simp add: ld64_def)
  qed
  have "upage m' 0x80040000 0 = 0x80043000"
    by (simp add: upage_def walk_pure_def PX_def PTE2PA_def ld demo_user_entries Let_def)
  then have "uva m' 0x80040000 (0 + of_nat i) = Some (0x80043000 + of_nat i)"
    using uva_same_page [of i 0 2] i by (simp add: page_part_def PGROUNDDOWN_def)
  then show "uva m' 0x80040000 (0 + of_nat i) = uva (k_mem demo_user) 0x80040000 (0 + of_nat i)"
    using demo_user_uva [OF i] by simp
qed

lemma demo_user_distinct: "frames_distinct (k_mem demo_user) 0x80040000 0 2"
  using demo_user_uva by (auto simp: frames_distinct_def less_2_cases_iff)

theorem copyin_total_witness:
  "\<exists>d. copyin 0x80040000 (\<lambda>_. 0) 0 4 demo_user = Ok (0, d) demo_user \<and> d 1 = 105"
proof -
  have all: "\<forall>i<4. ubyte (k_mem demo_user) 0x80040000 (0 + of_nat i) \<noteq> None"
    using demo_user_bytes by simp
  then obtain d where "copyin 0x80040000 (\<lambda>_. 0) 0 4 demo_user = Ok (0, d) demo_user"
    and "\<forall>i<4. ubyte (k_mem demo_user) 0x80040000 (0 + of_nat i) = Some (d i)"
    using copyin_total [of "0x80040000" "\<lambda>_. 0" 0 4 demo_user] unfolding if_P [OF all] by blast
  then show ?thesis
    using demo_user_bytes [of 1] by (auto dest!: spec [of _ 1])
qed

text \<open>C27. Round trip through user memory: when the page-table entries of the range are not themselves
  bytes of the range and these bytes lie at distinct physical addresses, a \<open>copyout\<close> that returns 0
  followed by a \<open>copyin\<close> from the same address gives the bytes back; and \<open>copyout\<close> changes
  no byte of memory outside the range.\<close>

theorem copyout_copyin:
  assumes "pt_private (k_mem s) pt va len" and "frames_distinct (k_mem s) pt va len"
    and "copyout pt va src len s = Ok 0 t"
  shows "\<exists>d. copyin pt dst va len t = Ok (0, d) t \<and> (\<forall>i<len. d i = src i) \<and>
    (\<forall>x. (\<forall>i<len. uva (k_mem s) pt (va + of_nat i) \<noteq> Some x) \<longrightarrow> k_mem t x = k_mem s x)"
proof -
  obtain m' where t: "t = s\<lparr>k_mem := m'\<rparr>" and "delivered (k_mem s) pt va src len 0 m'"
    using copyout_total [OF assms(1), of src] assms(3) by auto
  then have out: "\<And>x. (\<forall>i<len. uva (k_mem s) pt (va + of_nat i) \<noteq> Some x) \<Longrightarrow> m' x = k_mem s x"
    and all: "\<forall>i<len. uva (k_mem s) pt (va + of_nat i) \<noteq> None"
    and data: "\<forall>i<len. m' (the (uva (k_mem s) pt (va + of_nat i))) = src i"
    using assms(2) by (auto simp: delivered_def split: if_splits)
  have same: "uva m' pt (va + of_nat i) = uva (k_mem s) pt (va + of_nat i)" if "i < len" for i
    using pt_private_same [OF assms(1), of m' i] out that by blast
  have "\<forall>i<len. uva (k_mem t) pt (va + of_nat i) \<noteq> None"
    using all same by (simp add: t)
  then obtain d where "copyin_loop pt dst 0 va len t = Ok (0, d) t"
    and "\<forall>i<len. d i = m' (the (uva m' pt (va + of_nat i)))"
    using copyin_loop_total [of pt dst 0 va len t] by (auto simp: t)
  then show ?thesis
    using data out same by (auto simp: copyin_def t)
qed

theorem copyout_copyin_witness:
  "\<exists>t d. copyout 0x80040000 0 (of_bytes [7, 8]) 2 demo_user = Ok 0 t \<and>
     copyin 0x80040000 (\<lambda>_. 0) 0 2 t = Ok (0, d) t \<and> d 1 = 8"
proof -
  obtain t where t: "copyout 0x80040000 0 (of_bytes [7, 8]) 2 demo_user = Ok 0 t"
    using copyout_total [OF demo_user_private, of "of_bytes [7, 8]"] demo_user_uva by (auto simp: delivered_def)
  then show ?thesis
    using copyout_copyin [OF demo_user_private demo_user_distinct t, of "\<lambda>_. 0"] by (auto simp: of_bytes_def)
qed

text \<open>C28. \<open>copyinstr\<close> is total for every user address: it returns 0 exactly when the user's string
  ends within \<open>max\<close> accessible bytes, and then the destination holds the string with its
  terminator; otherwise it returns -1. It never writes beyond \<open>max\<close> bytes.\<close>

theorem copyinstr_fetches:
  "\<exists>r d. copyinstr pt dst srcva mx s = Ok (r, d) s \<and> (\<forall>x\<ge>mx. d x = dst x) \<and>
     (if \<exists>k<mx. string_end (k_mem s) pt srcva k
      then r = 0 \<and> (\<forall>k i. string_end (k_mem s) pt srcva k \<longrightarrow> i \<le> k \<longrightarrow>
        ubyte (k_mem s) pt (srcva + of_nat i) = Some (d i))
      else r = - 1)"
  using copyinstr_loop_total [of pt dst 0 srcva mx s]
  unfolding copyinstr_def fetched_def add_0 by blast

theorem copyinstr_fetches_witness:
  "\<exists>d. copyinstr 0x80040000 (\<lambda>_. 7) 0 4 demo_user = Ok (0, d) demo_user \<and> d 0 = 104 \<and> d 2 = 0"
proof -
  have two: "string_end (k_mem demo_user) 0x80040000 0 2"
    using demo_user_bytes [of 0] demo_user_bytes [of 1] demo_user_bytes [of 2]
    by (auto simp: string_end_def less_2_cases_iff)
  then have some: "\<exists>k<4. string_end (k_mem demo_user) 0x80040000 0 k"
    by (intro exI [of _ 2]) simp
  obtain d where "copyinstr 0x80040000 (\<lambda>_. 7) 0 4 demo_user = Ok (0, d) demo_user"
    and "\<And>k i. string_end (k_mem demo_user) 0x80040000 0 k \<Longrightarrow> i \<le> k \<Longrightarrow>
      ubyte (k_mem demo_user) 0x80040000 (0 + of_nat i) = Some (d i)"
    using copyinstr_fetches [of "0x80040000" "\<lambda>_. 7" 0 4 demo_user] unfolding if_P [OF some] by blast
  note d = this
  show ?thesis
    using d(1) d(2) [OF two, of 0] d(2) [OF two, of 2] demo_user_bytes [of 0] demo_user_bytes [of 2]
    by auto
qed

end
