(* ===== verification/Xv6_Sleeplock.thy ===== *)
theory Xv6_Sleeplock
  imports Xv6_Copy
begin

text \<open>
  \<open>kernel/sleeplock.c\<close>: locks that are held across sleeping. A sleep-lock has a spin-lock of
  its own and is itself the channel its waiters sleep on.
\<close>

definition sl_spin :: "sleepid \<Rightarrow> lockid" where
  "sl_spin lk = (case lk of BufSleep i \<Rightarrow> BufSpin i | InodeSleep i \<Rightarrow> InodeSpin i)"

definition sl_chan :: "sleepid \<Rightarrow> chan" where
  "sl_chan lk = (case lk of BufSleep i \<Rightarrow> ChBufLock i | InodeSleep i \<Rightarrow> ChInodeLock i)"

definition initsleeplock :: "sleepid \<Rightarrow> string \<Rightarrow> unit k" where
  "initsleeplock lk name =
     seq (initlock (sl_spin lk) ''sleep lock'')
     (modify (upd_slock lk (\<lambda>_. \<lparr>sk_locked = False, sk_name = name, sk_pid = 0\<rparr>)))"

text \<open>The loop, entered with the spin-lock held; also where a woken waiter goes on.\<close>

definition acquiresleep_loop :: "sleepid \<Rightarrow> unit k" where
  "acquiresleep_loop lk =
     bind (gets (\<lambda>s. sk_locked (k_slocks s lk))) (\<lambda>locked.
     if locked then sleep (sl_chan lk) (sl_spin lk)
     else
       seq (modify (upd_slock lk (\<lambda>l. l\<lparr>sk_locked := True\<rparr>))) (
       bind myproc (\<lambda>pp.
       bind (deref pp) (\<lambda>p.
       seq (modify (\<lambda>s. upd_slock lk (\<lambda>l. l\<lparr>sk_pid := p_pid (k_procs s p)\<rparr>) s))
       (release (sl_spin lk))))))"

definition acquiresleep :: "sleepid \<Rightarrow> unit k" where
  "acquiresleep lk = seq (acquire (sl_spin lk)) (acquiresleep_loop lk)"

definition acquiresleep_wake :: "sleepid \<Rightarrow> nat \<Rightarrow> bool \<Rightarrow> unit k" where
  "acquiresleep_wake lk p intena =
     seq (sleep_return p (sl_spin lk) intena) (acquiresleep_loop lk)"

definition releasesleep :: "sleepid \<Rightarrow> unit k" where
  "releasesleep lk = block [
     acquire (sl_spin lk),
     modify (upd_slock lk (\<lambda>l. l\<lparr>sk_locked := False\<rparr>)),
     modify (upd_slock lk (\<lambda>l. l\<lparr>sk_pid := 0\<rparr>)),
     wakeup (sl_chan lk),
     release (sl_spin lk)]"

definition holdingsleep :: "sleepid \<Rightarrow> bool k" where
  "holdingsleep lk =
     seq (acquire (sl_spin lk)) (
     bind (gets (\<lambda>s. sk_locked (k_slocks s lk))) (\<lambda>locked.
     bind (if locked then bind myproc (\<lambda>pp. bind (deref pp) (\<lambda>p.
             gets (\<lambda>s. sk_pid (k_slocks s lk) = p_pid (k_procs s p))))
           else return False) (\<lambda>r.
     seq (release (sl_spin lk)) (return r))))"

section \<open>A process that holds no spin-lock\<close>

text \<open>
  Process \<open>p\<close> runs on this CPU, outside every critical section, and no other CPU is inside one.
  An operation run from such a state meets no contention, so its effect can be given exactly.
\<close>

definition quiet :: "nat \<Rightarrow> kstate \<Rightarrow> bool" where
  "quiet p s \<longleftrightarrow> calm s \<and> running p s \<and> (\<forall>lk. lock_free lk s)"

lemma quietD:
  assumes "quiet p s"
  shows "calm s" and "running p s" and "lock_free lk s"
  using assms by (simp_all add: quiet_def)

lemma quiet_cong:
  "k_cpus t = k_cpus s \<Longrightarrow> k_hart t = k_hart s \<Longrightarrow> k_locks t = k_locks s \<Longrightarrow> k_started t = k_started s \<Longrightarrow>
     quiet p t = quiet p s"
  by (simp add: quiet_def calm_def running_def lock_free_def)

lemma quiet_upd [simp]:
  "quiet p (upd_proc i f1 s) = quiet p s" "quiet p (upd_cont i f2 s) = quiet p s"
  "quiet p (upd_buf i f3 s) = quiet p s" "quiet p (upd_inode i f4 s) = quiet p s"
  "quiet p (upd_file i f5 s) = quiet p s" "quiet p (upd_pipe a f6 s) = quiet p s"
  "quiet p (upd_slock lk f7 s) = quiet p s"
  by (rule quiet_cong; simp add: upd_defs)+

lemma quiet_fields [simp]:
  "quiet p (s\<lparr>k_procs := v1\<rparr>) = quiet p s" "quiet p (s\<lparr>k_disk := v2\<rparr>) = quiet p s"
  "quiet p (s\<lparr>k_dhist := v3\<rparr>) = quiet p s" "quiet p (s\<lparr>k_log := v4\<rparr>) = quiet p s"
  "quiet p (s\<lparr>k_kbuf := v5\<rparr>) = quiet p s" "quiet p (s\<lparr>k_sb := v6\<rparr>) = quiet p s"
  "quiet p (s\<lparr>k_ticks := v7\<rparr>) = quiet p s" "quiet p (s\<lparr>k_mem := v8\<rparr>) = quiet p s"
  "quiet p (s\<lparr>k_bufs := v9\<rparr>) = quiet p s" "quiet p (s\<lparr>k_inodes := v10\<rparr>) = quiet p s"
  by (rule quiet_cong; simp)+

text \<open>A critical section around a change that does not touch locks, run from a quiet state.\<close>

lemma acquire_quiet [run_simps]: "quiet p s \<Longrightarrow> acquire lk s = Ok () (locked_state lk s)"
  by (simp add: acquire_calm quietD)

lemma release_quiet: "quiet p s \<Longrightarrow> off_lock g \<Longrightarrow> release lk (g (locked_state lk s)) = Ok () (g s)"
  by (simp add: release_after quietD)

lemma myproc_quiet: "quiet p s \<Longrightarrow> myproc s = Ok (Ptr p) s"
  by (simp add: myproc_running quietD)

lemma myproc_quiet_locked: "quiet p s \<Longrightarrow> myproc (locked_state lk s) = Ok (Ptr p) (locked_state lk s)"
  by (simp add: myproc_running quietD)

text \<open>The state after a \<open>wakeup\<close>.\<close>

definition waked :: "chan \<Rightarrow> kstate \<Rightarrow> kstate" where
  "waked ch s = s\<lparr>k_procs := (\<lambda>p. if p < NPROC then woken ch (k_procs s p) else k_procs s p)\<rparr>"

lemma off_lock_waked [simp]: "off_lock (waked ch)"
  by (simp add: off_lock_def waked_def cong: if_cong)

lemma waked_fields [simp]:
  "k_slocks (waked ch s) = k_slocks s" "k_bufs (waked ch s) = k_bufs s" "k_disk (waked ch s) = k_disk s"
  "k_dhist (waked ch s) = k_dhist s" "k_log (waked ch s) = k_log s" "k_sb (waked ch s) = k_sb s"
  "k_inodes (waked ch s) = k_inodes s" "k_conts (waked ch s) = k_conts s" "k_mem (waked ch s) = k_mem s"
  "k_files (waked ch s) = k_files s" "k_pipes (waked ch s) = k_pipes s" "k_kbuf (waked ch s) = k_kbuf s"
  "k_consoles (waked ch s) = k_consoles s" "k_ticks (waked ch s) = k_ticks s"
  "k_hart (waked ch s) = k_hart s" "k_vdisk (waked ch s) = k_vdisk s"
  by (simp_all add: waked_def)

lemma waked_proc [simp]:
  "p_pid (k_procs (waked ch s) p) = p_pid (k_procs s p)"
  "p_pagetable (k_procs (waked ch s) p) = p_pagetable (k_procs s p)"
  "p_killed (k_procs (waked ch s) p) = p_killed (k_procs s p)"
  "p_container (k_procs (waked ch s) p) = p_container (k_procs s p)"
  "p_cwd (k_procs (waked ch s) p) = p_cwd (k_procs s p)"
  "p_ofile (k_procs (waked ch s) p) = p_ofile (k_procs s p)"
  by (simp_all add: waked_def woken_def)

lemma quiet_waked [simp]: "quiet p (waked ch s) = quiet p s"
  by (simp add: waked_def)

lemma wakeup_quiet_locked:
  assumes "quiet p s" and "\<And>q. lk \<noteq> ProcLock q" and "off_lock g"
  shows "wakeup ch (g (locked_state lk s)) = Ok () (waked ch (g (locked_state lk s)))"
  using assms
  by (subst wakeup_apply) (simp_all add: waked_def off_lock_calm off_lock_free quietD not_sym)

section \<open>Sleep-locks without contention\<close>

lemma sl_spin_not_proc [simp]: "sl_spin lk \<noteq> ProcLock q" "ProcLock q \<noteq> sl_spin lk"
  by (simp_all add: sl_spin_def split: sleepid.splits)

definition sl_taken :: "nat \<Rightarrow> sleepid \<Rightarrow> kstate \<Rightarrow> kstate" where
  "sl_taken p lk s = upd_slock lk (\<lambda>l. l\<lparr>sk_locked := True, sk_pid := p_pid (k_procs s p)\<rparr>) s"

definition sl_dropped :: "sleepid \<Rightarrow> kstate \<Rightarrow> kstate" where
  "sl_dropped lk s = waked (sl_chan lk) (upd_slock lk (\<lambda>l. l\<lparr>sk_locked := False, sk_pid := 0\<rparr>) s)"

lemma off_lock_sl [simp]: "off_lock (sl_taken p lk)" "off_lock (sl_dropped lk)"
  by (simp_all add: off_lock_def sl_taken_def sl_dropped_def waked_def upd_slock_def cong: if_cong)

lemma acquiresleep_quiet:
  assumes "quiet p s" and "\<not> sk_locked (k_slocks s lk)"
  shows "acquiresleep lk s = Ok () (sl_taken p lk s)"
proof -
  have g: "off_lock (upd_slock lk (\<lambda>l. l\<lparr>sk_locked := True\<rparr>))"
    by simp
  have pid: "p_pid (k_procs (upd_slock lk (\<lambda>l. l\<lparr>sk_locked := True\<rparr>) (locked_state (sl_spin lk) s)) p) = p_pid (k_procs s p)"
    by (simp add: upd_slock_def)
  have my: "myproc (upd_slock lk (\<lambda>l. l\<lparr>sk_locked := True\<rparr>) (locked_state (sl_spin lk) s)) =
      Ok (Ptr p) (upd_slock lk (\<lambda>l. l\<lparr>sk_locked := True\<rparr>) (locked_state (sl_spin lk) s))"
    using assms(1)
    by (intro myproc_running) (simp_all add: off_lock_calm [OF g] quietD, simp add: running_def upd_slock_def quiet_def)
  have end_state: "upd_slock lk (\<lambda>l. l\<lparr>sk_pid := p_pid (k_procs s p)\<rparr>)
      (upd_slock lk (\<lambda>l. l\<lparr>sk_locked := True\<rparr>) (locked_state (sl_spin lk) s)) =
      sl_taken p lk (locked_state (sl_spin lk) s)"
    by (simp add: sl_taken_def upd_slock_def)
  show ?thesis
    using assms release_quiet [OF assms(1), of "sl_taken p lk" "sl_spin lk"]
    by (simp add: acquiresleep_def acquiresleep_loop_def run_simps my pid end_state)
qed

lemma holdingsleep_quiet:
  assumes "quiet p s"
  shows "holdingsleep lk s = Ok (sk_locked (k_slocks s lk) \<and> sk_pid (k_slocks s lk) = p_pid (k_procs s p)) s"
  using assms
  by (cases "sk_locked (k_slocks s lk)")
    (simp_all add: holdingsleep_def run_simps myproc_quiet_locked quietD)

lemma releasesleep_quiet:
  assumes "quiet p s"
  shows "releasesleep lk s = Ok () (sl_dropped lk s)"
proof -
  let ?g = "upd_slock lk (\<lambda>l. l\<lparr>sk_locked := False, sk_pid := 0\<rparr>)"
  have "upd_slock lk (\<lambda>l. l\<lparr>sk_pid := 0\<rparr>) (upd_slock lk (\<lambda>l. l\<lparr>sk_locked := False\<rparr>) t) = ?g t" for t :: kstate
    by (simp add: upd_slock_def)
  then show ?thesis
    using assms wakeup_quiet_locked [OF assms, of "sl_spin lk" ?g "sl_chan lk"]
      release_quiet [OF assms, of "sl_dropped lk" "sl_spin lk"]
    by (simp add: releasesleep_def run_simps sl_dropped_def)
qed

end
