(* ===== verification/Xv6_Bio.thy ===== *)
theory Xv6_Bio
  imports Xv6_Sleeplock
begin

text \<open>
  \<open>kernel/bio.c\<close>: the buffer cache. The buffers form a ring through \<open>prev\<close> and \<open>next\<close> whose
  head is element \<open>NBUF\<close> of \<open>k_bufs\<close>; a walk over it that does not come back to the head within
  \<open>NBUF + 1\<close> steps never does. \<open>disk_rw\<close> is the disk as the callers of \<open>virtio_disk_rw\<close> see
  it: the call comes back when the device has done the transfer.
\<close>

section \<open>Definitions\<close>

definition disk_rw :: "nat \<Rightarrow> bool \<Rightarrow> unit k" where
  "disk_rw b write = modify (\<lambda>s.
     let n = b_blockno (k_bufs s b) in
     if write then s\<lparr>k_disk := (k_disk s)(n := b_data (k_bufs s b)),
                     k_dhist := k_dhist s @ [(n, b_data (k_bufs s b))]\<rparr>
     else upd_buf b (\<lambda>bf. bf\<lparr>b_data := k_disk s n\<rparr>) s)"

definition binit :: "unit k" where
  "binit =
     seq (initlock BcacheLock ''bcache'') (
     seq (modify (upd_buf NBUF (\<lambda>h. h\<lparr>b_prev := NBUF, b_next := NBUF\<rparr>)))
     (for_each [0..<NBUF] (\<lambda>b. block [
        modify (\<lambda>s. upd_buf b (\<lambda>bf. bf\<lparr>b_next := b_next (k_bufs s NBUF)\<rparr>) s),
        modify (upd_buf b (\<lambda>bf. bf\<lparr>b_prev := NBUF\<rparr>)),
        initsleeplock (BufSleep b) ''buffer'',
        modify (\<lambda>s. upd_buf (b_next (k_bufs s NBUF)) (\<lambda>bf. bf\<lparr>b_prev := b\<rparr>) s),
        modify (upd_buf NBUF (\<lambda>h. h\<lparr>b_next := b\<rparr>))])))"

definition bget_cached :: "u32 \<Rightarrow> u32 \<Rightarrow> nat option k" where
  "bget_cached dev blockno =
     bind (gets (\<lambda>s. b_next (k_bufs s NBUF))) (\<lambda>b0.
     loop (NBUF + 1) (\<lambda>b.
       if b = NBUF then return (Inr None)
       else bind (gets (\<lambda>s. k_bufs s b)) (\<lambda>bf.
         if b_dev bf = dev \<and> b_blockno bf = blockno then return (Inr (Some b))
         else return (Inl (b_next bf)))) b0)"

definition bget_unused :: "nat option k" where
  "bget_unused =
     bind (gets (\<lambda>s. b_prev (k_bufs s NBUF))) (\<lambda>b0.
     loop (NBUF + 1) (\<lambda>b.
       if b = NBUF then return (Inr None)
       else bind (gets (\<lambda>s. k_bufs s b)) (\<lambda>bf.
         if b_refcnt bf = 0 then return (Inr (Some b)) else return (Inl (b_prev bf)))) b0)"

definition bget :: "u32 \<Rightarrow> u32 \<Rightarrow> nat k" where
  "bget dev blockno =
     seq (acquire BcacheLock) (
     bind (bget_cached dev blockno) (\<lambda>r.
     case r of
       Some b \<Rightarrow>
         seq (modify (upd_buf b (\<lambda>bf. bf\<lparr>b_refcnt := b_refcnt bf + 1\<rparr>))) (
         seq (release BcacheLock) (
         seq (acquiresleep (BufSleep b)) (return b)))
     | None \<Rightarrow>
         bind bget_unused (\<lambda>r.
         case r of
           Some b \<Rightarrow>
             seq (modify (upd_buf b (\<lambda>bf. bf\<lparr>b_dev := dev, b_blockno := blockno, b_valid := False, b_refcnt := 1\<rparr>))) (
             seq (release BcacheLock) (
             seq (acquiresleep (BufSleep b)) (return b)))
         | None \<Rightarrow> panic ''bget: no buffers'')))"

definition bread :: "u32 \<Rightarrow> u32 \<Rightarrow> nat k" where
  "bread dev blockno =
     bind (bget dev blockno) (\<lambda>b.
     bind (gets (\<lambda>s. b_valid (k_bufs s b))) (\<lambda>valid.
     seq (do_when (\<not> valid)
       (seq (disk_rw b False) (modify (upd_buf b (\<lambda>bf. bf\<lparr>b_valid := True\<rparr>)))))
     (return b)))"

definition bwrite :: "nat \<Rightarrow> unit k" where
  "bwrite b =
     bind (holdingsleep (BufSleep b)) (\<lambda>h.
     if \<not> h then panic ''bwrite'' else disk_rw b True)"

text \<open>Moving a buffer to the front of the ring.\<close>

definition bmru :: "nat \<Rightarrow> unit k" where
  "bmru b = block [
     modify (\<lambda>s. upd_buf (b_next (k_bufs s b)) (\<lambda>bf. bf\<lparr>b_prev := b_prev (k_bufs s b)\<rparr>) s),
     modify (\<lambda>s. upd_buf (b_prev (k_bufs s b)) (\<lambda>bf. bf\<lparr>b_next := b_next (k_bufs s b)\<rparr>) s),
     modify (\<lambda>s. upd_buf b (\<lambda>bf. bf\<lparr>b_next := b_next (k_bufs s NBUF)\<rparr>) s),
     modify (upd_buf b (\<lambda>bf. bf\<lparr>b_prev := NBUF\<rparr>)),
     modify (\<lambda>s. upd_buf (b_next (k_bufs s NBUF)) (\<lambda>bf. bf\<lparr>b_prev := b\<rparr>) s),
     modify (upd_buf NBUF (\<lambda>h. h\<lparr>b_next := b\<rparr>))]"

definition brelse :: "nat \<Rightarrow> unit k" where
  "brelse b =
     bind (holdingsleep (BufSleep b)) (\<lambda>h.
     if \<not> h then panic ''brelse''
     else
       seq (releasesleep (BufSleep b)) (
       seq (acquire BcacheLock) (
       seq (modify (upd_buf b (\<lambda>bf. bf\<lparr>b_refcnt := b_refcnt bf - 1\<rparr>))) (
       bind (gets (\<lambda>s. b_refcnt (k_bufs s b))) (\<lambda>refcnt.
       seq (do_when (refcnt = 0) (bmru b))
       (release BcacheLock))))))"

definition bpin :: "nat \<Rightarrow> unit k" where
  "bpin b = block [
     acquire BcacheLock,
     modify (upd_buf b (\<lambda>bf. bf\<lparr>b_refcnt := b_refcnt bf + 1\<rparr>)),
     release BcacheLock]"

definition bunpin :: "nat \<Rightarrow> unit k" where
  "bunpin b = block [
     acquire BcacheLock,
     modify (upd_buf b (\<lambda>bf. bf\<lparr>b_refcnt := b_refcnt bf - 1\<rparr>)),
     release BcacheLock]"

section \<open>The ring\<close>

text \<open>
  \<open>linked bufs a xs z\<close>: following \<open>next\<close> from \<open>a\<close> one meets \<open>xs\<close> and then \<open>z\<close>, and following
  \<open>prev\<close> from \<open>z\<close> the same in reverse.
\<close>

primrec linked :: "(nat \<Rightarrow> buf) \<Rightarrow> nat \<Rightarrow> nat list \<Rightarrow> nat \<Rightarrow> bool" where
  "linked bufs a [] z \<longleftrightarrow> b_next (bufs a) = z \<and> b_prev (bufs z) = a"
| "linked bufs a (x # xs) z \<longleftrightarrow> b_next (bufs a) = x \<and> b_prev (bufs x) = a \<and> linked bufs x xs z"

definition ring :: "(nat \<Rightarrow> buf) \<Rightarrow> nat list \<Rightarrow> bool" where
  "ring bufs xs \<longleftrightarrow> linked bufs NBUF xs NBUF \<and> distinct xs \<and> set xs = {0..<NBUF}"

lemma linked_append:
  "linked bufs a (xs @ y # ys) z \<longleftrightarrow> linked bufs a xs y \<and> linked bufs y ys z"
  by (induction xs arbitrary: a) auto

lemma linked_cong:
  "linked bufs a xs z \<Longrightarrow>
     (\<And>x. x = a \<or> x \<in> set xs \<Longrightarrow> b_next (bufs' x) = b_next (bufs x)) \<Longrightarrow>
     (\<And>x. x = z \<or> x \<in> set xs \<Longrightarrow> b_prev (bufs' x) = b_prev (bufs x)) \<Longrightarrow> linked bufs' a xs z"
  by (induction xs arbitrary: a) auto

text \<open>Taking an element out, and putting one in at the front.\<close>

definition unlinked :: "nat \<Rightarrow> (nat \<Rightarrow> buf) \<Rightarrow> nat \<Rightarrow> buf" where
  "unlinked b bufs =
     (let bufs1 = bufs(b_next (bufs b) := (bufs (b_next (bufs b)))\<lparr>b_prev := b_prev (bufs b)\<rparr>)
      in bufs1(b_prev (bufs1 b) := (bufs1 (b_prev (bufs1 b)))\<lparr>b_next := b_next (bufs1 b)\<rparr>))"

definition fronted :: "nat \<Rightarrow> (nat \<Rightarrow> buf) \<Rightarrow> nat \<Rightarrow> buf" where
  "fronted b bufs =
     (let bufs1 = bufs(b := (bufs b)\<lparr>b_next := b_next (bufs NBUF), b_prev := NBUF\<rparr>);
          bufs2 = bufs1(b_next (bufs1 NBUF) := (bufs1 (b_next (bufs1 NBUF)))\<lparr>b_prev := b\<rparr>)
      in bufs2(NBUF := (bufs2 NBUF)\<lparr>b_next := b\<rparr>))"

lemma linked_unlinked:
  assumes "linked bufs a (ys @ b # zs) z" and "distinct (ys @ b # zs)"
    and "a \<notin> set (ys @ b # zs)" and "z \<notin> set (ys @ b # zs)"
  shows "linked (unlinked b bufs) a (ys @ zs) z"
  using assms
proof (induction ys arbitrary: a)
  case Nil
  then have "b_prev (bufs b) = a" and "a \<noteq> b" and "z \<noteq> b"
    by auto
  show ?case
  proof (cases zs)
    case Nil
    then show ?thesis
      using \<open>linked bufs a ([] @ b # zs) z\<close> \<open>a \<noteq> b\<close> \<open>z \<noteq> b\<close> by (auto simp: unlinked_def Let_def)
  next
    case (Cons c cs)
    then have "linked bufs c cs z" and nb: "b_next (bufs b) = c" and "c \<noteq> b" and "a \<noteq> c"
      using Nil.prems by auto
    then have "linked (unlinked b bufs) c cs z"
      using Nil.prems Cons
      by (intro linked_cong [OF \<open>linked bufs c cs z\<close>]) (auto simp: unlinked_def Let_def)
    moreover have "b_next (unlinked b bufs a) = c" and "b_prev (unlinked b bufs c) = a"
      using nb \<open>b_prev (bufs b) = a\<close> \<open>a \<noteq> b\<close> \<open>c \<noteq> b\<close> \<open>a \<noteq> c\<close> by (simp_all add: unlinked_def Let_def)
    ultimately show ?thesis
      using Cons by simp
  qed
next
  case (Cons y ys)
  then have IH: "linked (unlinked b bufs) y (ys @ zs) z" by simp
  have pb: "b_prev (bufs b) \<noteq> a"
  proof -
    have "linked bufs y ys b"
      using Cons.prems(1) by (simp add: linked_append)
    then have "b_prev (bufs b) \<in> set (y # ys)"
      by (induction ys arbitrary: y) auto
    then show ?thesis using Cons.prems(3) by auto
  qed
  have nb: "b_next (bufs b) \<noteq> y" and "b \<noteq> y"
  proof -
    have "linked bufs b zs z"
      using Cons.prems(1) by (simp add: linked_append)
    then have "b_next (bufs b) = z \<or> b_next (bufs b) \<in> set zs"
      by (cases zs) auto
    then show "b_next (bufs b) \<noteq> y" and "b \<noteq> y" using Cons.prems(2,4) by auto
  qed
  have "b_next (bufs b) \<noteq> b"
  proof -
    have "linked bufs b zs z"
      using Cons.prems(1) by (simp add: linked_append)
    then show ?thesis using Cons.prems(2,4) by (cases zs) auto
  qed
  then have "b_next (unlinked b bufs a) = y" and "b_prev (unlinked b bufs y) = a"
    using Cons.prems(1) pb nb by (auto simp: unlinked_def Let_def)
  then show ?case
    using IH by simp
qed

lemma linked_fronted:
  assumes "linked bufs NBUF xs NBUF" and "b \<notin> set xs" and "b \<noteq> NBUF" and "distinct xs" and "NBUF \<notin> set xs"
  shows "linked (fronted b bufs) NBUF (b # xs) NBUF"
proof (cases xs)
  case Nil
  then show ?thesis using assms by (simp add: fronted_def Let_def)
next
  case (Cons c cs)
  then have "linked bufs c cs NBUF" and "c \<noteq> b" and "c \<noteq> NBUF"
    using assms by auto
  then have "linked (fronted b bufs) c cs NBUF"
    using assms Cons by (intro linked_cong [OF \<open>linked bufs c cs NBUF\<close>]) (auto simp: fronted_def Let_def)
  then show ?thesis
    using assms Cons \<open>c \<noteq> b\<close> \<open>c \<noteq> NBUF\<close> by simp (simp add: fronted_def Let_def)
qed

text \<open>\<open>bmru\<close> makes the buffer the most recently used one and keeps the order of the others.\<close>

lemma ring_bmru:
  assumes "ring bufs xs" and "b < NBUF"
  shows "ring (fronted b (unlinked b bufs)) (b # remove1 b xs)"
proof -
  obtain ys zs where xs: "xs = ys @ b # zs"
    using assms split_list [of b xs] by (auto simp: ring_def)
  then have rest: "remove1 b xs = ys @ zs" and out: "NBUF \<notin> set xs"
    using assms by (auto simp: ring_def remove1_append)
  have "linked (unlinked b bufs) NBUF (ys @ zs) NBUF"
    using assms(1) out xs by (intro linked_unlinked) (auto simp: ring_def)
  then have "linked (fronted b (unlinked b bufs)) NBUF (b # ys @ zs) NBUF"
    using assms out xs by (intro linked_fronted) (auto simp: ring_def)
  then show ?thesis
    using assms rest xs by (auto simp: ring_def)
qed

lemma bmru_apply: "bmru b s = Ok () (s\<lparr>k_bufs := fronted b (unlinked b (k_bufs s))\<rparr>)"
  by (simp add: bmru_def run_simps upd_buf_def fronted_def unlinked_def Let_def)

text \<open>The walks of \<open>bget\<close>.\<close>

lemma walk_next:
  "linked (k_bufs s) a xs NBUF \<Longrightarrow> NBUF \<notin> set xs \<Longrightarrow> length xs < n \<Longrightarrow>
   loop n (\<lambda>b.
       if b = NBUF then return (Inr None)
       else bind (gets (\<lambda>s. k_bufs s b)) (\<lambda>bf.
         if P bf then return (Inr (Some b)) else return (Inl (b_next bf)))) (b_next (k_bufs s a)) s =
   Ok (find (\<lambda>b. P (k_bufs s b)) xs) s"
proof (induction xs arbitrary: a n)
  case Nil
  then show ?case by (subst loop_unfold) (simp_all add: run_simps)
next
  case (Cons x xs)
  then show ?case
    by (subst loop_unfold) (auto simp: run_simps)
qed

lemma walk_prev:
  "linked (k_bufs s) NBUF xs z \<Longrightarrow> NBUF \<notin> set xs \<Longrightarrow> length xs < n \<Longrightarrow>
   loop n (\<lambda>b.
       if b = NBUF then return (Inr None)
       else bind (gets (\<lambda>s. k_bufs s b)) (\<lambda>bf.
         if P bf then return (Inr (Some b)) else return (Inl (b_prev bf)))) (b_prev (k_bufs s z)) s =
   Ok (find (\<lambda>b. P (k_bufs s b)) (rev xs)) s"
proof (induction xs arbitrary: z n rule: rev_induct)
  case Nil
  then show ?case by (subst loop_unfold) (simp_all add: run_simps)
next
  case (snoc x xs)
  then show ?case
    by (subst loop_unfold) (auto simp: run_simps linked_append)
qed

lemma bget_cached_apply:
  assumes "ring (k_bufs s) xs"
  shows "bget_cached dev n s =
    Ok (find (\<lambda>b. b_dev (k_bufs s b) = dev \<and> b_blockno (k_bufs s b) = n) xs) s"
proof -
  have len: "length xs = NBUF"
    using assms distinct_card [of xs] by (simp add: ring_def)
  then show ?thesis
    using assms walk_next [of s NBUF xs "NBUF + 1" "\<lambda>bf. b_dev bf = dev \<and> b_blockno bf = n"]
    by (simp add: bget_cached_def run_simps ring_def)
qed

lemma bget_unused_apply:
  assumes "ring (k_bufs s) xs"
  shows "bget_unused s = Ok (find (\<lambda>b. b_refcnt (k_bufs s b) = 0) (rev xs)) s"
proof -
  have len: "length xs = NBUF"
    using assms distinct_card [of xs] by (simp add: ring_def)
  then show ?thesis
    using assms walk_prev [of s xs NBUF "NBUF + 1" "\<lambda>bf. b_refcnt bf = 0"]
    by (simp add: bget_unused_def run_simps ring_def)
qed

end
