(* ===== verification/Xv6_Cache.thy ===== *)
theory Xv6_Cache
  imports Xv6_Bio
begin

text \<open>
  The contract of the buffer cache, as the interface the log relies on, and the proof that
  \<open>kernel/bio.c\<close> meets it: to its clients the cache is a map from block numbers to contents with
  reference counts and locks, whose writes reach the disk in order, and whose buffers in use
  are never recycled.
\<close>

section \<open>What the cache promises\<close>

text \<open>
  The cache as its clients see it, by block number of the one disk: the contents of the
  blocks, how many references each has, which are locked, by anyone or by the running
  process, what is on the disk, and the writes done so far. \<open>bv_rest\<close> is the state a client
  keeps elsewhere, which the cache leaves alone.
\<close>

record 'f bview =
  bv_content :: "u32 \<Rightarrow> bytes"
  bv_refs :: "u32 \<Rightarrow> nat"
  bv_taken :: "u32 \<Rightarrow> bool"
  bv_mine :: "u32 \<Rightarrow> bool"
  bv_disk :: "u32 \<Rightarrow> bytes"
  bv_hist :: "(u32 \<times> bytes) list"
  bv_rest :: 'f

definition seen_rd :: "u32 \<Rightarrow> 'f bview \<Rightarrow> 'f bview" where
  "seen_rd n v = v\<lparr>bv_refs := (bv_refs v)(n := bv_refs v n + 1), bv_taken := (bv_taken v)(n := True),
     bv_mine := (bv_mine v)(n := True)\<rparr>"

definition seen_put :: "u32 \<Rightarrow> bytes \<Rightarrow> 'f bview \<Rightarrow> 'f bview" where
  "seen_put n d v = v\<lparr>bv_content := (bv_content v)(n := d)\<rparr>"

definition seen_wr :: "u32 \<Rightarrow> 'f bview \<Rightarrow> 'f bview" where
  "seen_wr n v = v\<lparr>bv_disk := (bv_disk v)(n := bv_content v n), bv_hist := bv_hist v @ [(n, bv_content v n)]\<rparr>"

definition seen_rel :: "u32 \<Rightarrow> 'f bview \<Rightarrow> 'f bview" where
  "seen_rel n v = v\<lparr>bv_refs := (bv_refs v)(n := bv_refs v n - 1), bv_taken := (bv_taken v)(n := False),
     bv_mine := (bv_mine v)(n := False)\<rparr>"

definition seen_pin :: "u32 \<Rightarrow> 'f bview \<Rightarrow> 'f bview" where
  "seen_pin n v = v\<lparr>bv_refs := (bv_refs v)(n := bv_refs v n + 1)\<rparr>"

definition seen_unpin :: "u32 \<Rightarrow> 'f bview \<Rightarrow> 'f bview" where
  "seen_unpin n v = v\<lparr>bv_refs := (bv_refs v)(n := bv_refs v n - 1)\<rparr>"

lemmas seen_defs = seen_rd_def seen_put_def seen_wr_def seen_rel_def seen_pin_def seen_unpin_def

text \<open>How many blocks are in use.\<close>

definition in_use :: "'f bview \<Rightarrow> nat" where
  "in_use v = card {n. 0 < bv_refs v n}"

text \<open>
  The contract. \<open>bound s b n\<close> says that the client holds a reference to buffer \<open>b\<close>, which
  carries block \<open>n\<close>; bindings last until the last reference goes. Dropping a last reference
  asks for a block that agrees with the disk.
\<close>

locale buffer_cache =
  fixes inv :: "'s \<Rightarrow> bool"
    and view :: "'s \<Rightarrow> 'f bview"
    and bound :: "'s \<Rightarrow> 'b \<Rightarrow> u32 \<Rightarrow> bool"
    and dat :: "'s \<Rightarrow> 'b \<Rightarrow> bytes"
    and put :: "'b \<Rightarrow> bytes \<Rightarrow> 's \<Rightarrow> 's"
    and rd :: "u32 \<Rightarrow> ('s, 'b) kernel"
    and wr :: "'b \<Rightarrow> ('s, unit) kernel"
    and rel :: "'b \<Rightarrow> ('s, unit) kernel"
    and pin :: "'b \<Rightarrow> ('s, unit) kernel"
    and unpin :: "'b \<Rightarrow> ('s, unit) kernel"
    and slots :: nat
  assumes clean_law: "inv s \<Longrightarrow> bv_refs (view s) n = 0 \<Longrightarrow> bv_content (view s) n = bv_disk (view s) n"
    and mine_law: "bv_mine (view s) n \<Longrightarrow> bv_taken (view s) n"
    and dat_law: "inv s \<Longrightarrow> bound s b n \<Longrightarrow> dat s b = bv_content (view s) n"
    and rd_law: "inv s \<Longrightarrow> \<not> bv_taken (view s) n \<Longrightarrow> bv_refs (view s) n + 1 < 2 ^ 32 \<Longrightarrow>
      0 < bv_refs (view s) n \<or> in_use (view s) < slots \<Longrightarrow>
      \<exists>b t. rd n s = Ok b t \<and> inv t \<and> view t = seen_rd n (view s) \<and> bound t b n \<and>
        (\<forall>b' m. bound s b' m \<longrightarrow> bound t b' m)"
    and put_law: "inv s \<Longrightarrow> bound s b n \<Longrightarrow>
      inv (put b d s) \<and> view (put b d s) = seen_put n d (view s) \<and>
        (\<forall>b' m. bound s b' m \<longrightarrow> bound (put b d s) b' m)"
    and wr_law: "inv s \<Longrightarrow> bound s b n \<Longrightarrow> bv_mine (view s) n \<Longrightarrow>
      \<exists>t. wr b s = Ok () t \<and> inv t \<and> view t = seen_wr n (view s) \<and>
        (\<forall>b' m. bound s b' m \<longrightarrow> bound t b' m)"
    and rel_law: "inv s \<Longrightarrow> bound s b n \<Longrightarrow> bv_mine (view s) n \<Longrightarrow>
      1 < bv_refs (view s) n \<or> bv_content (view s) n = bv_disk (view s) n \<Longrightarrow>
      \<exists>t. rel b s = Ok () t \<and> inv t \<and> view t = seen_rel n (view s) \<and>
        (\<forall>b' m. bound s b' m \<longrightarrow> m \<noteq> n \<or> 1 < bv_refs (view s) n \<longrightarrow> bound t b' m)"
    and pin_law: "inv s \<Longrightarrow> bound s b n \<Longrightarrow> bv_refs (view s) n + 1 < 2 ^ 32 \<Longrightarrow>
      \<exists>t. pin b s = Ok () t \<and> inv t \<and> view t = seen_pin n (view s) \<and>
        (\<forall>b' m. bound s b' m \<longrightarrow> bound t b' m)"
    and unpin_law: "inv s \<Longrightarrow> bound s b n \<Longrightarrow> 1 < bv_refs (view s) n \<Longrightarrow>
      \<exists>t. unpin b s = Ok () t \<and> inv t \<and> view t = seen_unpin n (view s) \<and>
        (\<forall>b' m. bound s b' m \<longrightarrow> bound t b' m)"

section \<open>The contract holds\<close>

definition caches :: "(nat \<Rightarrow> buf) \<Rightarrow> nat \<Rightarrow> u32 \<Rightarrow> bool" where
  "caches bufs b n \<longleftrightarrow> b < NBUF \<and> b_dev (bufs b) = 1 \<and> b_blockno (bufs b) = n"

definition cached :: "(nat \<Rightarrow> buf) \<Rightarrow> u32 \<Rightarrow> nat option" where
  "cached bufs n = find (\<lambda>b. caches bufs b n) [0..<NBUF]"

definition cache_content :: "kstate \<Rightarrow> u32 \<Rightarrow> bytes" where
  "cache_content s n = (case cached (k_bufs s) n of None \<Rightarrow> k_disk s n
     | Some b \<Rightarrow> if b_valid (k_bufs s b) then b_data (k_bufs s b) else k_disk s n)"

definition cache_refs :: "kstate \<Rightarrow> u32 \<Rightarrow> nat" where
  "cache_refs s n = (case cached (k_bufs s) n of None \<Rightarrow> 0 | Some b \<Rightarrow> unat (b_refcnt (k_bufs s b)))"

definition cache_taken :: "kstate \<Rightarrow> u32 \<Rightarrow> bool" where
  "cache_taken s n = (case cached (k_bufs s) n of None \<Rightarrow> False | Some b \<Rightarrow> sk_locked (k_slocks s (BufSleep b)))"

definition cache_mine :: "nat \<Rightarrow> kstate \<Rightarrow> u32 \<Rightarrow> bool" where
  "cache_mine p s n = (case cached (k_bufs s) n of None \<Rightarrow> False
     | Some b \<Rightarrow> sk_locked (k_slocks s (BufSleep b)) \<and> sk_pid (k_slocks s (BufSleep b)) = p_pid (k_procs s p))"

text \<open>What the cache leaves alone: the other globals, and of a process all but its state.\<close>

type_synonym off_cache =
  "logst \<times> superblock \<times> (nat \<Rightarrow> inode) \<times> (nat \<Rightarrow> container) \<times> bytes \<times> memory \<times> (nat \<Rightarrow> kfile) \<times>
   (nat \<Rightarrow> int \<times> nat option \<times> nat option \<times> u64 \<times> (nat \<Rightarrow> nat option))"

definition off_cache :: "kstate \<Rightarrow> off_cache" where
  "off_cache s = (k_log s, k_sb s, k_inodes s, k_conts s, k_kbuf s, k_mem s, k_files s,
     \<lambda>q. (p_pid (k_procs s q), p_container (k_procs s q), p_cwd (k_procs s q),
       p_pagetable (k_procs s q), p_ofile (k_procs s q)))"

definition cache_view :: "nat \<Rightarrow> kstate \<Rightarrow> off_cache bview" where
  "cache_view p s = \<lparr>bv_content = cache_content s, bv_refs = cache_refs s, bv_taken = cache_taken s,
     bv_mine = cache_mine p s, bv_disk = k_disk s, bv_hist = k_dhist s, bv_rest = off_cache s\<rparr>"

definition uniq :: "(nat \<Rightarrow> buf) \<Rightarrow> bool" where
  "uniq bufs \<longleftrightarrow> (\<forall>n b b'. caches bufs b n \<longrightarrow> caches bufs b' n \<longrightarrow> b = b')"

text \<open>
  The invariant: no lock is contended, the buffers form a ring, no block is cached twice,
  buffers in use are valid buffers of the disk, and an unused one is unlocked and holds what
  the disk holds.
\<close>

definition buf_ok :: "kstate \<Rightarrow> nat \<Rightarrow> bool" where
  "buf_ok s b \<longleftrightarrow>
     (b_refcnt (k_bufs s b) = 0 \<longrightarrow> \<not> sk_locked (k_slocks s (BufSleep b)) \<and>
        (b_dev (k_bufs s b) = 1 \<and> b_valid (k_bufs s b) \<longrightarrow>
           b_data (k_bufs s b) = k_disk s (b_blockno (k_bufs s b)))) \<and>
     (b_refcnt (k_bufs s b) \<noteq> 0 \<longrightarrow> b_dev (k_bufs s b) = 1 \<and> b_valid (k_bufs s b))"

definition cache_ok :: "nat \<Rightarrow> kstate \<Rightarrow> bool" where
  "cache_ok p s \<longleftrightarrow> quiet p s \<and> (\<exists>xs. ring (k_bufs s) xs) \<and> uniq (k_bufs s) \<and> (\<forall>b<NBUF. buf_ok s b)"

definition cache_bound :: "kstate \<Rightarrow> nat \<Rightarrow> u32 \<Rightarrow> bool" where
  "cache_bound s b n \<longleftrightarrow> caches (k_bufs s) b n \<and> b_refcnt (k_bufs s b) \<noteq> 0"

lemma cached_caches: "cached bufs n = Some b \<Longrightarrow> caches bufs b n"
  unfolding cached_def by (drule find_upt_Some) simp

lemma cached_None: "cached bufs n = None \<longleftrightarrow> (\<forall>b. \<not> caches bufs b n)"
  unfolding cached_def find_upt_None by (auto simp: caches_def)

lemma cached_Some: "uniq bufs \<Longrightarrow> caches bufs b n \<Longrightarrow> cached bufs n = Some b"
  by (cases "cached bufs n") (auto simp: cached_None uniq_def dest: cached_caches)

lemma cached_cong:
  "(\<And>b. b < NBUF \<Longrightarrow> b_dev (bufs' b) = b_dev (bufs b) \<and> b_blockno (bufs' b) = b_blockno (bufs b)) \<Longrightarrow>
     cached bufs' = cached bufs"
  unfolding cached_def by (intro ext find_upt_cong) (auto simp: caches_def)

lemma caches_cong:
  "(\<And>b. b < NBUF \<Longrightarrow> b_dev (bufs' b) = b_dev (bufs b) \<and> b_blockno (bufs' b) = b_blockno (bufs b)) \<Longrightarrow>
     caches bufs' = caches bufs"
  by (intro ext) (auto simp: caches_def)

text \<open>An operation on a bound buffer that keeps every buffer's block.\<close>

lemma uniq_cong:
  assumes "\<And>b. b < NBUF \<Longrightarrow> b_dev (bufs' b) = b_dev (bufs b) \<and> b_blockno (bufs' b) = b_blockno (bufs b)"
  shows "uniq bufs' = uniq bufs"
proof -
  have "caches bufs' = caches bufs"
    using assms by (rule caches_cong)
  then show ?thesis by (simp add: uniq_def)
qed

lemma ring_cong:
  assumes "\<And>b. b_next (bufs' b) = b_next (bufs b)" and "\<And>b. b_prev (bufs' b) = b_prev (bufs b)"
  shows "ring bufs' xs = ring bufs xs"
proof -
  have "linked bufs' a xs z = linked bufs a xs z" for a z
    by (induction xs arbitrary: a) (simp_all add: assms)
  then show ?thesis by (simp add: ring_def)
qed

lemma upd_buf_at [simp]: "k_bufs (upd_buf b f s) b' = (if b' = b then f (k_bufs s b) else k_bufs s b')"
  by (simp add: upd_buf_def)

lemma upd_buf_fields [simp]:
  "k_slocks (upd_buf b f s) = k_slocks s" "k_disk (upd_buf b f s) = k_disk s"
  "k_dhist (upd_buf b f s) = k_dhist s" "k_procs (upd_buf b f s) = k_procs s"
  "k_log (upd_buf b f s) = k_log s" "k_sb (upd_buf b f s) = k_sb s"
  by (simp_all add: upd_buf_def)

lemma ring_upd [simp]:
  assumes "\<And>bf. b_next (f bf) = b_next bf" and "\<And>bf. b_prev (f bf) = b_prev bf"
  shows "ring (k_bufs (upd_buf b f s)) = ring (k_bufs s)"
  by (rule ext, rule ring_cong) (simp_all add: assms)

lemma cache_okD:
  assumes "cache_ok p s"
  shows "quiet p s" and "uniq (k_bufs s)" and "b < NBUF \<Longrightarrow> buf_ok s b"
  using assms by (simp_all add: cache_ok_def)

lemma bound_cached: "cache_ok p s \<Longrightarrow> cache_bound s b n \<Longrightarrow> cached (k_bufs s) n = Some b"
  by (simp add: cache_bound_def cached_Some cache_okD)

lemma boundD:
  assumes "cache_ok p s" and "cache_bound s b n"
  shows "b < NBUF" and "b_dev (k_bufs s b) = 1" and "b_blockno (k_bufs s b) = n"
    and "b_valid (k_bufs s b)" and "b_refcnt (k_bufs s b) \<noteq> 0"
    and "bv_refs (cache_view p s) n = unat (b_refcnt (k_bufs s b))"
    and "bv_content (cache_view p s) n = b_data (k_bufs s b)"
    and "bv_mine (cache_view p s) n \<longleftrightarrow> sk_locked (k_slocks s (BufSleep b)) \<and>
           sk_pid (k_slocks s (BufSleep b)) = p_pid (k_procs s p)"
proof -
  note b = assms(2) [unfolded cache_bound_def caches_def]
  show "b < NBUF" and "b_dev (k_bufs s b) = 1" and "b_blockno (k_bufs s b) = n"
    and "b_refcnt (k_bufs s b) \<noteq> 0"
    using b by simp_all
  show valid: "b_valid (k_bufs s b)"
    using cache_okD(3) [OF assms(1), of b] b by (simp add: buf_ok_def Let_def)
  show "bv_refs (cache_view p s) n = unat (b_refcnt (k_bufs s b))"
    and "bv_content (cache_view p s) n = b_data (k_bufs s b)"
    and "bv_mine (cache_view p s) n \<longleftrightarrow> sk_locked (k_slocks s (BufSleep b)) \<and>
           sk_pid (k_slocks s (BufSleep b)) = p_pid (k_procs s p)"
    using bound_cached [OF assms] valid
    by (simp_all add: cache_view_def cache_refs_def cache_content_def cache_mine_def)
qed

lemma cached_other: "cached bufs m = Some b \<Longrightarrow> b_blockno (bufs b) = n \<Longrightarrow> m = n"
  by (drule cached_caches) (simp add: caches_def)

text \<open>A change to one buffer that keeps its place in the ring and the block it carries.\<close>

lemma cached_upd_buf:
  "(\<And>bf. b_dev (f bf) = b_dev bf \<and> b_blockno (f bf) = b_blockno bf) \<Longrightarrow>
     cached (k_bufs (upd_buf b f s)) = cached (k_bufs s)"
  by (rule cached_cong) simp

lemma cache_ok_upd_buf:
  assumes "cache_ok p s"
    and "\<And>bf. b_dev (f bf) = b_dev bf \<and> b_blockno (f bf) = b_blockno bf"
    and "\<And>bf. b_next (f bf) = b_next bf \<and> b_prev (f bf) = b_prev bf"
    and "b < NBUF \<Longrightarrow> buf_ok (upd_buf b f s) b"
  shows "cache_ok p (upd_buf b f s)"
  unfolding cache_ok_def
proof (intro conjI allI impI)
  show "quiet p (upd_buf b f s)"
    using assms(1) by (simp add: cache_okD)
  show "\<exists>xs. ring (k_bufs (upd_buf b f s)) xs"
    using assms(1,3) by (simp add: cache_ok_def)
  show "uniq (k_bufs (upd_buf b f s))"
    using cache_okD(2) [OF assms(1)] assms(2) uniq_cong [of "k_bufs (upd_buf b f s)" "k_bufs s"]
    by simp
  show "buf_ok (upd_buf b f s) b'" if "b' < NBUF" for b'
    using assms(4) cache_okD(3) [OF assms(1), of b'] that by (cases "b' = b") (simp, simp add: buf_ok_def)
qed

lemma off_cache_upd_buf [simp]: "off_cache (upd_buf b f s) = off_cache s"
  by (simp add: off_cache_def upd_buf_def)

lemma cache_put:
  assumes "cache_ok p s" and "cache_bound s b n"
  shows "cache_ok p (upd_buf b (\<lambda>bf. bf\<lparr>b_data := d\<rparr>) s) \<and>
    cache_view p (upd_buf b (\<lambda>bf. bf\<lparr>b_data := d\<rparr>) s) = seen_put n d (cache_view p s) \<and>
    (\<forall>b' m. cache_bound s b' m \<longrightarrow> cache_bound (upd_buf b (\<lambda>bf. bf\<lparr>b_data := d\<rparr>) s) b' m)"
proof (intro conjI allI impI)
  let ?t = "upd_buf b (\<lambda>bf. bf\<lparr>b_data := d\<rparr>) s"
  note b = boundD [OF assms] and c = bound_cached [OF assms]
  show "cache_ok p ?t"
    using b(2,4,5) by (intro cache_ok_upd_buf [OF assms(1)]) (simp_all add: buf_ok_def)
  have same: "cached (k_bufs ?t) = cached (k_bufs s)"
    by (rule cached_upd_buf) simp
  have "cache_content ?t = (cache_content s)(n := d)"
  proof
    fix m
    show "cache_content ?t m = ((cache_content s)(n := d)) m"
      using b(3,4) c cached_other [of "k_bufs s" m b n]
      by (cases "m = n") (auto simp: cache_content_def same split: option.split)
  qed
  moreover have "cache_refs ?t = cache_refs s" "cache_taken ?t = cache_taken s" "cache_mine p ?t = cache_mine p s"
    by (rule ext, simp add: cache_refs_def cache_taken_def cache_mine_def same split: option.split)+
  moreover have "k_disk ?t = k_disk s" "k_dhist ?t = k_dhist s"
    by simp_all
  ultimately show "cache_view p ?t = seen_put n d (cache_view p s)"
    by (simp add: cache_view_def seen_put_def)
  show "cache_bound ?t b' m" if "cache_bound s b' m" for b' m
    using that by (auto simp: cache_bound_def caches_def)
qed

lemma cache_wr:
  assumes "cache_ok p s" and "cache_bound s b n" and "bv_mine (cache_view p s) n"
  shows "\<exists>t. bwrite b s = Ok () t \<and> cache_ok p t \<and> cache_view p t = seen_wr n (cache_view p s) \<and>
    (\<forall>b' m. cache_bound s b' m \<longrightarrow> cache_bound t b' m)"
proof (intro exI conjI allI impI)
  note b = boundD [OF assms(1,2)] and c = bound_cached [OF assms(1,2)]
  let ?t = "s\<lparr>k_disk := (k_disk s)(n := b_data (k_bufs s b)), k_dhist := k_dhist s @ [(n, b_data (k_bufs s b))]\<rparr>"
  show "bwrite b s = Ok () ?t"
    using assms(3) b by (simp add: bwrite_def run_simps holdingsleep_quiet [OF cache_okD(1) [OF assms(1)]] disk_rw_def Let_def)
  have other: "b_blockno (k_bufs s b') \<noteq> n" if "b' < NBUF" "b' \<noteq> b" "b_dev (k_bufs s b') = 1" for b'
    using cache_okD(2) [OF assms(1)] b that by (auto simp: uniq_def caches_def)
  show "cache_ok p ?t"
    using assms(1) other b(5) unfolding cache_ok_def buf_ok_def by auto
  have "cache_content ?t = cache_content s"
    using b(3,4) c by (auto simp: cache_content_def fun_eq_iff split: option.split)
  moreover have "cache_refs ?t = cache_refs s" "cache_taken ?t = cache_taken s" "cache_mine p ?t = cache_mine p s"
    by (rule ext, simp add: cache_refs_def cache_taken_def cache_mine_def split: option.split)+
  moreover have "off_cache ?t = off_cache s"
    by (simp add: off_cache_def)
  ultimately show "cache_view p ?t = seen_wr n (cache_view p s)"
    using b(7) by (simp add: cache_view_def seen_wr_def)
  show "cache_bound ?t b' m" if "cache_bound s b' m" for b' m
    using that by (simp add: cache_bound_def)
qed

text \<open>Moving a buffer in the ring changes links only.\<close>

lemma relink_core:
  "b_dev ((bufs(y := (bufs y)\<lparr>b_next := v\<rparr>)) x) = b_dev (bufs x)"
  "b_dev ((bufs(y := (bufs y)\<lparr>b_prev := v\<rparr>)) x) = b_dev (bufs x)"
  "b_blockno ((bufs(y := (bufs y)\<lparr>b_next := v\<rparr>)) x) = b_blockno (bufs x)"
  "b_blockno ((bufs(y := (bufs y)\<lparr>b_prev := v\<rparr>)) x) = b_blockno (bufs x)"
  "b_valid ((bufs(y := (bufs y)\<lparr>b_next := v\<rparr>)) x) = b_valid (bufs x)"
  "b_valid ((bufs(y := (bufs y)\<lparr>b_prev := v\<rparr>)) x) = b_valid (bufs x)"
  "b_refcnt ((bufs(y := (bufs y)\<lparr>b_next := v\<rparr>)) x) = b_refcnt (bufs x)"
  "b_refcnt ((bufs(y := (bufs y)\<lparr>b_prev := v\<rparr>)) x) = b_refcnt (bufs x)"
  "b_data ((bufs(y := (bufs y)\<lparr>b_next := v\<rparr>)) x) = b_data (bufs x)"
  "b_data ((bufs(y := (bufs y)\<lparr>b_prev := v\<rparr>)) x) = b_data (bufs x)"
  by simp_all

lemma relink_core2:
  "b_dev ((bufs(y := (bufs y)\<lparr>b_next := w, b_prev := v\<rparr>)) x) = b_dev (bufs x)"
  "b_blockno ((bufs(y := (bufs y)\<lparr>b_next := w, b_prev := v\<rparr>)) x) = b_blockno (bufs x)"
  "b_valid ((bufs(y := (bufs y)\<lparr>b_next := w, b_prev := v\<rparr>)) x) = b_valid (bufs x)"
  "b_refcnt ((bufs(y := (bufs y)\<lparr>b_next := w, b_prev := v\<rparr>)) x) = b_refcnt (bufs x)"
  "b_data ((bufs(y := (bufs y)\<lparr>b_next := w, b_prev := v\<rparr>)) x) = b_data (bufs x)"
  by simp_all

lemma unlinked_core:
  "b_dev (unlinked b bufs x) = b_dev (bufs x)"
  "b_blockno (unlinked b bufs x) = b_blockno (bufs x)"
  "b_valid (unlinked b bufs x) = b_valid (bufs x)"
  "b_refcnt (unlinked b bufs x) = b_refcnt (bufs x)"
  "b_data (unlinked b bufs x) = b_data (bufs x)"
  by (simp_all add: unlinked_def Let_def relink_core del: fun_upd_apply)

lemma fronted_core:
  "b_dev (fronted b bufs x) = b_dev (bufs x)"
  "b_blockno (fronted b bufs x) = b_blockno (bufs x)"
  "b_valid (fronted b bufs x) = b_valid (bufs x)"
  "b_refcnt (fronted b bufs x) = b_refcnt (bufs x)"
  "b_data (fronted b bufs x) = b_data (bufs x)"
  by (simp_all add: fronted_def Let_def relink_core relink_core2 del: fun_upd_apply)

lemmas relinked_core [simp] = unlinked_core fronted_core

definition relinked :: "nat \<Rightarrow> kstate \<Rightarrow> kstate" where
  "relinked b s = s\<lparr>k_bufs := fronted b (unlinked b (k_bufs s))\<rparr>"

lemma off_lock_relinked [simp]: "off_lock (relinked b)"
  by (simp add: off_lock_def relinked_def)

lemma cache_relinked:
  assumes "cache_ok p s" and "b < NBUF"
  shows "cache_ok p (relinked b s)" and "cache_view p (relinked b s) = cache_view p s"
    and "cache_bound (relinked b s) = cache_bound s"
proof -
  have same: "caches (k_bufs (relinked b s)) = caches (k_bufs s)"
    by (rule caches_cong) (simp add: relinked_def)
  then have same': "cached (k_bufs (relinked b s)) = cached (k_bufs s)"
    by (intro ext) (simp add: cached_def)
  show "cache_ok p (relinked b s)"
    using assms ring_bmru [of "k_bufs s" _ b] same
    by (auto simp: cache_ok_def buf_ok_def uniq_def relinked_def)
  show "cache_view p (relinked b s) = cache_view p s"
    unfolding cache_view_def cache_content_def cache_refs_def cache_taken_def cache_mine_def same'
    by (simp add: relinked_def off_cache_def cong: option.case_cong if_cong)
  show "cache_bound (relinked b s) = cache_bound s"
    by (intro ext) (simp add: cache_bound_def same, simp add: relinked_def)
qed

text \<open>Changing the count of references to a bound buffer.\<close>

definition recount :: "nat \<Rightarrow> u32 \<Rightarrow> kstate \<Rightarrow> kstate" where
  "recount b c s = upd_buf b (\<lambda>bf. bf\<lparr>b_refcnt := c\<rparr>) s"

lemma cache_recount:
  assumes "cache_ok p s" and "cache_bound s b n"
    and "c = 0 \<Longrightarrow> \<not> sk_locked (k_slocks s (BufSleep b)) \<and> b_data (k_bufs s b) = k_disk s n"
  shows "cache_ok p (recount b c s)"
    and "cache_view p (recount b c s) = (cache_view p s)\<lparr>bv_refs := (cache_refs s)(n := unat c)\<rparr>"
    and "cache_bound s b' m \<Longrightarrow> m \<noteq> n \<or> c \<noteq> 0 \<Longrightarrow> cache_bound (recount b c s) b' m"
proof -
  note b = boundD [OF assms(1,2)] and bc = bound_cached [OF assms(1,2)]
  have same: "cached (k_bufs (recount b c s)) = cached (k_bufs s)"
    unfolding recount_def by (rule cached_upd_buf) simp
  show "cache_ok p (recount b c s)"
    unfolding recount_def using b(2-4) assms(3)
    by (intro cache_ok_upd_buf [OF assms(1)]) (auto simp: buf_ok_def)
  have "cache_refs (recount b c s) = (cache_refs s)(n := unat c)"
  proof
    fix m
    show "cache_refs (recount b c s) m = ((cache_refs s)(n := unat c)) m"
      using b(3) bc cached_other [of "k_bufs s" m b n]
      by (cases "m = n") (auto simp: cache_refs_def same [unfolded recount_def] recount_def split: option.split)
  qed
  moreover have "cache_content (recount b c s) = cache_content s" "cache_taken (recount b c s) = cache_taken s"
    "cache_mine p (recount b c s) = cache_mine p s"
    by (rule ext, simp add: cache_content_def cache_taken_def cache_mine_def same, simp add: recount_def split: option.split)+
  ultimately show "cache_view p (recount b c s) = (cache_view p s)\<lparr>bv_refs := (cache_refs s)(n := unat c)\<rparr>"
    by (simp add: cache_view_def) (simp add: recount_def)
  show "cache_bound (recount b c s) b' m" if "cache_bound s b' m" "m \<noteq> n \<or> c \<noteq> 0"
    using that b(3) by (auto simp: cache_bound_def caches_def recount_def)
qed

lemma off_lock_recount [simp]: "off_lock (recount b c)"
  unfolding recount_def by simp

lemma cache_sl_dropped:
  assumes "cache_ok p s" and "cache_bound s b n"
  shows "cache_ok p (sl_dropped (BufSleep b) s)"
    and "cache_view p (sl_dropped (BufSleep b) s) =
      (cache_view p s)\<lparr>bv_taken := (cache_taken s)(n := False), bv_mine := (cache_mine p s)(n := False)\<rparr>"
    and "cache_bound (sl_dropped (BufSleep b) s) = cache_bound s"
proof -
  let ?t = "sl_dropped (BufSleep b) s"
  note b = boundD [OF assms] and bc = bound_cached [OF assms]
  have bufs: "k_bufs ?t = k_bufs s" and slocks: "k_slocks ?t = (k_slocks s)(BufSleep b := (k_slocks s (BufSleep b))\<lparr>sk_locked := False, sk_pid := 0\<rparr>)"
    and disk: "k_disk ?t = k_disk s" and hist: "k_dhist ?t = k_dhist s" and off: "off_cache ?t = off_cache s"
    by (simp_all add: sl_dropped_def upd_slock_def off_cache_def)
  have "quiet p ?t"
    using cache_okD(1) [OF assms(1)] by (simp add: sl_dropped_def)
  then show "cache_ok p ?t"
    using assms(1) by (auto simp: cache_ok_def buf_ok_def bufs slocks disk)
  have "cache_taken ?t = (cache_taken s)(n := False)" "cache_mine p ?t = (cache_mine p s)(n := False)"
    using b(3) bc by (auto simp: cache_taken_def cache_mine_def bufs slocks fun_eq_iff sl_dropped_def upd_slock_def split: option.split dest: cached_other)
  moreover have "cache_content ?t = cache_content s" "cache_refs ?t = cache_refs s"
    by (rule ext, simp add: cache_content_def cache_refs_def bufs disk split: option.split)+
  ultimately show "cache_view p ?t =
      (cache_view p s)\<lparr>bv_taken := (cache_taken s)(n := False), bv_mine := (cache_mine p s)(n := False)\<rparr>"
    by (simp add: cache_view_def disk hist off)
  show "cache_bound ?t = cache_bound s"
    by (intro ext) (simp add: cache_bound_def bufs)
qed

text \<open>\<open>brelse\<close> and \<open>bunpin\<close> on any quiet state, whatever the counts are.\<close>

definition let_go :: "nat \<Rightarrow> kstate \<Rightarrow> kstate" where
  "let_go b s = (let c = b_refcnt (k_bufs s b) - 1; v = recount b c (sl_dropped (BufSleep b) s) in
     if c = 0 then relinked b v else v)"

lemma bunpin_quiet: "quiet p s \<Longrightarrow> bunpin b s = Ok () (recount b (b_refcnt (k_bufs s b) - 1) s)"
  unfolding bunpin_def
  by (simp add: run_simps release_quiet) (simp add: recount_def upd_buf_def)

lemma brelse_quiet:
  assumes "quiet p s" and "sk_locked (k_slocks s (BufSleep b))" and "sk_pid (k_slocks s (BufSleep b)) = p_pid (k_procs s p)"
  shows "brelse b s = Ok () (let_go b s)"
proof -
  define u where "u = sl_dropped (BufSleep b) s"
  define c where "c = b_refcnt (k_bufs s b) - 1"
  have qu: "quiet p u"
    using assms(1) by (simp add: u_def sl_dropped_def)
  have cnt: "upd_buf b (\<lambda>bf. bf\<lparr>b_refcnt := b_refcnt bf - 1\<rparr>) (locked_state BcacheLock u) =
      recount b c (locked_state BcacheLock u)"
    by (simp add: recount_def upd_buf_def c_def u_def sl_dropped_def upd_slock_def)
  have rel: "releasesleep (BufSleep b) s = Ok () u"
    unfolding u_def by (rule releasesleep_quiet [OF assms(1)])
  have off: "off_lock (\<lambda>s. relinked b (recount b c s))"
    by (rule off_lock_comp) simp_all
  have at: "b_refcnt (k_bufs (recount b c' x) b) = c'" for x c'
    by (simp add: recount_def)
  show ?thesis
    using assms release_quiet [OF qu, of "recount b c" BcacheLock] release_quiet [OF qu off, of BcacheLock]
    by (cases "c = 0") (simp_all add: brelse_def run_simps holdingsleep_quiet [OF assms(1)] rel acquire_quiet [OF qu] cnt at
        bmru_apply relinked_def [symmetric] let_go_def flip: u_def c_def)
qed

definition counted :: "nat \<Rightarrow> u32 \<Rightarrow> (nat \<Rightarrow> buf) \<Rightarrow> nat \<Rightarrow> buf" where
  "counted d c f = f(d := (f d)\<lparr>b_refcnt := c\<rparr>)"

lemma counted_links:
  "b_next (counted d c f x) = b_next (f x)" "b_prev (counted d c f x) = b_prev (f x)"
  "(counted d c f)(y := (counted d c f y)\<lparr>b_prev := v\<rparr>) = counted d c (f(y := (f y)\<lparr>b_prev := v\<rparr>))"
  "(counted d c f)(y := (counted d c f y)\<lparr>b_next := v\<rparr>) = counted d c (f(y := (f y)\<lparr>b_next := v\<rparr>))"
  "(counted d c f)(y := (counted d c f y)\<lparr>b_next := w, b_prev := v\<rparr>) = counted d c (f(y := (f y)\<lparr>b_next := w, b_prev := v\<rparr>))"
  by (auto simp: counted_def)

lemma relinked_counted:
  "unlinked b (counted d c f) = counted d c (unlinked b f)" "fronted b (counted d c f) = counted d c (fronted b f)"
  by (simp_all add: unlinked_def fronted_def Let_def counted_links del: fun_upd_apply)

lemma relinked_recount: "relinked b (recount d c s) = recount d c (relinked b s)"
  using relinked_counted by (simp add: relinked_def recount_def upd_buf_def counted_def)

lemma recount_commutes:
  "sl_dropped lk (recount d c s) = recount d c (sl_dropped lk s)"
  "recount d c (recount d c' s) = recount d c s"
  "b \<noteq> d \<Longrightarrow> recount b c (recount d c' s) = recount d c' (recount b c s)"
  by (auto simp: sl_dropped_def recount_def upd_buf_def waked_def upd_slock_def fun_upd_twist cong: if_cong)

lemma let_go_recount: "b \<noteq> d \<Longrightarrow> let_go b (recount d c s) = recount d c (let_go b s)"
proof -
  assume "b \<noteq> d"
  moreover from this have "b_refcnt (k_bufs (recount d c s) b) = b_refcnt (k_bufs s b)"
    by (simp add: recount_def)
  ultimately show ?thesis
    by (simp add: let_go_def Let_def recount_commutes relinked_recount)
qed

lemma cache_rel:
  assumes "cache_ok p s" and "cache_bound s b n" and "bv_mine (cache_view p s) n"
    and "1 < bv_refs (cache_view p s) n \<or> bv_content (cache_view p s) n = bv_disk (cache_view p s) n"
  shows "\<exists>t. brelse b s = Ok () t \<and> cache_ok p t \<and> cache_view p t = seen_rel n (cache_view p s) \<and>
    (\<forall>b' m. cache_bound s b' m \<longrightarrow> m \<noteq> n \<or> 1 < bv_refs (cache_view p s) n \<longrightarrow> cache_bound t b' m)"
proof -
  note b = boundD [OF assms(1,2)]
  define u where "u = sl_dropped (BufSleep b) s"
  define c where "c = b_refcnt (k_bufs s b) - 1"
  define v where "v = recount b c u"
  define t where "t = (if c = 0 then relinked b v else v)"
  have u: "cache_ok p u" "cache_bound u b n" and u_bound: "cache_bound u = cache_bound s"
    and u_view: "cache_view p u = (cache_view p s)\<lparr>bv_taken := (cache_taken s)(n := False), bv_mine := (cache_mine p s)(n := False)\<rparr>"
    using cache_sl_dropped [OF assms(1,2)] assms(2) by (simp_all add: u_def)
  have bufs: "k_bufs u = k_bufs s" and disk: "k_disk u = k_disk s"
    and free: "\<not> sk_locked (k_slocks u (BufSleep b))"
    by (simp_all add: u_def sl_dropped_def upd_slock_def)
  have dec: "unat c = unat (b_refcnt (k_bufs s b)) - 1"
    using b(5) by (simp add: c_def unat_minus_one)
  have clean: "b_data (k_bufs u b) = k_disk u n" if "c = 0"
  proof -
    have "\<not> 1 < bv_refs (cache_view p s) n"
      using that dec b(6) by simp
    then show ?thesis
      using assms(4) b(7) by (simp add: bufs disk cache_view_def)
  qed
  have v: "cache_ok p v" and v_view: "cache_view p v = (cache_view p u)\<lparr>bv_refs := (cache_refs u)(n := unat c)\<rparr>"
    and v_bound: "\<And>b' m. cache_bound u b' m \<Longrightarrow> m \<noteq> n \<or> c \<noteq> 0 \<Longrightarrow> cache_bound v b' m"
    unfolding v_def using cache_recount [OF u, of c] free clean by blast+
  have refs: "cache_refs u = cache_refs s"
    by (rule ext) (simp add: cache_refs_def bufs split: option.split)
  have "brelse b s = Ok () t"
    using brelse_quiet [OF cache_okD(1) [OF assms(1)], of b] b(8) assms(3)
    by (simp add: let_go_def t_def v_def c_def u_def Let_def)
  moreover have "cache_ok p t" "cache_view p t = cache_view p v" "cache_bound t = cache_bound v"
    using cache_relinked [OF v b(1)] v by (simp_all add: t_def)
  moreover have "cache_view p v = seen_rel n (cache_view p s)"
    unfolding v_view u_view refs using dec b(6) by (simp add: seen_rel_def cache_view_def)
  moreover have "c \<noteq> 0" if "1 < bv_refs (cache_view p s) n"
    using that dec b(6) by auto
  ultimately show ?thesis
    using v_bound u_bound by metis
qed

lemma cache_count:
  assumes "cache_ok p s" and "cache_bound s b n" and "c \<noteq> 0"
  shows "\<exists>t. block [acquire BcacheLock, modify (recount b c), release BcacheLock] s = Ok () t \<and>
    cache_ok p t \<and> cache_view p t = (cache_view p s)\<lparr>bv_refs := (cache_refs s)(n := unat c)\<rparr> \<and>
    (\<forall>b' m. cache_bound s b' m \<longrightarrow> cache_bound t b' m)"
proof -
  have q: "quiet p s"
    using assms(1) by (simp add: cache_okD)
  have "block [acquire BcacheLock, modify (recount b c), release BcacheLock] s = Ok () (recount b c s)"
    using release_quiet [OF q, of "recount b c" BcacheLock] by (simp add: run_simps acquire_quiet [OF q])
  then show ?thesis
    using cache_recount [OF assms(1,2), of c] assms(3) by blast
qed

lemma count_step:
  "block [acquire lk, modify (upd_buf b (\<lambda>bf. bf\<lparr>b_refcnt := f (b_refcnt bf)\<rparr>)), release lk] s =
   block [acquire lk, modify (recount b (f (b_refcnt (k_bufs s b)))), release lk] s" if "quiet p s"
  using that by (simp add: run_simps acquire_quiet) (simp add: recount_def upd_buf_def)

lemma cache_pin:
  assumes "cache_ok p s" and "cache_bound s b n" and "bv_refs (cache_view p s) n + 1 < 2 ^ 32"
  shows "\<exists>t. bpin b s = Ok () t \<and> cache_ok p t \<and> cache_view p t = seen_pin n (cache_view p s) \<and>
    (\<forall>b' m. cache_bound s b' m \<longrightarrow> cache_bound t b' m)"
proof -
  note b = boundD [OF assms(1,2)]
  have up: "unat (b_refcnt (k_bufs s b) + 1) = unat (b_refcnt (k_bufs s b)) + 1"
    using assms(3) b(6) by (simp add: unat_word_ariths(1))
  then have "b_refcnt (k_bufs s b) + 1 \<noteq> 0"
    by (metis add_is_0 one_neq_zero unat_0)
  moreover have "cache_refs s n = unat (b_refcnt (k_bufs s b))"
    using b(6) by (simp add: cache_view_def)
  ultimately show ?thesis
    using cache_count [OF assms(1,2), of "b_refcnt (k_bufs s b) + 1"] up
    unfolding bpin_def count_step [OF cache_okD(1) [OF assms(1)], of BcacheLock b "\<lambda>c. c + 1"]
    by (simp add: seen_pin_def) (simp add: cache_view_def)
qed

lemma cache_unpin:
  assumes "cache_ok p s" and "cache_bound s b n" and "1 < bv_refs (cache_view p s) n"
  shows "\<exists>t. bunpin b s = Ok () t \<and> cache_ok p t \<and> cache_view p t = seen_unpin n (cache_view p s) \<and>
    (\<forall>b' m. cache_bound s b' m \<longrightarrow> cache_bound t b' m)"
proof -
  note b = boundD [OF assms(1,2)]
  have down: "unat (b_refcnt (k_bufs s b) - 1) = unat (b_refcnt (k_bufs s b)) - 1"
    using b(5) by (simp add: unat_minus_one)
  then have "b_refcnt (k_bufs s b) - 1 \<noteq> 0"
    using assms(3) b(6) by (metis diff_is_0_eq not_less unat_0)
  moreover have "cache_refs s n = unat (b_refcnt (k_bufs s b))"
    using b(6) by (simp add: cache_view_def)
  ultimately show ?thesis
    using cache_count [OF assms(1,2), of "b_refcnt (k_bufs s b) - 1"] down
    unfolding bunpin_def count_step [OF cache_okD(1) [OF assms(1)], of BcacheLock b "\<lambda>c. c - 1"]
    by (simp add: seen_unpin_def) (simp add: cache_view_def)
qed

text \<open>Fetching a block.\<close>

definition got :: "nat \<Rightarrow> nat \<Rightarrow> u32 \<Rightarrow> kstate \<Rightarrow> kstate" where
  "got p b n s = sl_taken p (BufSleep b) (upd_buf b (\<lambda>bf. bf\<lparr>b_dev := 1, b_blockno := n, b_valid := True,
     b_refcnt := b_refcnt bf + 1, b_data := cache_content s n\<rparr>) s)"

lemma find_Some_in: "find P xs = Some x \<Longrightarrow> x \<in> set xs \<and> P x"
  by (induction xs) (auto split: if_splits)

lemma find_unique:
  assumes "x \<in> set xs" and "P x" and "\<And>y. y \<in> set xs \<Longrightarrow> P y \<Longrightarrow> y = x"
  shows "find P xs = Some x"
proof (cases "find P xs")
  case None
  then show ?thesis using assms(1,2) by (auto simp: find_None_iff)
next
  case (Some y)
  then show ?thesis using assms(3) [of y] find_Some_in [of P xs y] by simp
qed

lemma bread_cached:
  assumes "cache_ok p s" and "caches (k_bufs s) b n" and "\<not> sk_locked (k_slocks s (BufSleep b))"
  shows "bread 1 n s = Ok b (got p b n s)"
proof -
  have q: "quiet p s" and uniq: "uniq (k_bufs s)"
    using assms(1) by (simp_all add: cache_okD)
  obtain xs where ring: "ring (k_bufs s) xs"
    using assms(1) by (auto simp: cache_ok_def)
  define s1 where "s1 = upd_buf b (\<lambda>bf. bf\<lparr>b_refcnt := b_refcnt bf + 1\<rparr>) s"
  have "find (\<lambda>b. b_dev (k_bufs s b) = 1 \<and> b_blockno (k_bufs s b) = n) xs = Some b"
    using assms(2) uniq ring by (intro find_unique) (auto simp: uniq_def caches_def ring_def)
  then have look: "bget_cached 1 n (locked_state BcacheLock s) = Ok (Some b) (locked_state BcacheLock s)"
    using bget_cached_apply [of "locked_state BcacheLock s" xs 1 n] ring by simp
  have "quiet p s1" and "\<not> sk_locked (k_slocks s1 (BufSleep b))"
    using q assms(3) by (simp_all add: s1_def)
  then have "bget 1 n s = Ok b (sl_taken p (BufSleep b) s1)"
    using release_quiet [OF q, of "upd_buf b (\<lambda>bf. bf\<lparr>b_refcnt := b_refcnt bf + 1\<rparr>)" BcacheLock]
    by (simp add: bget_def run_simps acquire_quiet [OF q] look acquiresleep_quiet s1_def [symmetric])
  moreover have "cached (k_bufs s) n = Some b"
    using uniq assms(2) by (rule cached_Some)
  ultimately show ?thesis
    using assms(2)
    by (cases "b_valid (k_bufs s b)"; cases "k_bufs s b")
      (simp_all add: bread_def run_simps got_def s1_def sl_taken_def upd_slock_def upd_buf_def disk_rw_def
        cache_content_def caches_def)
qed

lemma bread_recycled:
  assumes "cache_ok p s" and "\<And>b. \<not> caches (k_bufs s) b n" and "\<exists>b<NBUF. b_refcnt (k_bufs s b) = 0"
  shows "\<exists>b<NBUF. b_refcnt (k_bufs s b) = 0 \<and> bread 1 n s = Ok b (got p b n s)"
proof -
  have q: "quiet p s"
    using assms(1) by (simp add: cache_okD)
  obtain xs where ring: "ring (k_bufs s) xs"
    using assms(1) by (auto simp: cache_ok_def)
  have "find (\<lambda>b. b_dev (k_bufs s b) = 1 \<and> b_blockno (k_bufs s b) = n) xs = None"
    using assms(2) ring by (auto simp: find_None_iff caches_def ring_def)
  then have look: "bget_cached 1 n (locked_state BcacheLock s) = Ok None (locked_state BcacheLock s)"
    using bget_cached_apply [of "locked_state BcacheLock s" xs 1 n] ring by simp
  have "find (\<lambda>b. b_refcnt (k_bufs s b) = 0) (rev xs) \<noteq> None"
    using assms(3) ring by (auto simp: find_None_iff ring_def)
  then obtain b where pick: "find (\<lambda>b. b_refcnt (k_bufs s b) = 0) (rev xs) = Some b"
    by blast
  then have b: "b < NBUF" "b_refcnt (k_bufs s b) = 0"
    using ring find_Some_in [OF pick] by (auto simp: ring_def)
  have look2: "bget_unused (locked_state BcacheLock s) = Ok (Some b) (locked_state BcacheLock s)"
    using bget_unused_apply [of "locked_state BcacheLock s" xs] ring pick by simp
  let ?g = "upd_buf b (\<lambda>bf. bf\<lparr>b_dev := 1, b_blockno := n, b_valid := False, b_refcnt := 1\<rparr>)"
  have "quiet p (?g s)" and "\<not> sk_locked (k_slocks (?g s) (BufSleep b))"
    using q b cache_okD(3) [OF assms(1), of b] by (simp_all add: buf_ok_def)
  then have "bget 1 n s = Ok b (sl_taken p (BufSleep b) (?g s))"
    using release_quiet [OF q, of ?g BcacheLock]
    by (simp add: bget_def run_simps acquire_quiet [OF q] look look2 acquiresleep_quiet)
  moreover have "cached (k_bufs s) n = None"
    using assms(2) by (simp add: cached_None)
  ultimately have "bread 1 n s = Ok b (got p b n s)"
    using b
    by (cases "k_bufs s b")
      (simp add: bread_def run_simps got_def sl_taken_def upd_slock_def upd_buf_def disk_rw_def cache_content_def)
  then show ?thesis
    using b by blast
qed

text \<open>A buffer is left over as long as fewer blocks are in use than there are buffers.\<close>

lemma unused_exists:
  assumes "cache_ok p s" and "in_use (cache_view p s) < NBUF"
  shows "\<exists>b<NBUF. b_refcnt (k_bufs s b) = 0"
proof (rule ccontr)
  assume "\<not> ?thesis"
  then have bound: "cache_bound s b (b_blockno (k_bufs s b))" if "b < NBUF" for b
    using that cache_okD(3) [OF assms(1), of b] by (auto simp: cache_bound_def caches_def buf_ok_def)
  have "inj_on (\<lambda>b. b_blockno (k_bufs s b)) {0..<NBUF}"
    using bound cache_okD(2) [OF assms(1)] by (auto intro!: inj_onI simp: cache_bound_def caches_def uniq_def)
  moreover have "(\<lambda>b. b_blockno (k_bufs s b)) ` {0..<NBUF} \<subseteq> {n. 0 < bv_refs (cache_view p s) n}"
  proof
    fix n assume "n \<in> (\<lambda>b. b_blockno (k_bufs s b)) ` {0..<NBUF}"
    then obtain b where "b < NBUF" "n = b_blockno (k_bufs s b)" by auto
    then show "n \<in> {n. 0 < bv_refs (cache_view p s) n}"
      using boundD(5,6) [OF assms(1) bound [of b]] by (simp add: unat_gt_0)
  qed
  ultimately have "card {0..<NBUF} \<le> in_use (cache_view p s)"
    unfolding in_use_def by (metis card_image card_mono finite_code)
  then show False
    using assms(2) by simp
qed

lemma got_fields:
  "k_bufs (got p b n s) = (k_bufs s)(b := (k_bufs s b)\<lparr>b_dev := 1, b_blockno := n, b_valid := True,
     b_refcnt := b_refcnt (k_bufs s b) + 1, b_data := cache_content s n\<rparr>)"
  "k_slocks (got p b n s) = (k_slocks s)(BufSleep b := (k_slocks s (BufSleep b))\<lparr>sk_locked := True,
     sk_pid := p_pid (k_procs s p)\<rparr>)"
  "k_disk (got p b n s) = k_disk s" "k_dhist (got p b n s) = k_dhist s" "off_cache (got p b n s) = off_cache s"
  "k_procs (got p b n s) = k_procs s" "quiet p (got p b n s) = quiet p s"
       apply (simp_all add: got_def)
      apply (simp_all add: sl_taken_def)
     apply (simp_all add: upd_slock_def upd_buf_def off_cache_def)
  done

text \<open>A buffer that \<open>bget\<close> may choose for block \<open>n\<close>: the one that carries it, or an unused one.\<close>

definition eligible :: "kstate \<Rightarrow> nat \<Rightarrow> u32 \<Rightarrow> bool" where
  "eligible s b n \<longleftrightarrow> b < NBUF \<and> \<not> sk_locked (k_slocks s (BufSleep b)) \<and>
     (\<forall>b'. caches (k_bufs s) b' n \<longrightarrow> b' = b) \<and> (caches (k_bufs s) b n \<or> b_refcnt (k_bufs s b) = 0)"

lemma bread_eligible:
  assumes "cache_ok p s" and "\<not> bv_taken (cache_view p s) n"
    and "0 < bv_refs (cache_view p s) n \<or> in_use (cache_view p s) < NBUF"
  shows "\<exists>b. eligible s b n \<and> bread 1 n s = Ok b (got p b n s)"
proof (cases "\<exists>b. caches (k_bufs s) b n")
  case True
  then obtain b where b: "caches (k_bufs s) b n" by blast
  moreover have "cached (k_bufs s) n = Some b"
    using b cache_okD(2) [OF assms(1)] by (simp add: cached_Some)
  ultimately have "\<not> sk_locked (k_slocks s (BufSleep b))"
    using assms(2) by (simp add: cache_view_def cache_taken_def)
  moreover have "\<forall>b'. caches (k_bufs s) b' n \<longrightarrow> b' = b"
    using b cache_okD(2) [OF assms(1)] by (auto simp: uniq_def)
  moreover have "b < NBUF"
    using b by (simp add: caches_def)
  ultimately show ?thesis
    using b bread_cached [OF assms(1), of b n] unfolding eligible_def by blast
next
  case False
  then have "bv_refs (cache_view p s) n = 0"
    by (simp add: cache_view_def cache_refs_def cached_None [THEN iffD2])
  then obtain b where "b < NBUF" "b_refcnt (k_bufs s b) = 0" "bread 1 n s = Ok b (got p b n s)"
    using bread_recycled [OF assms(1), of n] unused_exists [OF assms(1)] assms(3) False by auto
  moreover from this have "\<not> sk_locked (k_slocks s (BufSleep b))"
    using cache_okD(3) [OF assms(1), of b] by (simp add: buf_ok_def)
  ultimately show ?thesis
    using False unfolding eligible_def by blast
qed

lemma caches_got:
  "b < NBUF \<Longrightarrow> caches (k_bufs (got p b n s)) b' m \<longleftrightarrow> (if b' = b then m = n else caches (k_bufs s) b' m)"
  by (auto simp: caches_def got_fields)

lemma cached_got:
  assumes "cache_ok p s" and "eligible s b n"
  shows "uniq (k_bufs (got p b n s))"
    and "cached (k_bufs (got p b n s)) m =
      (if m = n then Some b else if cached (k_bufs s) m = Some b then None else cached (k_bufs s) m)"
proof -
  have b: "b < NBUF" and only: "\<And>b'. caches (k_bufs s) b' n \<Longrightarrow> b' = b"
    using assms(2) by (auto simp: eligible_def)
  have uniq: "uniq (k_bufs s)"
    using assms(1) by (rule cache_okD)
  show uniq': "uniq (k_bufs (got p b n s))"
    using uniq only by (auto simp: uniq_def caches_got [OF b] split: if_splits)
  show "cached (k_bufs (got p b n s)) m =
      (if m = n then Some b else if cached (k_bufs s) m = Some b then None else cached (k_bufs s) m)"
  proof (cases "m = n")
    case True
    then show ?thesis
      using cached_Some [OF uniq', of b n] by (simp add: caches_got [OF b])
  next
    case False
    show ?thesis
    proof (cases "cached (k_bufs s) m")
      case None
      then have "cached (k_bufs (got p b n s)) m = None"
        using False by (simp add: cached_None caches_got [OF b])
      then show ?thesis
        using False None by simp
    next
      case (Some b')
      then have b': "caches (k_bufs s) b' m"
        by (rule cached_caches)
      show ?thesis
      proof (cases "b' = b")
        case True
        then have "\<not> caches (k_bufs (got p b n s)) x m" for x
          using b' uniq False by (auto simp: uniq_def caches_got [OF b] split: if_splits)
        then show ?thesis
          using True Some False by (simp add: cached_None)
      next
        case neq: False
        then show ?thesis
          using Some False b' cached_Some [OF uniq', of b' m] by (simp add: caches_got [OF b])
      qed
    qed
  qed
qed

lemma view_got:
  assumes "cache_ok p s" and "eligible s b n" and "bv_refs (cache_view p s) n + 1 < 2 ^ 32"
  shows "cache_view p (got p b n s) = seen_rd n (cache_view p s)"
proof -
  let ?t = "got p b n s"
  have ok: "buf_ok s b" and b: "b < NBUF"
    using assms(1,2) by (simp_all add: cache_okD eligible_def)
  have free: "\<not> sk_locked (k_slocks s (BufSleep b))"
    using assms(2) by (simp add: eligible_def)
  have old: "b_refcnt (k_bufs s b) = 0 \<and> b_dev (k_bufs s b) = 1 \<and> b_blockno (k_bufs s b) = m"
    if "cached (k_bufs s) m = Some b" "m \<noteq> n" for m
    using that assms(2) by (auto simp: eligible_def caches_def dest!: cached_caches)
  have refs_n: "unat (b_refcnt (k_bufs s b) + 1) = cache_refs s n + 1"
  proof (cases "caches (k_bufs s) b n")
    case True
    then have "cached (k_bufs s) n = Some b"
      using assms(1) by (simp add: cached_Some cache_okD)
    then show ?thesis
      using assms(3) by (simp add: cache_view_def cache_refs_def unat_word_ariths(1))
  next
    case False
    then have "\<And>b'. \<not> caches (k_bufs s) b' n" and "b_refcnt (k_bufs s b) = 0"
      using assms(2) by (auto simp: eligible_def)
    then show ?thesis
      by (simp add: cache_refs_def cached_None [THEN iffD2])
  qed
  note look = cached_got(2) [OF assms(1,2)]
  have "cache_content ?t = cache_content s"
  proof
    fix m
    show "cache_content ?t m = cache_content s m"
      using old [of m] ok look [of m]
      by (cases "cached (k_bufs s) m") (auto simp: cache_content_def got_fields buf_ok_def)
  qed
  moreover have "cache_refs ?t = (cache_refs s)(n := cache_refs s n + 1)"
  proof
    fix m
    show "cache_refs ?t m = ((cache_refs s)(n := cache_refs s n + 1)) m"
      using old [of m] refs_n look [of m]
      by (cases "cached (k_bufs s) m") (auto simp: cache_refs_def got_fields)
  qed
  moreover have "cache_taken ?t = (cache_taken s)(n := True)"
  proof
    fix m
    show "cache_taken ?t m = ((cache_taken s)(n := True)) m"
      using free look [of m] by (cases "cached (k_bufs s) m") (auto simp: cache_taken_def got_fields)
  qed
  moreover have "cache_mine p ?t = (cache_mine p s)(n := True)"
  proof
    fix m
    show "cache_mine p ?t m = ((cache_mine p s)(n := True)) m"
      using free look [of m] by (cases "cached (k_bufs s) m") (auto simp: cache_mine_def got_fields)
  qed
  ultimately show ?thesis
    by (simp add: cache_view_def seen_rd_def got_fields)
qed

lemma cache_rd:
  assumes "cache_ok p s" and "\<not> bv_taken (cache_view p s) n" and "bv_refs (cache_view p s) n + 1 < 2 ^ 32"
    and "0 < bv_refs (cache_view p s) n \<or> in_use (cache_view p s) < NBUF"
  shows "\<exists>b t. bread 1 n s = Ok b t \<and> cache_ok p t \<and> cache_view p t = seen_rd n (cache_view p s) \<and>
    cache_bound t b n \<and> (\<forall>b' m. cache_bound s b' m \<longrightarrow> cache_bound t b' m)"
proof -
  obtain b where el: "eligible s b n" and run: "bread 1 n s = Ok b (got p b n s)"
    using bread_eligible [OF assms(1,2,4)] by blast
  let ?t = "got p b n s"
  have b: "b < NBUF"
    using el by (simp add: eligible_def)
  have view: "cache_view p ?t = seen_rd n (cache_view p s)"
    using assms(1,3) el by (simp add: view_got)
  have cnt: "b_refcnt (k_bufs s b) + 1 \<noteq> 0"
  proof
    assume "b_refcnt (k_bufs s b) + 1 = 0"
    then have "bv_refs (cache_view p ?t) n = 0"
      using cached_got(2) [OF assms(1) el, of n] by (simp add: cache_view_def cache_refs_def got_fields)
    then show False
      by (simp add: view seen_rd_def)
  qed
  have ok: "cache_ok p ?t"
  proof -
    obtain xs where "ring (k_bufs s) xs"
      using assms(1) by (auto simp: cache_ok_def)
    then have "ring (k_bufs ?t) xs"
      by (subst ring_cong [of _ "k_bufs s"]) (simp_all add: got_fields)
    moreover have "buf_ok ?t b'" if "b' < NBUF" for b'
      using cache_okD(3) [OF assms(1) that] cnt by (cases "b' = b") (simp_all add: buf_ok_def got_fields)
    moreover have "quiet p ?t"
      using cache_okD(1) [OF assms(1)] by (simp add: got_fields)
    ultimately show ?thesis
      using cached_got(1) [OF assms(1) el] unfolding cache_ok_def by blast
  qed
  moreover have "cache_bound ?t b n"
    using b cnt by (simp add: cache_bound_def caches_got [OF b]) (simp add: got_fields)
  moreover have "cache_bound ?t b' m" if "cache_bound s b' m" for b' m
  proof (cases "b' = b")
    case True
    then have "m = n"
      using that el by (auto simp: cache_bound_def eligible_def caches_def)
    then show ?thesis
      using True cnt by (simp add: cache_bound_def caches_got [OF b]) (simp add: got_fields)
  next
    case False
    then show ?thesis
      using that by (simp add: cache_bound_def caches_got [OF b]) (simp add: got_fields)
  qed
  ultimately show ?thesis
    using run view by blast
qed

lemma cache_clean:
  assumes "cache_ok p s" and "bv_refs (cache_view p s) n = 0"
  shows "bv_content (cache_view p s) n = bv_disk (cache_view p s) n"
proof (cases "cached (k_bufs s) n")
  case None
  then show ?thesis by (simp add: cache_view_def cache_content_def)
next
  case (Some b)
  then have "b < NBUF" "b_dev (k_bufs s b) = 1" "b_blockno (k_bufs s b) = n"
    using cached_caches [OF Some] by (simp_all add: caches_def)
  then show ?thesis
    using Some assms(2) cache_okD(3) [OF assms(1), of b]
    by (simp add: cache_view_def cache_content_def cache_refs_def buf_ok_def unat_eq_0)
qed

lemma cache_mine_taken: "bv_mine (cache_view p s) n \<Longrightarrow> bv_taken (cache_view p s) n"
  by (simp add: cache_view_def cache_mine_def cache_taken_def split: option.splits)

section \<open>Using the cache\<close>

text \<open>
  The three ways the log uses the cache, for any cache that meets the contract: rewriting a
  block not in use, saving a block in use to one that is not, and installing an unused block
  over one in use while dropping a reference to it.
\<close>

definition seen_update :: "u32 \<Rightarrow> bytes \<Rightarrow> 'f bview \<Rightarrow> 'f bview" where
  "seen_update x d v = v\<lparr>bv_content := (bv_content v)(x := d), bv_disk := (bv_disk v)(x := d),
     bv_hist := bv_hist v @ [(x, d)]\<rparr>"

context buffer_cache
begin

lemma idle_mine: "\<not> bv_taken (view s) n \<Longrightarrow> \<not> bv_mine (view s) n"
  using mine_law by blast

lemma rewrite_block:
  assumes "inv s" and "\<not> bv_taken (view s) x" and "bv_refs (view s) x = 0" and "in_use (view s) < slots"
  shows "\<exists>t. bind (rd x) (\<lambda>b. seq (modify (\<lambda>s. put b (f (dat s b)) s)) (seq (wr b) (rel b))) s = Ok () t \<and> inv t \<and>
    view t = seen_update x (f (bv_content (view s) x)) (view s)"
proof -
  obtain b s1 where 1: "rd x s = Ok b s1" "inv s1" "view s1 = seen_rd x (view s)" "bound s1 b x"
    using rd_law [OF assms(1,2)] assms(3,4) by auto
  have dat: "dat s1 b = bv_content (view s) x"
    using dat_law [OF 1(2,4)] 1(3) by (simp add: seen_defs)
  define s2 where "s2 = put b (f (dat s1 b)) s1"
  have 2: "inv s2" "view s2 = seen_put x (f (bv_content (view s) x)) (view s1)" "bound s2 b x"
    unfolding s2_def using put_law [OF 1(2,4)] 1(4) dat by auto
  obtain s3 where 3: "wr b s2 = Ok () s3" "inv s3" "view s3 = seen_wr x (view s2)" "bound s3 b x"
    using wr_law [OF 2(1,3)] 2 1(3) by (auto simp: seen_defs)
  obtain s4 where 4: "rel b s3 = Ok () s4" "inv s4" "view s4 = seen_rel x (view s3)"
    using rel_law [OF 3(2,4)] 3(3) 2(2) 1(3) by (auto simp: seen_defs)
  have "view s4 = seen_update x (f (bv_content (view s) x)) (view s)"
    unfolding 4(3) 3(3) 2(2) 1(3) using assms(2,3) idle_mine [OF assms(2)]
    by (intro bview.equality) (simp_all add: seen_defs seen_update_def fun_upd_idem)
  then show ?thesis
    using 1(1) 3(1) 4 by (intro exI [of _ s4]) (simp add: bind_Ok seq_Ok seq_modify s2_def)
qed

lemma save_block:
  assumes "inv s" and "x \<noteq> y"
    and "\<not> bv_taken (view s) x" and "bv_refs (view s) x = 0" and "in_use (view s) < slots"
    and "\<not> bv_taken (view s) y" and "0 < bv_refs (view s) y" and "bv_refs (view s) y + 1 < 2 ^ 32"
  shows "\<exists>t. bind (rd x) (\<lambda>to. bind (rd y) (\<lambda>from. block [
      modify (\<lambda>s. put to (f (dat s to) (dat s from)) s), wr to, rel from, rel to])) s = Ok () t \<and> inv t \<and>
    view t = seen_update x (f (bv_content (view s) x) (bv_content (view s) y)) (view s)"
proof -
  obtain b s1 where 1: "rd x s = Ok b s1" "inv s1" "view s1 = seen_rd x (view s)" "bound s1 b x"
    using rd_law [OF assms(1,3)] assms(4,5) by auto
  obtain c s2 where 2: "rd y s1 = Ok c s2" "inv s2" "view s2 = seen_rd y (view s1)" "bound s2 c y" "bound s2 b x"
    using rd_law [OF 1(2), of y] 1(3,4) assms(2,6,7,8) by (auto simp: seen_defs)
  have dat: "dat s2 b = bv_content (view s) x" "dat s2 c = bv_content (view s) y"
    using dat_law [OF 2(2,4)] dat_law [OF 2(2,5)] 2(3) 1(3) by (simp_all add: seen_defs)
  let ?d = "f (bv_content (view s) x) (bv_content (view s) y)"
  define s3 where "s3 = put b (f (dat s2 b) (dat s2 c)) s2"
  have 3: "inv s3" "view s3 = seen_put x ?d (view s2)" "bound s3 b x" "bound s3 c y"
    unfolding s3_def using put_law [OF 2(2,5)] 2(4,5) dat by auto
  obtain s4 where 4: "wr b s3 = Ok () s4" "inv s4" "view s4 = seen_wr x (view s3)" "bound s4 b x" "bound s4 c y"
    using wr_law [OF 3(1,3)] 3 2(3) 1(3) assms(2) by (auto simp: seen_defs)
  obtain s5 where 5: "rel c s4 = Ok () s5" "inv s5" "view s5 = seen_rel y (view s4)" "bound s5 b x"
    using rel_law [OF 4(2,5)] 4(3,4) 3(2) 2(3) 1(3) assms(2,7) by (auto simp: seen_defs)
  obtain s6 where 6: "rel b s5 = Ok () s6" "inv s6" "view s6 = seen_rel x (view s5)"
    using rel_law [OF 5(2,4)] 5(3) 4(3) 3(2) 2(3) 1(3) assms(2) by (auto simp: seen_defs)
  have "view s6 = seen_update x ?d (view s)"
    unfolding 6(3) 5(3) 4(3) 3(2) 2(3) 1(3)
    using assms(2,3,4,6,7) idle_mine [OF assms(3)] idle_mine [OF assms(6)]
    by (intro bview.equality) (simp_all add: seen_defs seen_update_def fun_upd_idem fun_upd_twist)
  then show ?thesis
    using 1(1) 2(1) 4(1) 5(1) 6 by (intro exI [of _ s6]) (simp add: bind_Ok seq_Ok seq_modify return_apply s3_def)
qed

lemma install_block:
  assumes "inv s" and "x \<noteq> y"
    and "\<not> bv_taken (view s) x" and "bv_refs (view s) x = 0" and "in_use (view s) < slots"
    and "\<not> bv_taken (view s) y" and "0 < bv_refs (view s) y" and "bv_refs (view s) y + 1 < 2 ^ 32"
  shows "\<exists>t. bind (rd x) (\<lambda>from. bind (rd y) (\<lambda>to. block [
      modify (\<lambda>s. put to (f (dat s to) (dat s from)) s), wr to, unpin to, rel from, rel to])) s = Ok () t \<and> inv t \<and>
    view t = seen_unpin y (seen_update y (f (bv_content (view s) y) (bv_content (view s) x)) (view s))"
proof -
  obtain b s1 where 1: "rd x s = Ok b s1" "inv s1" "view s1 = seen_rd x (view s)" "bound s1 b x"
    using rd_law [OF assms(1,3)] assms(4,5) by auto
  obtain c s2 where 2: "rd y s1 = Ok c s2" "inv s2" "view s2 = seen_rd y (view s1)" "bound s2 c y" "bound s2 b x"
    using rd_law [OF 1(2), of y] 1(3,4) assms(2,6,7,8) by (auto simp: seen_defs)
  have dat: "dat s2 b = bv_content (view s) x" "dat s2 c = bv_content (view s) y"
    using dat_law [OF 2(2,4)] dat_law [OF 2(2,5)] 2(3) 1(3) by (simp_all add: seen_defs)
  let ?d = "f (bv_content (view s) y) (bv_content (view s) x)"
  define s3 where "s3 = put c (f (dat s2 c) (dat s2 b)) s2"
  have 3: "inv s3" "view s3 = seen_put y ?d (view s2)" "bound s3 b x" "bound s3 c y"
    unfolding s3_def using put_law [OF 2(2,4)] 2(4,5) dat by auto
  obtain s4 where 4: "wr c s3 = Ok () s4" "inv s4" "view s4 = seen_wr y (view s3)" "bound s4 b x" "bound s4 c y"
    using wr_law [OF 3(1,4)] 3 2(3) 1(3) assms(2) by (auto simp: seen_defs)
  obtain s5 where 5: "unpin c s4 = Ok () s5" "inv s5" "view s5 = seen_unpin y (view s4)" "bound s5 b x" "bound s5 c y"
    using unpin_law [OF 4(2,5)] 4(3,4,5) 3(2) 2(3) 1(3) assms(2,7) by (auto simp: seen_defs)
  have clean: "bv_content (view s) x = bv_disk (view s) x"
    using clean_law assms(1,4) .
  obtain s6 where 6: "rel b s5 = Ok () s6" "inv s6" "view s6 = seen_rel x (view s5)" "bound s6 c y"
    using rel_law [OF 5(2,4)] 5(3,5) 4(3) 3(2) 2(3) 1(3) assms(2) clean by (auto simp: seen_defs)
  obtain s7 where 7: "rel c s6 = Ok () s7" "inv s7" "view s7 = seen_rel y (view s6)"
    using rel_law [OF 6(2,4)] 6(3) 5(3) 4(3) 3(2) 2(3) 1(3) assms(2) by (auto simp: seen_defs)
  have "view s7 = seen_unpin y (seen_update y ?d (view s))"
    unfolding 7(3) 6(3) 5(3) 4(3) 3(2) 2(3) 1(3)
    using assms(2,3,4,6,7) idle_mine [OF assms(3)] idle_mine [OF assms(6)]
    by (intro bview.equality) (simp_all add: seen_defs seen_update_def fun_upd_idem fun_upd_twist)
  then show ?thesis
    using 1(1) 2(1) 4(1) 5(1) 6(1) 7
    by (intro exI [of _ s7]) (simp add: bind_Ok seq_Ok seq_modify return_apply s3_def)
qed

end

interpretation bcache: buffer_cache "cache_ok p" "cache_view p" cache_bound "\<lambda>s b. b_data (k_bufs s b)"
  "\<lambda>b d. upd_buf b (\<lambda>bf. bf\<lparr>b_data := d\<rparr>)" "bread 1" bwrite brelse bpin bunpin NBUF for p
  by (unfold_locales; (rule cache_clean cache_mine_taken boundD(7) [symmetric] cache_rd cache_put cache_wr cache_rel cache_pin cache_unpin; assumption))

end
