(* ===== verification/Xv6_Log.thy ===== *)
theory Xv6_Log
  imports Xv6_Cache
begin

text \<open>
  \<open>kernel/log.c\<close>: the write-ahead log that makes the block writes of a system call atomic with
  respect to crashes. The header block holds the number of logged blocks and their home
  numbers; it is a \<open>struct logheader\<close> in the bytes of the block: \<open>n\<close> at offset 0, \<open>block[i]\<close>
  at offset \<open>4 + 4 * i\<close>.
\<close>

section \<open>Definitions\<close>

definition upd_log :: "(logst \<Rightarrow> logst) \<Rightarrow> kstate \<Rightarrow> kstate" where
  "upd_log f s = s\<lparr>k_log := f (k_log s)\<rparr>"

text \<open>\<open>memmove(to->data, from->data, BSIZE)\<close>.\<close>

definition copy_block :: "nat \<Rightarrow> nat \<Rightarrow> unit k" where
  "copy_block to from = modify (\<lambda>s.
     upd_buf to (\<lambda>bf. bf\<lparr>b_data := overwrite (b_data bf) 0 BSIZE (b_data (k_bufs s from))\<rparr>) s)"

definition log_block :: "nat \<Rightarrow> nat k" where
  "log_block tail =
     bind (gets k_log) (\<lambda>lg. bread (l_dev lg) (l_start lg + of_nat tail + 1))"

definition home_block :: "nat \<Rightarrow> nat k" where
  "home_block tail =
     bind (gets k_log) (\<lambda>lg. bread (l_dev lg) (l_block lg tail))"

definition install_trans :: "unit k" where
  "install_trans =
     bind (gets (\<lambda>s. nat (l_n (k_log s)))) (\<lambda>n.
     for_each [0..<n] (\<lambda>tail.
       bind (log_block tail) (\<lambda>lbuf.
       bind (home_block tail) (\<lambda>dbuf.
       block [copy_block dbuf lbuf, bwrite dbuf, bunpin dbuf, brelse lbuf, brelse dbuf]))))"

definition read_head :: "unit k" where
  "read_head =
     bind (gets k_log) (\<lambda>lg.
     bind (bread (l_dev lg) (l_start lg)) (\<lambda>b.
     bind (gets (\<lambda>s. b_data (k_bufs s b))) (\<lambda>lh.
     seq (modify (upd_log (\<lambda>l. l\<lparr>l_n := sint (ld32 lh 0)\<rparr>))) (
     seq (for_each [0..<nat (sint (ld32 lh 0))] (\<lambda>i.
       modify (upd_log (\<lambda>l. l\<lparr>l_block := (l_block l)(i := ld32 lh (4 + 4 * i))\<rparr>))))
     (brelse b)))))"

definition write_head :: "unit k" where
  "write_head =
     bind (gets k_log) (\<lambda>lg.
     bind (bread (l_dev lg) (l_start lg)) (\<lambda>b.
     seq (modify (\<lambda>s. upd_buf b (\<lambda>bf. bf\<lparr>b_data := st32 (b_data bf) 0 (of_int (l_n lg))\<rparr>) s)) (
     seq (for_each [0..<nat (l_n lg)] (\<lambda>i.
       modify (upd_buf b (\<lambda>bf. bf\<lparr>b_data := st32 (b_data bf) (4 + 4 * i) (l_block lg i)\<rparr>)))) (
     seq (bwrite b) (brelse b)))))"

definition recover_from_log :: "unit k" where
  "recover_from_log = block [
     read_head,
     install_trans,
     modify (upd_log (\<lambda>l. l\<lparr>l_n := 0\<rparr>)),
     write_head]"

text \<open>The check for a log header that does not fit a block compares two constants, 124 and 1024.\<close>

definition initlog :: "u32 \<Rightarrow> unit k" where
  "initlog dev =
     seq (initlock LogLock ''log'') (
     seq (modify (\<lambda>s. upd_log (\<lambda>l. l\<lparr>l_start := sb_logstart (k_sb s),
            l_size := sint (sb_nlog (k_sb s)), l_dev := dev\<rparr>) s))
     recover_from_log)"

text \<open>The loop of \<open>begin_op\<close>, entered with the log's lock held; a woken process re-enters it.\<close>

definition begin_op_loop :: "unit k" where
  "begin_op_loop =
     bind (gets k_log) (\<lambda>lg.
     if l_committing lg then sleep ChLog LogLock
     else if l_n lg + (l_outstanding lg + 1) * 10 > 30 then sleep ChLog LogLock
     else
       seq (modify (upd_log (\<lambda>l. l\<lparr>l_outstanding := l_outstanding l + 1\<rparr>)))
       (release LogLock))"

definition begin_op :: "unit k" where
  "begin_op = seq (acquire LogLock) begin_op_loop"

definition begin_op_wake :: "nat \<Rightarrow> bool \<Rightarrow> unit k" where
  "begin_op_wake p intena = seq (sleep_return p LogLock intena) begin_op_loop"

definition write_log :: "unit k" where
  "write_log =
     bind (gets (\<lambda>s. nat (l_n (k_log s)))) (\<lambda>n.
     for_each [0..<n] (\<lambda>tail.
       bind (log_block tail) (\<lambda>to.
       bind (home_block tail) (\<lambda>from.
       block [copy_block to from, bwrite to, brelse from, brelse to]))))"

definition commit :: "unit k" where
  "commit =
     bind (gets (\<lambda>s. l_n (k_log s))) (\<lambda>n.
     do_when (n > 0) (block [
       write_log,
       write_head,
       install_trans,
       modify (upd_log (\<lambda>l. l\<lparr>l_n := 0\<rparr>)),
       write_head]))"

definition end_op :: "unit k" where
  "end_op =
     seq (acquire LogLock) (
     seq (modify (upd_log (\<lambda>l. l\<lparr>l_outstanding := l_outstanding l - 1\<rparr>))) (
     bind (gets k_log) (\<lambda>lg.
     if l_committing lg then panic ''log.committing''
     else if l_outstanding lg = 0 then
       block [
         modify (upd_log (\<lambda>l. l\<lparr>l_committing := True\<rparr>)),
         release LogLock,
         commit,
         acquire LogLock,
         modify (upd_log (\<lambda>l. l\<lparr>l_committing := False\<rparr>)),
         wakeup ChLog,
         release LogLock]
     else seq (wakeup ChLog) (release LogLock))))"

text \<open>The slot \<open>log_write\<close> uses: that of the same block if it is logged already, else the next.\<close>

definition log_slot :: "logst \<Rightarrow> u32 \<Rightarrow> nat" where
  "log_slot lg blockno =
     (case find (\<lambda>i. l_block lg i = blockno) [0..<nat (l_n lg)] of Some i \<Rightarrow> i | None \<Rightarrow> nat (l_n lg))"

definition log_write :: "nat \<Rightarrow> unit k" where
  "log_write b =
     bind (gets k_log) (\<lambda>lg.
     if l_n lg \<ge> 30 \<or> l_n lg \<ge> l_size lg - 1 then panic ''too big a transaction''
     else if l_outstanding lg < 1 then panic ''log_write outside of trans''
     else
       seq (acquire LogLock) (
       bind (gets (\<lambda>s. b_blockno (k_bufs s b))) (\<lambda>blockno.
       bind (gets (\<lambda>s. log_slot (k_log s) blockno)) (\<lambda>i.
       seq (modify (upd_log (\<lambda>l. l\<lparr>l_block := (l_block l)(i := blockno)\<rparr>))) (
       bind (gets (\<lambda>s. l_n (k_log s))) (\<lambda>n.
       seq (do_when (int i = n)
         (seq (bpin b) (modify (upd_log (\<lambda>l. l\<lparr>l_n := l_n l + 1\<rparr>)))))
       (release LogLock)))))))"

section \<open>The log on the disk\<close>

text \<open>The block a log slot uses, and the two contents of the header block.\<close>

definition slot :: "u32 \<Rightarrow> nat \<Rightarrow> u32" where
  "slot start i = start + of_nat i + 1"

definition header :: "nat \<Rightarrow> (nat \<Rightarrow> u32) \<Rightarrow> bytes \<Rightarrow> bytes" where
  "header n blk d = fold (\<lambda>i d. st32 d (4 + 4 * i) (blk i)) [0..<n] (st32 d 0 (of_nat n))"

lemma header_entries:
  "i < n \<Longrightarrow> ld32 (fold (\<lambda>i d. st32 d (4 + 4 * i) (blk i)) [0..<n] d) (4 + 4 * i) = blk i"
proof (induction n)
  case 0
  then show ?case by simp
next
  case (Suc n)
  then show ?case
    by (cases "i = n") (auto simp: less_Suc_eq)
qed

lemma header_count: "ld32 (fold (\<lambda>i d. st32 d (4 + 4 * i) (blk i)) [0..<n] d) 0 = ld32 d 0"
  by (induction n) simp_all

lemma ld32_header [simp]: "ld32 (header n blk d) 0 = of_nat n" "i < n \<Longrightarrow> ld32 (header n blk d) (4 + 4 * i) = blk i"
  by (simp_all add: header_def header_count header_entries)

text \<open>A disk after some block writes, and what recovery makes of a disk.\<close>

definition written :: "(u32 \<times> bytes) list \<Rightarrow> (u32 \<Rightarrow> bytes) \<Rightarrow> u32 \<Rightarrow> bytes" where
  "written ws d = fold (\<lambda>(n, b) d. d(n := b)) ws d"

definition redo :: "u32 \<Rightarrow> (nat \<Rightarrow> u32) \<Rightarrow> nat \<Rightarrow> (u32 \<Rightarrow> bytes) \<Rightarrow> u32 \<Rightarrow> bytes" where
  "redo start blk i d = d(blk i := overwrite (d (blk i)) 0 BSIZE (d (slot start i)))"

definition recovered :: "u32 \<Rightarrow> (u32 \<Rightarrow> bytes) \<Rightarrow> u32 \<Rightarrow> bytes" where
  "recovered start d =
     fold (redo start (\<lambda>i. ld32 (d start) (4 + 4 * i))) [0..<nat (sint (ld32 (d start) 0))] d"

text \<open>The bytes of a block.\<close>

definition sector :: "bytes \<Rightarrow> u8 list" where
  "sector d = map d [0..<BSIZE]"

lemma sector_eq: "sector d = sector e \<longleftrightarrow> (\<forall>i<BSIZE. d i = e i)"
  unfolding sector_def map_eq_conv set_upt by auto

lemma sector_overwrite [simp]: "sector (overwrite d 0 BSIZE e) = sector e"
  by (simp add: sector_eq)

lemma overwrite_back: "overwrite c 0 BSIZE (overwrite e 0 BSIZE c) = c"
  by (rule ext) (simp add: overwrite_def)

section \<open>What \<open>commit\<close> writes\<close>

text \<open>
  The log has room for the blocks of the transaction: they are distinct, none of them lies in
  the log, every one is pinned in the cache, and nothing is locked. One buffer is left for the
  log blocks.
\<close>

definition log_ready :: "nat \<Rightarrow> kstate \<Rightarrow> bool" where
  "log_ready p s \<longleftrightarrow> (let lg = k_log s; v = cache_view p s in
     cache_ok p s \<and> l_dev lg = 1 \<and> 0 \<le> l_n lg \<and> l_n lg < 30 \<and>
     (\<forall>i<nat (l_n lg). 0 < bv_refs v (l_block lg i) \<and> bv_refs v (l_block lg i) + 1 < 2 ^ 32) \<and>
     (\<forall>i<nat (l_n lg). \<forall>j<nat (l_n lg). l_block lg i = l_block lg j \<longrightarrow> i = j) \<and>
     (\<forall>n. \<not> bv_taken v n) \<and> in_use v < NBUF \<and>
     bv_refs v (l_start lg) = 0 \<and> (\<forall>i<nat (l_n lg). bv_refs v (slot (l_start lg) i) = 0))"

lemma slot_inj: "slot start i = slot start j \<Longrightarrow> i < 2 ^ 31 \<Longrightarrow> j < 2 ^ 31 \<Longrightarrow> i = j"
proof -
  assume eq: "slot start i = slot start j" and "i < 2 ^ 31" "j < 2 ^ 31"
  then have "(of_nat i :: u32) = of_nat j"
    by (simp add: slot_def)
  then have "unat (of_nat i :: u32) = unat (of_nat j :: u32)"
    by simp
  then show ?thesis
    using \<open>i < 2 ^ 31\<close> \<open>j < 2 ^ 31\<close> by (simp add: unat_of_nat)
qed

lemma slot_start: "i < 2 ^ 31 \<Longrightarrow> slot start i \<noteq> start"
proof
  assume "i < 2 ^ 31" "slot start i = start"
  then have "(of_nat (i + 1) :: u32) = 0"
    by (simp add: slot_def add.commute add.left_commute)
  then have "unat (of_nat (i + 1) :: u32) = 0"
    by (simp only: unat_0)
  then show False
    using \<open>i < 2 ^ 31\<close> by (simp add: unat_of_nat del: of_nat_add of_nat_Suc)
qed

lemma written_other: "m \<notin> fst ` set ws \<Longrightarrow> written ws d m = d m"
  by (induction ws arbitrary: d) (auto simp: written_def)

lemma written_append: "written (ws @ ws') d = written ws' (written ws d)"
  by (simp add: written_def)

lemma written_one [simp]: "written [] d = d" "written ((n, b) # ws) d = written ws (d(n := b))"
  by (simp_all add: written_def)

lemma written_map:
  assumes "\<And>i j. i < n \<Longrightarrow> j < n \<Longrightarrow> f i = f j \<Longrightarrow> i = j" and "i < n"
  shows "written (map (\<lambda>i. (f i, g i)) [0..<n]) d (f i) = g i"
  using assms
proof (induction n)
  case 0
  then show ?case by simp
next
  case (Suc n)
  show ?case
  proof (cases "i = n")
    case True
    then show ?thesis by (simp add: written_append)
  next
    case False
    then have "f n \<noteq> f i" and "i < n"
      using Suc.prems(1) [of n i] Suc.prems(2) by auto
    then show ?thesis
      using Suc.IH Suc.prems(1) by (simp add: written_append)
  qed
qed

text \<open>A sequence of block writes as the clients of the cache see it.\<close>

definition seen_updates :: "(u32 \<times> bytes) list \<Rightarrow> 'f bview \<Rightarrow> 'f bview" where
  "seen_updates ws v = v\<lparr>bv_content := written ws (bv_content v), bv_disk := written ws (bv_disk v),
     bv_hist := bv_hist v @ ws\<rparr>"

lemma seen_updates_fields [simp]:
  "bv_content (seen_updates ws v) = written ws (bv_content v)" "bv_disk (seen_updates ws v) = written ws (bv_disk v)"
  "bv_hist (seen_updates ws v) = bv_hist v @ ws" "bv_refs (seen_updates ws v) = bv_refs v"
  "bv_taken (seen_updates ws v) = bv_taken v" "bv_mine (seen_updates ws v) = bv_mine v"
  "bv_rest (seen_updates ws v) = bv_rest v" "in_use (seen_updates ws v) = in_use v"
  by (simp_all add: seen_updates_def in_use_def)

lemma seen_update_snoc: "seen_update x d (seen_updates ws v) = seen_updates (ws @ [(x, d)]) v"
  by (simp add: seen_update_def seen_updates_def written_append)

lemma seen_update_fields [simp]:
  "bv_content (seen_update x d v) = (bv_content v)(x := d)" "bv_refs (seen_update x d v) = bv_refs v"
  "bv_taken (seen_update x d v) = bv_taken v" "bv_rest (seen_update x d v) = bv_rest v"
  "in_use (seen_update x d v) = in_use v"
  by (simp_all add: seen_update_def in_use_def)

text \<open>A loop whose body refines a step on the view.\<close>

lemma for_each_view:
  assumes "\<And>x xs s. I s \<Longrightarrow> Q (x # xs) (view s) \<Longrightarrow>
      \<exists>t. body x s = Ok () t \<and> I t \<and> view t = step x (view s) \<and> Q xs (step x (view s))"
    and "I s" and "Q xs (view s)"
  shows "\<exists>t. for_each xs body s = Ok () t \<and> I t \<and> view t = fold step xs (view s)"
  using assms(2,3)
proof (induction xs arbitrary: s)
  case Nil
  then show ?case by (simp add: run_simps)
next
  case (Cons x xs)
  then obtain t where t: "body x s = Ok () t" "I t" "view t = step x (view s)" "Q xs (view t)"
    using assms(1) [OF Cons.prems] by auto
  then show ?case
    using Cons.IH [OF t(2,4)] by (simp add: run_simps)
qed

lemma bind_same: "(\<And>a t. m s = Ok a t \<Longrightarrow> f a t = g a t) \<Longrightarrow> bind m f s = bind m g s"
  by (auto simp: bind_def split: outcome.split)

section \<open>The steps of \<open>commit\<close>\<close>

definition log_view :: "u32 \<Rightarrow> (nat \<Rightarrow> u32) \<Rightarrow> nat list \<Rightarrow> 'f bview \<Rightarrow> bool" where
  "log_view start blk xs v \<longleftrightarrow> (\<forall>n. \<not> bv_taken v n) \<and> in_use v < NBUF \<and> distinct (map blk xs) \<and>
     (\<forall>i\<in>set xs. i < 30 \<and> bv_refs v (slot start i) = 0 \<and> 0 < bv_refs v (blk i) \<and> bv_refs v (blk i) + 1 < 2 ^ 32)"

lemma log_viewD:
  assumes "log_view start blk xs v"
  shows "\<not> bv_taken v n" and "in_use v < NBUF"
    and "i \<in> set xs \<Longrightarrow> bv_refs v (slot start i) = 0" and "i \<in> set xs \<Longrightarrow> 0 < bv_refs v (blk i)"
    and "i \<in> set xs \<Longrightarrow> bv_refs v (blk i) + 1 < 2 ^ 32"
    and "i \<in> set xs \<Longrightarrow> slot start i \<noteq> blk i"
  using assms by (auto simp: log_view_def)

definition view_log :: "off_cache bview \<Rightarrow> logst" where
  "view_log v = fst (bv_rest v)"

lemma view_log_view [simp]: "view_log (cache_view p s) = k_log s"
  by (simp add: view_log_def cache_view_def off_cache_def)

lemma rd_log:
  assumes "cache_ok p s" and "\<not> bv_taken (cache_view p s) n" and "bv_refs (cache_view p s) n + 1 < 2 ^ 32"
    and "0 < bv_refs (cache_view p s) n \<or> in_use (cache_view p s) < NBUF" and "bread 1 n s = Ok b t"
  shows "k_log t = k_log s"
proof -
  have "cache_view p t = seen_rd n (cache_view p s)"
    using cache_rd [OF assms(1-4)] assms(5) by auto
  then have "view_log (cache_view p t) = view_log (cache_view p s)"
    by (simp add: view_log_def seen_rd_def)
  then show ?thesis by simp
qed

lemma copy_block_put:
  "copy_block b c = modify (\<lambda>s. upd_buf b (\<lambda>bf. bf\<lparr>b_data := overwrite (b_data (k_bufs s b)) 0 BSIZE (b_data (k_bufs s c))\<rparr>) s)"
  by (simp add: copy_block_def upd_buf_def)

definition saved :: "u32 \<Rightarrow> (nat \<Rightarrow> u32) \<Rightarrow> nat \<Rightarrow> 'f bview \<Rightarrow> 'f bview" where
  "saved start blk i v =
     seen_update (slot start i) (overwrite (bv_content v (slot start i)) 0 BSIZE (bv_content v (blk i))) v"

definition installed :: "u32 \<Rightarrow> (nat \<Rightarrow> u32) \<Rightarrow> nat \<Rightarrow> 'f bview \<Rightarrow> 'f bview" where
  "installed start blk i v =
     seen_unpin (blk i) (seen_update (blk i) (overwrite (bv_content v (blk i)) 0 BSIZE (bv_content v (slot start i))) v)"

lemma log_pair:
  assumes "cache_ok p s" and "l_dev (k_log s) = 1" and "\<not> bv_taken (cache_view p s) (slot (l_start (k_log s)) i)"
    and "bv_refs (cache_view p s) (slot (l_start (k_log s)) i) = 0" and "in_use (cache_view p s) < NBUF"
  shows "bind (log_block i) (\<lambda>a. bind (home_block i) (f a)) s =
    bind (bread 1 (slot (l_start (k_log s)) i)) (\<lambda>a. bind (bread 1 (l_block (k_log s) i)) (f a)) s"
proof -
  have log: "log_block i s = bread 1 (slot (l_start (k_log s)) i) s"
    using assms(2) by (simp add: log_block_def run_simps slot_def)
  have "home_block i t = bread 1 (l_block (k_log s) i) t"
    if "bread 1 (slot (l_start (k_log s)) i) s = Ok b t" for b t
    using rd_log [OF assms(1,3) _ _ that] assms(2,4,5) by (simp add: home_block_def run_simps)
  then show ?thesis
    by (simp add: bind_def log cong: outcome.case_cong)
qed

lemma write_log_step:
  assumes "cache_ok p s" and "l_dev (k_log s) = 1"
    and "log_view (l_start (k_log s)) (l_block (k_log s)) (i # xs) (cache_view p s)"
  shows "\<exists>t. bind (log_block i) (\<lambda>to. bind (home_block i) (\<lambda>from.
      block [copy_block to from, bwrite to, brelse from, brelse to])) s = Ok () t \<and> cache_ok p t \<and>
    cache_view p t = saved (l_start (k_log s)) (l_block (k_log s)) i (cache_view p s)"
  using bcache.save_block [OF assms(1), of "slot (l_start (k_log s)) i" "l_block (k_log s) i" "\<lambda>d e. overwrite d 0 BSIZE e"]
    log_viewD [OF assms(3)]
  by (simp add: log_pair [OF assms(1,2)] copy_block_put saved_def)

lemma install_step:
  assumes "cache_ok p s" and "l_dev (k_log s) = 1"
    and "log_view (l_start (k_log s)) (l_block (k_log s)) (i # xs) (cache_view p s)"
  shows "\<exists>t. bind (log_block i) (\<lambda>lbuf. bind (home_block i) (\<lambda>dbuf.
      block [copy_block dbuf lbuf, bwrite dbuf, bunpin dbuf, brelse lbuf, brelse dbuf])) s = Ok () t \<and> cache_ok p t \<and>
    cache_view p t = installed (l_start (k_log s)) (l_block (k_log s)) i (cache_view p s)"
  using bcache.install_block [OF assms(1), of "slot (l_start (k_log s)) i" "l_block (k_log s) i" "\<lambda>d e. overwrite d 0 BSIZE e"]
    log_viewD [OF assms(3)]
  by (simp add: log_pair [OF assms(1,2)] copy_block_put installed_def)

text \<open>The loops.\<close>

lemma log_view_saved: "log_view start blk (i # xs) v \<Longrightarrow> log_view start blk xs (saved start blk i v)"
  by (simp add: log_view_def saved_def)

lemma in_use_unpin: "in_use (seen_unpin n v) \<le> in_use v"
  unfolding in_use_def by (rule card_mono) (auto simp: seen_unpin_def split: if_splits)

lemma log_view_installed:
  assumes "log_view start blk (i # xs) v"
  shows "log_view start blk xs (installed start blk i v)"
proof -
  have "in_use (installed start blk i v) < NBUF"
    using in_use_unpin [of "blk i" "seen_update (blk i) (overwrite (bv_content v (blk i)) 0 BSIZE (bv_content v (slot start i))) v"]
      log_viewD(2) [OF assms] by (simp add: installed_def)
  moreover have "bv_refs (installed start blk i v) n = (if n = blk i then bv_refs v n - 1 else bv_refs v n)"
    and "bv_taken (installed start blk i v) = bv_taken v" for n
    by (simp_all add: installed_def seen_unpin_def)
  ultimately show ?thesis
    using assms by (auto simp: log_view_def) (metis imageI)
qed

lemma view_log_step [simp]: "view_log (saved start blk i v) = view_log v" "view_log (installed start blk i v) = view_log v"
  by (simp_all add: view_log_def saved_def installed_def seen_unpin_def)

lemma write_log_apply:
  assumes "cache_ok p s" and "l_dev (k_log s) = 1" and "n = nat (l_n (k_log s))"
    and "log_view (l_start (k_log s)) (l_block (k_log s)) [0..<n] (cache_view p s)"
  shows "\<exists>t. write_log s = Ok () t \<and> cache_ok p t \<and>
    cache_view p t = fold (saved (l_start (k_log s)) (l_block (k_log s))) [0..<n] (cache_view p s)"
proof -
  let ?lg = "k_log s"
  have "\<exists>t. for_each [0..<n] (\<lambda>tail. bind (log_block tail) (\<lambda>to. bind (home_block tail) (\<lambda>from.
      block [copy_block to from, bwrite to, brelse from, brelse to]))) s = Ok () t \<and> cache_ok p t \<and>
      cache_view p t = fold (saved (l_start ?lg) (l_block ?lg)) [0..<n] (cache_view p s)"
  proof (rule for_each_view [where Q = "\<lambda>xs v. view_log v = ?lg \<and> log_view (l_start ?lg) (l_block ?lg) xs v"])
    fix i xs u
    assume u: "cache_ok p u" "view_log (cache_view p u) = ?lg \<and> log_view (l_start ?lg) (l_block ?lg) (i # xs) (cache_view p u)"
    then have "k_log u = ?lg" by simp
    then show "\<exists>t. bind (log_block i) (\<lambda>to. bind (home_block i) (\<lambda>from.
        block [copy_block to from, bwrite to, brelse from, brelse to])) u = Ok () t \<and> cache_ok p t \<and>
        cache_view p t = saved (l_start ?lg) (l_block ?lg) i (cache_view p u) \<and>
        view_log (saved (l_start ?lg) (l_block ?lg) i (cache_view p u)) = ?lg \<and>
        log_view (l_start ?lg) (l_block ?lg) xs (saved (l_start ?lg) (l_block ?lg) i (cache_view p u))"
      using write_log_step [OF u(1), of i xs] u(2) assms(2) log_view_saved by auto
  qed (use assms in simp_all)
  then show ?thesis
    by (simp add: write_log_def run_simps assms(3))
qed

lemma install_trans_apply:
  assumes "cache_ok p s" and "l_dev (k_log s) = 1" and "n = nat (l_n (k_log s))"
    and "log_view (l_start (k_log s)) (l_block (k_log s)) [0..<n] (cache_view p s)"
  shows "\<exists>t. install_trans s = Ok () t \<and> cache_ok p t \<and>
    cache_view p t = fold (installed (l_start (k_log s)) (l_block (k_log s))) [0..<n] (cache_view p s)"
proof -
  let ?lg = "k_log s"
  have "\<exists>t. for_each [0..<n] (\<lambda>tail. bind (log_block tail) (\<lambda>lbuf. bind (home_block tail) (\<lambda>dbuf.
      block [copy_block dbuf lbuf, bwrite dbuf, bunpin dbuf, brelse lbuf, brelse dbuf]))) s = Ok () t \<and> cache_ok p t \<and>
      cache_view p t = fold (installed (l_start ?lg) (l_block ?lg)) [0..<n] (cache_view p s)"
  proof (rule for_each_view [where Q = "\<lambda>xs v. view_log v = ?lg \<and> log_view (l_start ?lg) (l_block ?lg) xs v"])
    fix i xs u
    assume u: "cache_ok p u" "view_log (cache_view p u) = ?lg \<and> log_view (l_start ?lg) (l_block ?lg) (i # xs) (cache_view p u)"
    then have "k_log u = ?lg" by simp
    then show "\<exists>t. bind (log_block i) (\<lambda>lbuf. bind (home_block i) (\<lambda>dbuf.
        block [copy_block dbuf lbuf, bwrite dbuf, bunpin dbuf, brelse lbuf, brelse dbuf])) u = Ok () t \<and> cache_ok p t \<and>
        cache_view p t = installed (l_start ?lg) (l_block ?lg) i (cache_view p u) \<and>
        view_log (installed (l_start ?lg) (l_block ?lg) i (cache_view p u)) = ?lg \<and>
        log_view (l_start ?lg) (l_block ?lg) xs (installed (l_start ?lg) (l_block ?lg) i (cache_view p u))"
      using install_step [OF u(1), of i xs] u(2) assms(2) log_view_installed by auto
  qed (use assms in simp_all)
  then show ?thesis
    by (simp add: install_trans_def run_simps assms(3))
qed

text \<open>Writing the header.\<close>

lemma for_each_modify: "for_each xs (\<lambda>i. modify (g i)) s = Ok () (fold g xs s)"
  by (induction xs arbitrary: s) (simp_all add: run_simps)

lemma fold_upd_data:
  "fold (\<lambda>i. upd_buf b (\<lambda>bf. bf\<lparr>b_data := f i (b_data bf)\<rparr>)) xs s =
   upd_buf b (\<lambda>bf. bf\<lparr>b_data := fold f xs (b_data (k_bufs s b))\<rparr>) s"
  by (induction xs arbitrary: s) (simp_all add: upd_buf_def)

lemma write_head_apply:
  assumes "cache_ok p s" and "l_dev (k_log s) = 1" and "l_n (k_log s) = int n"
    and "\<not> bv_taken (cache_view p s) (l_start (k_log s))" and "bv_refs (cache_view p s) (l_start (k_log s)) = 0"
    and "in_use (cache_view p s) < NBUF"
  shows "\<exists>t. write_head s = Ok () t \<and> cache_ok p t \<and>
    cache_view p t = seen_update (l_start (k_log s))
      (header n (l_block (k_log s)) (bv_content (cache_view p s) (l_start (k_log s)))) (cache_view p s)"
proof -
  let ?lg = "k_log s"
  have "seq (modify (\<lambda>s. upd_buf b (\<lambda>bf. bf\<lparr>b_data := st32 (b_data bf) 0 (of_int (l_n ?lg))\<rparr>) s))
      (seq (for_each [0..<nat (l_n ?lg)] (\<lambda>i.
         modify (upd_buf b (\<lambda>bf. bf\<lparr>b_data := st32 (b_data bf) (4 + 4 * i) (l_block ?lg i)\<rparr>)))) m) =
    seq (modify (\<lambda>s. upd_buf b (\<lambda>bf. bf\<lparr>b_data := header n (l_block ?lg) (b_data (k_bufs s b))\<rparr>) s)) m"
    for b and m :: "unit k"
    by (rule ext)
      (simp add: run_simps seq_Ok [OF for_each_modify] fold_upd_data [where f = "\<lambda>i d. st32 d (4 + 4 * i) (l_block ?lg i)"] assms(3),
       simp add: upd_buf_def header_def)
  then show ?thesis
    using bcache.rewrite_block [OF assms(1,4,5,6), of "header n (l_block ?lg)"]
    by (simp add: write_head_def run_simps assms(2))
qed

text \<open>The writes of the two loops, in the order they reach the disk.\<close>

definition log_copies :: "u32 \<Rightarrow> (nat \<Rightarrow> u32) \<Rightarrow> nat \<Rightarrow> (u32 \<Rightarrow> bytes) \<Rightarrow> (u32 \<times> bytes) list" where
  "log_copies start blk n c =
     map (\<lambda>i. (slot start i, overwrite (c (slot start i)) 0 BSIZE (c (blk i)))) [0..<n]"

definition home_copies :: "(nat \<Rightarrow> u32) \<Rightarrow> nat \<Rightarrow> (u32 \<Rightarrow> bytes) \<Rightarrow> (u32 \<times> bytes) list" where
  "home_copies blk n c = map (\<lambda>i. (blk i, c (blk i))) [0..<n]"

text \<open>The home blocks are distinct and lie outside the log.\<close>

definition apart :: "u32 \<Rightarrow> (nat \<Rightarrow> u32) \<Rightarrow> nat \<Rightarrow> bool" where
  "apart start blk n \<longleftrightarrow> n < 30 \<and> inj_on blk {..<n} \<and> (\<forall>i<n. blk i \<noteq> start \<and> (\<forall>j<n. blk i \<noteq> slot start j))"

lemma apartD:
  assumes "apart start blk n"
  shows "n < 30" and "i < n \<Longrightarrow> j < n \<Longrightarrow> blk i = blk j \<Longrightarrow> i = j" and "i < n \<Longrightarrow> blk i \<noteq> start"
    and "i < n \<Longrightarrow> j < n \<Longrightarrow> slot start j \<noteq> blk i"
    and "i < n \<Longrightarrow> j < n \<Longrightarrow> slot start i = slot start j \<Longrightarrow> i = j" and "j < n \<Longrightarrow> slot start j \<noteq> start"
  using assms slot_inj [of start i j] slot_start [of j start] unfolding apart_def inj_on_def by (force+)

lemma apart_less: "apart start blk n \<Longrightarrow> m \<le> n \<Longrightarrow> apart start blk m"
  by (auto simp: apart_def inj_on_def)

lemma fst_copies [simp]:
  "fst ` set (log_copies start blk n c) = slot start ` {..<n}" "fst ` set (home_copies blk n c) = blk ` {..<n}"
  by (auto simp: log_copies_def home_copies_def image_image)

lemma copies_Suc:
  "log_copies start blk (Suc n) c =
     log_copies start blk n c @ [(slot start n, overwrite (c (slot start n)) 0 BSIZE (c (blk n)))]"
  "home_copies blk (Suc n) c = home_copies blk n c @ [(blk n, c (blk n))]"
  by (simp_all add: log_copies_def home_copies_def)

lemma length_copies [simp]: "length (log_copies start blk n c) = n" "length (home_copies blk n c) = n"
  by (simp_all add: log_copies_def home_copies_def)

lemma written_copies:
  "m \<notin> slot start ` {..<n} \<Longrightarrow> written (log_copies start blk n c) d m = d m"
  "m \<notin> blk ` {..<n} \<Longrightarrow> written (home_copies blk n c) d m = d m"
  by (simp_all add: written_other)

lemma log_copies_home [simp]: "apart start blk n \<Longrightarrow> i < n \<Longrightarrow> written (log_copies start blk n c) d (blk i) = d (blk i)"
  by (rule written_copies) (auto dest: apartD(4))

lemma log_copies_start [simp]: "apart start blk n \<Longrightarrow> written (log_copies start blk n c) d start = d start"
  by (rule written_copies) (auto dest: apartD(6))

lemma log_copies_slot:
  assumes "apart start blk n" and "i < n"
  shows "written (log_copies start blk n c) d (slot start i) = overwrite (c (slot start i)) 0 BSIZE (c (blk i))"
  unfolding log_copies_def by (rule written_map [OF apartD(5) [OF assms(1)] assms(2)])

lemma home_copies_home:
  assumes "apart start blk n" and "i < n"
  shows "written (home_copies blk n c) d (blk i) = c (blk i)"
  unfolding home_copies_def by (rule written_map [OF apartD(2) [OF assms(1)] assms(2)])

lemma fold_saved:
  "apart start blk n \<Longrightarrow> fold (saved start blk) [0..<n] v = seen_updates (log_copies start blk n (bv_content v)) v"
proof (induction n)
  case 0
  then show ?case by (simp add: log_copies_def seen_updates_def)
next
  case (Suc n)
  let ?w = "log_copies start blk n (bv_content v)"
  have "written ?w (bv_content v) (slot start n) = bv_content v (slot start n)"
    using apartD(5) [OF Suc.prems, of _ n] by (intro written_copies) (metis imageE lessI lessThan_iff less_SucI less_irrefl_nat)
  moreover have "written ?w (bv_content v) (blk n) = bv_content v (blk n)"
    using apartD(4) [OF Suc.prems, of n] by (intro written_copies) (metis imageE lessI lessThan_iff less_SucI)
  ultimately show ?case
    using Suc.IH [OF apart_less [OF Suc.prems]] by (simp add: saved_def copies_Suc seen_update_snoc)
qed

lemma unpin_fields [simp]:
  "bv_content (fold (\<lambda>i. seen_unpin (blk i)) xs v) = bv_content v" "bv_disk (fold (\<lambda>i. seen_unpin (blk i)) xs v) = bv_disk v"
  "bv_hist (fold (\<lambda>i. seen_unpin (blk i)) xs v) = bv_hist v" "bv_taken (fold (\<lambda>i. seen_unpin (blk i)) xs v) = bv_taken v"
  "bv_rest (fold (\<lambda>i. seen_unpin (blk i)) xs v) = bv_rest v"
  by (induction xs arbitrary: v) (simp_all add: seen_unpin_def)

lemma unpin_update:
  "seen_update x d (fold (\<lambda>i. seen_unpin (blk i)) xs v) = fold (\<lambda>i. seen_unpin (blk i)) xs (seen_update x d v)"
proof (induction xs arbitrary: v)
  case (Cons y xs)
  have "seen_update x d (seen_unpin (blk y) v) = seen_unpin (blk y) (seen_update x d v)"
    by (simp add: seen_unpin_def seen_update_def)
  then show ?case
    by (simp add: Cons)
qed simp

lemma unpin_refs: "m \<notin> blk ` set xs \<Longrightarrow> bv_refs (fold (\<lambda>i. seen_unpin (blk i)) xs v) m = bv_refs v m"
  by (induction xs arbitrary: v) (auto simp: seen_unpin_def)

lemma in_use_unpins: "in_use (fold (\<lambda>i. seen_unpin (blk i)) xs v) \<le> in_use v"
proof (induction xs arbitrary: v)
  case (Cons x xs)
  show ?case
    using Cons [of "seen_unpin (blk x) v"] in_use_unpin [of "blk x" v] by simp
qed simp

text \<open>Installing the blocks that the log holds.\<close>

lemma fold_installed:
  assumes "apart start blk n"
    and "\<And>i. i < n \<Longrightarrow> bv_content v (slot start i) = overwrite (e i) 0 BSIZE (bv_content v (blk i))"
  shows "fold (installed start blk) [0..<n] v =
    fold (\<lambda>i. seen_unpin (blk i)) [0..<n] (seen_updates (home_copies blk n (bv_content v)) v)"
  using assms
proof (induction n)
  case 0
  then show ?case by (simp add: home_copies_def seen_updates_def)
next
  case (Suc n)
  let ?w = "home_copies blk n (bv_content v)"
  have "written ?w (bv_content v) (blk n) = bv_content v (blk n)"
    using apartD(2) [OF Suc.prems(1), of _ n] by (intro written_copies) (metis imageE lessI lessThan_iff less_SucI less_irrefl_nat)
  moreover have "written ?w (bv_content v) (slot start n) = bv_content v (slot start n)"
    using apartD(4) [OF Suc.prems(1), of _ n] by (intro written_copies) (metis imageE lessI lessThan_iff less_SucI)
  ultimately show ?case
    using Suc.IH [OF apart_less [OF Suc.prems(1)]] Suc.prems(2)
    by (simp add: installed_def copies_Suc unpin_update seen_update_snoc overwrite_back)
qed

text \<open>All writes of \<open>commit\<close>: the log, the header, the home blocks, the erased header.\<close>

definition commit_writes :: "u32 \<Rightarrow> (nat \<Rightarrow> u32) \<Rightarrow> nat \<Rightarrow> (u32 \<Rightarrow> bytes) \<Rightarrow> (u32 \<times> bytes) list" where
  "commit_writes start blk n c = log_copies start blk n c @ [(start, header n blk (c start))] @
     home_copies blk n c @ [(start, header 0 blk (header n blk (c start)))]"

lemma log_readyD:
  assumes "log_ready p s" and "n = nat (l_n (k_log s))"
  shows "cache_ok p s" and "l_dev (k_log s) = 1" and "l_n (k_log s) = int n"
    and "log_view (l_start (k_log s)) (l_block (k_log s)) [0..<n] (cache_view p s)"
    and "apart (l_start (k_log s)) (l_block (k_log s)) n"
    and "bv_refs (cache_view p s) (l_start (k_log s)) = 0" and "\<not> bv_taken (cache_view p s) m"
  using assms by (auto simp: log_ready_def Let_def log_view_def apart_def distinct_map inj_on_def)

lemma home_copies_cong: "(\<And>i. i < n \<Longrightarrow> c (blk i) = d (blk i)) \<Longrightarrow> home_copies blk n c = home_copies blk n d"
  by (simp add: home_copies_def)

lemma log_view_updates [simp]: "log_view start blk xs (seen_updates ws v) = log_view start blk xs v"
  by (simp add: log_view_def)

lemma view_log_updates [simp]:
  "view_log (seen_updates ws v) = view_log v" "view_log (seen_update x d v) = view_log v"
  "view_log (fold (\<lambda>i. seen_unpin (blk i)) xs v) = view_log v"
  by (simp_all add: view_log_def)

lemma seen_updates_twice: "seen_updates ws' (seen_updates ws v) = seen_updates (ws @ ws') v"
  by (simp add: seen_updates_def written_append)

lemma view_logD: "cache_view p t = v \<Longrightarrow> k_log t = view_log v"
  by auto

lemma cache_upd_log [simp]: "cache_ok p (upd_log f s) = cache_ok p s"
  by (simp add: cache_ok_def upd_log_def buf_ok_def quiet_def calm_def running_def mycpu_def lock_free_def)

lemma cache_upd_log_fields [simp]:
  "cache_content (upd_log f s) = cache_content s" "cache_refs (upd_log f s) = cache_refs s"
  "cache_taken (upd_log f s) = cache_taken s" "cache_mine p (upd_log f s) = cache_mine p s"
  by (rule ext; simp add: cache_content_def cache_refs_def cache_taken_def cache_mine_def upd_log_def split: option.split)+

lemma cache_view_upd_log:
  "cache_view p (upd_log f s) = cache_view p s\<lparr>bv_rest := (f (k_log s), snd (bv_rest (cache_view p s)))\<rparr>"
  by (simp add: cache_view_def) (simp add: upd_log_def off_cache_def)

text \<open>The first half of \<open>commit\<close>: the blocks reach the log, then the header names them.\<close>

definition logged :: "u32 \<Rightarrow> (nat \<Rightarrow> u32) \<Rightarrow> nat \<Rightarrow> (u32 \<Rightarrow> bytes) \<Rightarrow> (u32 \<times> bytes) list" where
  "logged start blk n c = log_copies start blk n c @ [(start, header n blk (c start))]"

lemma logged_content:
  assumes "apart start blk n"
  shows "i < n \<Longrightarrow> written (logged start blk n c) c (blk i) = c (blk i)"
    and "i < n \<Longrightarrow> written (logged start blk n c) c (slot start i) = overwrite (c (slot start i)) 0 BSIZE (c (blk i))"
    and "written (logged start blk n c) c start = header n blk (c start)"
  using assms apartD(3,6) [OF assms]
  by (simp_all add: logged_def written_append log_copies_slot)

lemma log_phase:
  assumes "log_ready p s" and "n = nat (l_n (k_log s))"
  defines "ws \<equiv> logged (l_start (k_log s)) (l_block (k_log s)) n (cache_content s)"
  obtains t where "seq write_log write_head s = Ok () t" and "cache_ok p t"
    and "cache_view p t = seen_updates ws (cache_view p s)"
proof -
  let ?st = "l_start (k_log s)" and ?blk = "l_block (k_log s)" and ?c = "cache_content s"
  note r = log_readyD [OF assms(1,2)]
  have view: "bv_content (cache_view p s) = ?c"
    by (simp add: cache_view_def)
  obtain t1 where t1: "write_log s = Ok () t1" "cache_ok p t1" "cache_view p t1 = seen_updates (log_copies ?st ?blk n ?c) (cache_view p s)"
    using write_log_apply [OF r(1,2) assms(2) r(4)] fold_saved [OF r(5), of "cache_view p s"] by (auto simp: view)
  have lg1: "k_log t1 = k_log s"
    using view_logD [OF t1(3)] by simp
  obtain t2 where t2: "write_head t1 = Ok () t2" "cache_ok p t2"
      "cache_view p t2 = seen_update ?st (header n ?blk (?c ?st)) (cache_view p t1)"
    using write_head_apply [OF t1(2), of n] r(2,3,6,7) log_copies_start [OF r(5)] log_viewD(2) [OF r(4)]
    by (simp add: lg1 t1(3) view) metis
  show thesis
    using that [of t2] t1 t2 by (simp add: run_simps seen_update_snoc ws_def logged_def)
qed

text \<open>The second half: the blocks reach their homes, then the header is erased.\<close>

lemma home_phase:
  assumes "cache_ok p t" and "l_dev (k_log t) = 1" and "n = nat (l_n (k_log t))" and "l_n (k_log t) = int n"
    and "log_view (l_start (k_log t)) (l_block (k_log t)) [0..<n] (cache_view p t)"
    and "apart (l_start (k_log t)) (l_block (k_log t)) n" and "bv_refs (cache_view p t) (l_start (k_log t)) = 0"
    and "\<And>i. i < n \<Longrightarrow> cache_content t (slot (l_start (k_log t)) i) = overwrite (e i) 0 BSIZE (cache_content t (l_block (k_log t) i))"
  defines "ws \<equiv> home_copies (l_block (k_log t)) n (cache_content t) @
      [(l_start (k_log t), header 0 (l_block (k_log t)) (cache_content t (l_start (k_log t))))]"
  obtains u where "block [install_trans, modify (upd_log (\<lambda>l. l\<lparr>l_n := 0\<rparr>)), write_head] t = Ok () u"
    and "cache_ok p u" and "k_log u = k_log t\<lparr>l_n := 0\<rparr>" 
    and "cache_view p u\<lparr>bv_rest := bv_rest (cache_view p t)\<rparr> =
      fold (\<lambda>i. seen_unpin (l_block (k_log t) i)) [0..<n] (seen_updates ws (cache_view p t))"
proof -
  let ?st = "l_start (k_log t)" and ?blk = "l_block (k_log t)" and ?c = "cache_content t"
  let ?unpin = "fold (\<lambda>i. seen_unpin (?blk i)) [0..<n]"
  have view: "bv_content (cache_view p t) = ?c"
    by (simp add: cache_view_def)
  obtain t3 where t3: "install_trans t = Ok () t3" "cache_ok p t3"
      "cache_view p t3 = ?unpin (seen_updates (home_copies ?blk n ?c) (cache_view p t))"
    using install_trans_apply [OF assms(1-3,5)] fold_installed [OF assms(6), of "cache_view p t" e] assms(8)
    by (simp add: view) metis
  have lg3: "k_log t3 = k_log t"
    using view_logD [OF t3(3)] by simp
  have st: "?st \<notin> ?blk ` {..<n}" "?st \<notin> ?blk ` set [0..<n]"
    using apartD(3) [OF assms(6)] by (metis imageE lessThan_iff, metis imageE atLeastLessThan_iff set_upt)
  let ?t4 = "upd_log (\<lambda>l. l\<lparr>l_n := 0\<rparr>) t3"
  have lg4: "k_log ?t4 = k_log t\<lparr>l_n := 0\<rparr>"
    by (simp add: upd_log_def lg3)
  have v4: "\<not> bv_taken (cache_view p ?t4) ?st" "bv_refs (cache_view p ?t4) ?st = 0"
    "bv_content (cache_view p ?t4) ?st = ?c ?st"
    using log_viewD(1) [OF assms(5)] assms(7)
    by (simp_all add: cache_view_upd_log t3(3) view unpin_refs [OF st(2)] written_copies(2) [OF st(1)])
  have v4u: "in_use (cache_view p ?t4) < NBUF"
  proof -
    have "in_use (cache_view p ?t4) = in_use (cache_view p t3)"
      by (simp add: in_use_def cache_view_upd_log)
    then show ?thesis
      using in_use_unpins [of ?blk "[0..<n]" "seen_updates (home_copies ?blk n ?c) (cache_view p t)"] log_viewD(2) [OF assms(5)]
      by (simp add: t3(3))
  qed
  obtain u where u: "write_head ?t4 = Ok () u" "cache_ok p u"
      "cache_view p u = seen_update ?st (header 0 ?blk (?c ?st)) (cache_view p ?t4)"
    using write_head_apply [of p ?t4 0] v4 v4u t3(2) assms(2) by (simp add: lg4) metis
  show thesis
  proof (rule that [of u])
    show "block [install_trans, modify (upd_log (\<lambda>l. l\<lparr>l_n := 0\<rparr>)), write_head] t = Ok () u"
      using t3(1) u(1) by (simp add: run_simps)
    show "k_log u = k_log t\<lparr>l_n := 0\<rparr>"
      using view_logD [OF u(3)] lg4 by simp
    show "cache_view p u\<lparr>bv_rest := bv_rest (cache_view p t)\<rparr> = ?unpin (seen_updates ws (cache_view p t))"
      unfolding ws_def seen_update_snoc [symmetric] unpin_update [symmetric] t3(3) [symmetric] u(3) cache_view_upd_log
      by (simp add: seen_update_def) (simp add: t3(3))
  qed (rule u(2))
qed

lemma commit_writes_split:
  "apart start blk n \<Longrightarrow> commit_writes start blk n c = logged start blk n c @
     home_copies blk n (written (logged start blk n c) c) @ [(start, header 0 blk (written (logged start blk n c) c start))]"
  using home_copies_cong [of n c blk "written (logged start blk n c) c"]
  by (simp add: commit_writes_def logged_def [of start blk n c, symmetric] logged_content)

lemma commit_runs:
  assumes "log_ready p s" and "n = nat (l_n (k_log s))" and "0 < l_n (k_log s)"
  defines "ws \<equiv> commit_writes (l_start (k_log s)) (l_block (k_log s)) n (cache_content s)"
  obtains u where "commit s = Ok () u" and "cache_ok p u" and "k_log u = k_log s\<lparr>l_n := 0\<rparr>"
    and "k_dhist u = k_dhist s @ ws" and "k_disk u = written ws (k_disk s)" and "cache_content u = written ws (cache_content s)"
proof -
  let ?st = "l_start (k_log s)" and ?blk = "l_block (k_log s)" and ?c = "cache_content s"
  note r = log_readyD [OF assms(1,2)]
  obtain t where t: "seq write_log write_head s = Ok () t" "cache_ok p t" 
      "cache_view p t = seen_updates (logged ?st ?blk n ?c) (cache_view p s)"
    by (rule log_phase [OF assms(1,2)])
  have lg: "k_log t = k_log s"
    using view_logD [OF t(3)] by simp
  have content: "cache_content t = written (logged ?st ?blk n ?c) ?c"
    using t(3) by (auto simp: cache_view_def seen_updates_def)
  obtain u where u: "block [install_trans, modify (upd_log (\<lambda>l. l\<lparr>l_n := 0\<rparr>)), write_head] t = Ok () u"
      "cache_ok p u" "k_log u = k_log t\<lparr>l_n := 0\<rparr>" 
      "cache_view p u\<lparr>bv_rest := bv_rest (cache_view p t)\<rparr> =
        fold (\<lambda>i. seen_unpin (?blk i)) [0..<n] (seen_updates (home_copies ?blk n (cache_content t) @
          [(?st, header 0 ?blk (cache_content t ?st))]) (cache_view p t))"
  proof (rule home_phase [OF t(2), of n "\<lambda>i. ?c (slot ?st i)", unfolded lg, OF r(2) assms(2) r(3) _ r(5)])
    show "log_view ?st ?blk [0..<n] (cache_view p t)" and "bv_refs (cache_view p t) ?st = 0"
      using r(4,6) by (simp_all add: t(3))
    show "cache_content t (slot ?st i) = overwrite (?c (slot ?st i)) 0 BSIZE (cache_content t (?blk i))" if "i < n" for i
      using that by (simp add: content logged_content [OF r(5)])
  qed (simp add: lg)
  have view: "cache_view p u\<lparr>bv_rest := bv_rest (cache_view p t)\<rparr> =
      fold (\<lambda>i. seen_unpin (?blk i)) [0..<n] (seen_updates ws (cache_view p s))"
    using u(4) commit_writes_split [OF r(5), of ?c] by (simp add: t(3) content seen_updates_twice ws_def)
  have "commit s = seq (seq write_log write_head) (block [install_trans, modify (upd_log (\<lambda>l. l\<lparr>l_n := 0\<rparr>)), write_head]) s"
    using assms(3) by (simp add: commit_def run_simps seq_assoc)
  then have "commit s = Ok () u"
    using t(1) u(1) by (simp add: seq_Ok)
  moreover have "k_dhist u = k_dhist s @ ws" "k_disk u = written ws (k_disk s)" "cache_content u = written ws ?c"
    using arg_cong [OF view, of bv_hist] arg_cong [OF view, of bv_disk] arg_cong [OF view, of bv_content]
    by (simp_all add: cache_view_def)
  ultimately show thesis
    using that u(2,3) lg by simp
qed

section \<open>Crashes\<close>

text \<open>Recovery leaves a disk alone whose header is empty, and completes one whose header names the logged blocks.\<close>

lemma recovered_empty: "ld32 (d start) 0 = 0 \<Longrightarrow> recovered start d = d"
  by (simp add: recovered_def)

lemma fold_redo:
  assumes "apart start blk n" and "\<And>i. i < n \<Longrightarrow> sector (d (slot start i)) = sector (c (blk i))"
  shows "sector (fold (redo start blk) [0..<n] d m) = (if m \<in> blk ` {..<n} then sector (c m) else sector (d m))"
  using assms
proof (induction n arbitrary: m)
  case 0
  then show ?case by simp
next
  case (Suc n)
  let ?e = "fold (redo start blk) [0..<n] d"
  have IH: "sector (?e m) = (if m \<in> blk ` {..<n} then sector (c m) else sector (d m))" for m
    by (rule Suc.IH [OF apart_less [OF Suc.prems(1)]]) (simp_all add: Suc.prems(2))
  have "slot start n \<notin> blk ` {..<n}"
    using apartD(4) [OF Suc.prems(1), of _ n] by (metis imageE lessI lessThan_iff less_SucI)
  then have "sector (?e (slot start n)) = sector (c (blk n))"
    using IH Suc.prems(2) by simp
  then show ?case
    using IH by (simp add: redo_def [of _ _ n] lessThan_Suc)
qed

lemma sint_small: "n < 2 ^ 31 \<Longrightarrow> sint (of_nat n :: u32) = int n"
  by (simp add: signed_of_nat signed_take_bit_int_eq_self)

lemma recovered_full:
  assumes "apart start blk n" and "d start = header n blk e" and "\<And>i. i < n \<Longrightarrow> sector (d (slot start i)) = sector (c (blk i))"
  shows "sector (recovered start d m) = (if m \<in> blk ` {..<n} then sector (c m) else sector (d m))"
proof -
  have "nat (sint (ld32 (d start) 0)) = n"
    using apartD(1) [OF assms(1)] by (simp add: assms(2) sint_small)
  moreover have "fold (redo start (\<lambda>i. ld32 (d start) (4 + 4 * i))) [0..<n] d = fold (redo start blk) [0..<n] d"
    by (rule fold_cong) (simp_all add: assms(2) redo_def fun_eq_iff)
  ultimately show ?thesis
    using fold_redo [where d = d and c = c and m = m, OF assms(1)] assms(3) by (simp add: recovered_def)
qed

lemma take_writes:
  "length (commit_writes start blk n c) = 2 * n + 2"
  "k \<le> n \<Longrightarrow> take k (commit_writes start blk n c) = take k (log_copies start blk n c)"
  "n < k \<Longrightarrow> k \<le> 2 * n + 1 \<Longrightarrow>
     take k (commit_writes start blk n c) = logged start blk n c @ take (k - n - 1) (home_copies blk n c)"
  by (simp_all add: commit_writes_def logged_def take_Cons')

lemma take_copies:
  "j \<le> n \<Longrightarrow> take j (log_copies start blk n c) = log_copies start blk j c"
  "j \<le> n \<Longrightarrow> take j (home_copies blk n c) = home_copies blk j c"
  by (simp_all add: log_copies_def home_copies_def take_map)

lemma home_copies_upto:
  "apart start blk n \<Longrightarrow> j \<le> n \<Longrightarrow>
     written (home_copies blk j c) d m = (if m \<in> blk ` {..<j} then c m else d m)"
  using home_copies_home [of start blk j] apart_less [of start blk n j] by (auto simp: written_copies)

lemma written_logged:
  "m \<noteq> start \<Longrightarrow> m \<notin> slot start ` {..<n} \<Longrightarrow> written (logged start blk n c) d m = d m"
  by (simp add: logged_def written_append written_copies)

text \<open>
  A crash after the first \<open>k\<close> writes of \<open>commit\<close>, followed by recovery: before the header is
  written nothing has happened, from then on everything has.
\<close>

lemma crash_before:
  assumes "apart start blk n" and "ld32 (d start) 0 = 0" and "k \<le> n" and "m \<notin> slot start ` {..<n}"
  shows "recovered start (written (take k (commit_writes start blk n c)) d) m = d m"
proof -
  have "written (log_copies start blk k c) d start = d start"
    using log_copies_start [OF apart_less [OF assms(1,3)]] .
  then have "recovered start (written (log_copies start blk k c) d) = written (log_copies start blk k c) d"
    by (simp add: recovered_empty assms(2))
  then show ?thesis
    using assms(3,4) by (simp add: take_writes take_copies written_copies subset_iff image_iff)
qed

lemma crash_after:
  assumes "apart start blk n" and "n < k" and "m \<noteq> start" and "m \<notin> slot start ` {..<n}"
  shows "sector (recovered start (written (take k (commit_writes start blk n c)) d) m) =
    sector (if m \<in> blk ` {..<n} then c m else d m)"
proof (cases "k \<le> 2 * n + 1")
  case True
  let ?j = "k - n - 1"
  let ?d = "written (take k (commit_writes start blk n c)) d"
  have j: "?j \<le> n"
    using assms(2) True by simp
  have d: "?d = written (home_copies blk ?j c) (written (logged start blk n c) d)"
    using assms(2) True j by (simp add: take_writes take_copies written_append)
  have "start \<notin> blk ` {..<?j}"
    using apartD(3) [OF assms(1)] j by (metis imageE lessThan_iff less_le_trans)
  then have "?d start = header n blk (c start)"
    unfolding d home_copies_upto [OF assms(1) j] by (auto simp: logged_def written_append)
  moreover have "sector (?d (slot start i)) = sector (c (blk i))" if "i < n" for i
    using apartD(4,6) [OF assms(1)] j that unfolding d home_copies_upto [OF assms(1) j]
    by (auto simp: logged_def written_append log_copies_slot [OF assms(1)])
  ultimately have "sector (recovered start ?d m) = (if m \<in> blk ` {..<n} then sector (c m) else sector (?d m))"
    by (rule recovered_full [OF assms(1)])
  then show ?thesis
    using assms(3,4) j unfolding d home_copies_upto [OF assms(1) j] by (auto simp: written_logged)
next
  case False
  then have "take k (commit_writes start blk n c) = commit_writes start blk n c"
    by (simp add: take_writes)
  moreover have "recovered start (written (commit_writes start blk n c) d) = written (commit_writes start blk n c) d"
    by (rule recovered_empty) (simp add: commit_writes_def written_append)
  moreover have "written (commit_writes start blk n c) d m = (if m \<in> blk ` {..<n} then c m else d m)"
    using assms(3,4) home_copies_upto [OF assms(1) order_refl]
    by (simp add: commit_writes_def written_append written_copies)
  ultimately show ?thesis by simp
qed

section \<open>Recovery\<close>

text \<open>
  \<open>install_trans\<close> drops a pin from every block it installs. Recovery runs it on blocks that
  nobody pinned, so their reference counts wrap around to the largest 32-bit number.
\<close>

definition leaked :: "u32 \<Rightarrow> 'f bview \<Rightarrow> 'f bview" where
  "leaked y v = v\<lparr>bv_refs := (bv_refs v)(y := 2 ^ 32 - 1), bv_taken := (bv_taken v)(y := False),
     bv_mine := (bv_mine v)(y := False)\<rparr>"

lemma over_release:
  assumes "cache_ok p s" and "cache_bound s l x" and "cache_bound s d y" and "x \<noteq> y"
    and "bv_mine (cache_view p s) x" and "bv_mine (cache_view p s) y"
    and "bv_content (cache_view p s) x = bv_disk (cache_view p s) x" and "bv_refs (cache_view p s) y = 1"
  shows "\<exists>t. block [bunpin d, brelse l, brelse d] s = Ok () t \<and> cache_ok p t \<and>
    cache_view p t = leaked y (seen_rel x (cache_view p s))"
proof -
  note l = boundD [OF assms(1,2)] and d = boundD [OF assms(1,3)]
  have "l \<noteq> d"
    using l(3) d(3) assms(4) by auto
  have one: "b_refcnt (k_bufs s d) = 1"
    using d(6) assms(8) by (simp add: word_unat_eq_iff)
  have q: "quiet p s" "quiet p (recount d 0 s)"
    using assms(1) by (simp_all add: cache_okD recount_def)
  define t where "t = let_go l s"
  have held: "sk_locked (k_slocks s (BufSleep l))" "sk_pid (k_slocks s (BufSleep l)) = p_pid (k_procs s p)"
    using l(8) assms(5) by simp_all
  have 1: "bunpin d s = Ok () (recount d 0 s)"
    by (simp add: bunpin_quiet [OF q(1)] one)
  have 2: "brelse l (recount d 0 s) = Ok () (recount d 0 t)"
    using brelse_quiet [OF q(2), of l] held \<open>l \<noteq> d\<close> by (simp add: let_go_recount t_def) (simp add: recount_def)
  have "brelse l s = Ok () t"
    using brelse_quiet [OF q(1) held] by (simp add: t_def)
  then have t: "cache_ok p t" "cache_view p t = seen_rel x (cache_view p s)" "cache_bound t d y"
    using cache_rel [OF assms(1,2,5)] assms(3,4,7) by auto
  have "sk_locked (k_slocks t (BufSleep d))" "sk_pid (k_slocks t (BufSleep d)) = p_pid (k_procs t p)"
    using boundD(8) [OF t(1,3)] assms(4,6) by (simp_all add: t(2) seen_rel_def)
  then have 3: "brelse d (recount d 0 t) = Ok () (recount d (- 1) (sl_dropped (BufSleep d) t))"
    using brelse_quiet [of p "recount d 0 t" d] cache_okD(1) [OF t(1)]
    by (simp add: let_go_def recount_commutes) (simp add: recount_def)
  let ?u = "sl_dropped (BufSleep d) t"
  have u: "cache_ok p ?u" "cache_bound ?u d y"
    using cache_sl_dropped [OF t(1,3)] t(3) by simp_all
  have "unat (- 1 :: u32) = 2 ^ 32 - 1"
    by (simp add: unsigned_minus_1_eq_mask mask_eq_exp_minus_1)
  then have "cache_view p (recount d (- 1) ?u) = leaked y (cache_view p t)"
    using cache_recount(2) [OF u, of "- 1"] cache_sl_dropped(2) [OF t(1,3)] arg_cong [OF cache_sl_dropped(2) [OF t(1,3)], of bv_refs]
    by (simp add: leaked_def cache_view_def)
  then show ?thesis
    using 1 2 3 cache_recount(1) [OF u, of "- 1"] t(2)
    by (intro exI [of _ "recount d (- 1) ?u"]) (simp add: run_simps)
qed

lemma in_use_rd: "in_use (seen_rd x v) \<le> in_use v + 1"
proof -
  have "{n. 0 < bv_refs (seen_rd x v) n} \<subseteq> insert x {n. 0 < bv_refs v n}"
    by (auto simp: seen_rd_def)
  then have "in_use (seen_rd x v) \<le> card (insert x {n. 0 < bv_refs v n})"
    unfolding in_use_def by (rule card_mono [rotated]) simp
  then show ?thesis
    using card_insert_le_m1 [of "Suc (in_use v)" "{n. 0 < bv_refs v n}" x] by (simp add: in_use_def)
qed

definition redone :: "u32 \<Rightarrow> (nat \<Rightarrow> u32) \<Rightarrow> nat \<Rightarrow> 'f bview \<Rightarrow> 'f bview" where
  "redone start blk i v =
     (seen_update (blk i) (overwrite (bv_content v (blk i)) 0 BSIZE (bv_content v (slot start i))) v)
     \<lparr>bv_refs := (bv_refs v)(blk i := 2 ^ 32 - 1)\<rparr>"

lemma reinstall_block:
  assumes "cache_ok p s" and "x \<noteq> y" and "\<not> bv_taken (cache_view p s) x" and "\<not> bv_taken (cache_view p s) y"
    and "bv_refs (cache_view p s) x = 0" and "bv_refs (cache_view p s) y = 0" and "in_use (cache_view p s) + 1 < NBUF"
  shows "\<exists>t. bind (bread 1 x) (\<lambda>l. bind (bread 1 y) (\<lambda>d. block [copy_block d l, bwrite d, bunpin d, brelse l, brelse d])) s = Ok () t \<and>
    cache_ok p t \<and> cache_view p t = (seen_update y (overwrite (bv_content (cache_view p s) y) 0 BSIZE (bv_content (cache_view p s) x))
      (cache_view p s))\<lparr>bv_refs := (bv_refs (cache_view p s))(y := 2 ^ 32 - 1)\<rparr>"
proof -
  let ?v = "cache_view p s"
  let ?c = "overwrite (bv_content ?v y) 0 BSIZE (bv_content ?v x)"
  obtain l s1 where 1: "bread 1 x s = Ok l s1" "cache_ok p s1" "cache_view p s1 = seen_rd x ?v" "cache_bound s1 l x"
    using cache_rd [OF assms(1,3)] assms(5,7) by auto
  have "in_use (cache_view p s1) < NBUF"
    using in_use_rd [of x ?v] assms(7) by (simp add: 1(3))
  then obtain d s2 where 2: "bread 1 y s1 = Ok d s2" "cache_ok p s2" "cache_view p s2 = seen_rd y (cache_view p s1)"
      "cache_bound s2 d y" "cache_bound s2 l x"
    using cache_rd [OF 1(2), of y] 1(3,4) assms(2,4,6) by (auto simp: seen_defs)
  have dat: "b_data (k_bufs s2 l) = bv_content ?v x" "b_data (k_bufs s2 d) = bv_content ?v y"
    using boundD(7) [OF 2(2,4)] boundD(7) [OF 2(2,5)] 2(3) 1(3) by (simp_all add: seen_defs)
  define s3 where "s3 = upd_buf d (\<lambda>bf. bf\<lparr>b_data := ?c\<rparr>) s2"
  have copy: "copy_block d l s2 = Ok () s3"
    using dat by (simp add: copy_block_put run_simps s3_def)
  have 3: "cache_ok p s3" "cache_view p s3 = seen_put y ?c (cache_view p s2)" "cache_bound s3 l x" "cache_bound s3 d y"
    unfolding s3_def using cache_put [OF 2(2,4), of ?c] 2(4,5) by auto
  obtain s4 where 4: "bwrite d s3 = Ok () s4" "cache_ok p s4" "cache_view p s4 = seen_wr y (cache_view p s3)"
      "cache_bound s4 l x" "cache_bound s4 d y"
    using cache_wr [OF 3(1,4)] 3 2(3) 1(3) assms(2) by (auto simp: seen_defs)
  have clean: "bv_content ?v x = bv_disk ?v x"
    using cache_clean [OF assms(1,5)] .
  obtain t where 5: "block [bunpin d, brelse l, brelse d] s4 = Ok () t" "cache_ok p t"
      "cache_view p t = leaked y (seen_rel x (cache_view p s4))"
    using over_release [OF 4(2,4,5) assms(2)] 4(3) 3(2) 2(3) 1(3) assms(2,6) clean by (auto simp: seen_defs)
  have "cache_view p t = (seen_update y ?c ?v)\<lparr>bv_refs := (bv_refs ?v)(y := 2 ^ 32 - 1)\<rparr>"
    unfolding 5(3) 4(3) 3(2) 2(3) 1(3)
    using assms(2-6) bcache.idle_mine [OF assms(3)] bcache.idle_mine [OF assms(4)]
    by (intro bview.equality) (simp_all add: seen_defs leaked_def seen_update_def fun_upd_idem fun_upd_twist)
  then show ?thesis
    using 1(1) 2(1) copy 4(1) 5(1,2) by (intro exI [of _ t]) (simp add: run_simps)
qed

definition recover_view :: "u32 \<Rightarrow> (nat \<Rightarrow> u32) \<Rightarrow> nat list \<Rightarrow> 'f bview \<Rightarrow> bool" where
  "recover_view start blk xs v \<longleftrightarrow> (\<forall>m. \<not> bv_taken v m) \<and> in_use v + length xs < NBUF \<and> distinct (map blk xs) \<and>
     (\<forall>i\<in>set xs. bv_refs v (slot start i) = 0 \<and> bv_refs v (blk i) = 0 \<and> (\<forall>j\<in>set xs. slot start i \<noteq> blk j))"

lemma recover_view_step:
  assumes "recover_view start blk (i # xs) v"
  shows "recover_view start blk xs (redone start blk i v)"
proof -
  have "{n. 0 < bv_refs (redone start blk i v) n} \<subseteq> insert (blk i) {n. 0 < bv_refs v n}"
    by (auto simp: redone_def)
  then have "in_use (redone start blk i v) \<le> card (insert (blk i) {n. 0 < bv_refs v n})"
    unfolding in_use_def by (rule card_mono [rotated]) simp
  then have "in_use (redone start blk i v) \<le> in_use v + 1"
    using card_insert_le_m1 [of "Suc (in_use v)" "{n. 0 < bv_refs v n}" "blk i"] by (simp add: in_use_def)
  moreover have "bv_refs (redone start blk i v) m = (if m = blk i then 2 ^ 32 - 1 else bv_refs v m)"
    and "bv_taken (redone start blk i v) = bv_taken v" for m
    by (simp_all add: redone_def)
  moreover have "blk j \<noteq> blk i" if "j \<in> set xs" for j
    using assms that unfolding recover_view_def by (metis distinct.simps(2) image_eqI list.map(2) set_map)
  ultimately show ?thesis
    using assms by (auto simp: recover_view_def)
qed

lemma view_log_redone [simp]: "view_log (redone start blk i v) = view_log v"
  by (simp add: view_log_def redone_def)

lemma recover_step:
  assumes "cache_ok p s" and "l_dev (k_log s) = 1"
    and "recover_view (l_start (k_log s)) (l_block (k_log s)) (i # xs) (cache_view p s)"
  shows "\<exists>t. bind (log_block i) (\<lambda>lbuf. bind (home_block i) (\<lambda>dbuf.
      block [copy_block dbuf lbuf, bwrite dbuf, bunpin dbuf, brelse lbuf, brelse dbuf])) s = Ok () t \<and> cache_ok p t \<and>
    cache_view p t = redone (l_start (k_log s)) (l_block (k_log s)) i (cache_view p s)"
  using reinstall_block [OF assms(1), of "slot (l_start (k_log s)) i" "l_block (k_log s) i"] assms(3)
  by (simp add: log_pair [OF assms(1,2)] redone_def recover_view_def)

lemma install_trans_recover:
  assumes "cache_ok p s" and "l_dev (k_log s) = 1" and "n = nat (l_n (k_log s))"
    and "recover_view (l_start (k_log s)) (l_block (k_log s)) [0..<n] (cache_view p s)"
  shows "\<exists>t. install_trans s = Ok () t \<and> cache_ok p t \<and>
    cache_view p t = fold (redone (l_start (k_log s)) (l_block (k_log s))) [0..<n] (cache_view p s) \<and>
    recover_view (l_start (k_log s)) (l_block (k_log s)) [] (cache_view p t)"
proof -
  let ?lg = "k_log s"
  let ?Q = "\<lambda>xs v. view_log v = ?lg \<and> recover_view (l_start ?lg) (l_block ?lg) xs v"
  have "\<exists>t. for_each [0..<n] (\<lambda>tail. bind (log_block tail) (\<lambda>lbuf. bind (home_block tail) (\<lambda>dbuf.
      block [copy_block dbuf lbuf, bwrite dbuf, bunpin dbuf, brelse lbuf, brelse dbuf]))) s = Ok () t \<and> cache_ok p t \<and>
      cache_view p t = fold (redone (l_start ?lg) (l_block ?lg)) [0..<n] (cache_view p s)"
  proof (rule for_each_view [where Q = ?Q])
    fix i xs u
    assume u: "cache_ok p u" "?Q (i # xs) (cache_view p u)"
    then have "k_log u = ?lg" by simp
    then show "\<exists>t. bind (log_block i) (\<lambda>lbuf. bind (home_block i) (\<lambda>dbuf.
        block [copy_block dbuf lbuf, bwrite dbuf, bunpin dbuf, brelse lbuf, brelse dbuf])) u = Ok () t \<and> cache_ok p t \<and>
        cache_view p t = redone (l_start ?lg) (l_block ?lg) i (cache_view p u) \<and>
        ?Q xs (redone (l_start ?lg) (l_block ?lg) i (cache_view p u))"
      using recover_step [OF u(1), of i xs] u(2) assms(2) recover_view_step by auto
  qed (use assms in simp_all)
  moreover have "recover_view start blk xs v \<Longrightarrow> recover_view start blk [] (fold (redone start blk) xs v)" for start blk xs and v :: "off_cache bview"
    by (induction xs arbitrary: v) (auto dest: recover_view_step)
  ultimately show ?thesis
    using assms(4) by (auto simp: install_trans_def run_simps assms(3))
qed

text \<open>What is on the disk afterwards, and the counts.\<close>

lemma fold_redone:
  assumes "bv_content v = bv_disk v"
  shows "bv_content (fold (redone start blk) xs v) = fold (redo start blk) xs (bv_disk v)"
    and "bv_disk (fold (redone start blk) xs v) = fold (redo start blk) xs (bv_disk v)"
    and "bv_refs (fold (redone start blk) xs v) = (\<lambda>m. if m \<in> blk ` set xs then 2 ^ 32 - 1 else bv_refs v m)"
proof -
  have "bv_content (redone start blk i v) = redo start blk i (bv_disk v) \<and> bv_disk (redone start blk i v) = redo start blk i (bv_disk v)"
    if "bv_content v = bv_disk v" for i and v :: "'a bview"
    using that by (simp add: redone_def redo_def seen_update_def)
  then show "bv_content (fold (redone start blk) xs v) = fold (redo start blk) xs (bv_disk v)"
    and "bv_disk (fold (redone start blk) xs v) = fold (redo start blk) xs (bv_disk v)"
    using assms by (induction xs arbitrary: v) (simp_all del: fold.simps(2) add: fold_Cons)
  show "bv_refs (fold (redone start blk) xs v) = (\<lambda>m. if m \<in> blk ` set xs then 2 ^ 32 - 1 else bv_refs v m)"
    by (induction xs arbitrary: v) (auto simp: redone_def seen_update_def fun_eq_iff)
qed

lemma redone_log: "view_log (fold (redone start blk) xs v) = view_log v"
  by (induction xs arbitrary: v) simp_all

text \<open>Reading the header.\<close>

definition log_head :: "bytes \<Rightarrow> logst \<Rightarrow> logst" where
  "log_head h l = l\<lparr>l_n := sint (ld32 h 0),
     l_block := (\<lambda>i. if i < nat (sint (ld32 h 0)) then ld32 h (4 + 4 * i) else l_block l i)\<rparr>"

lemma fold_upd_log:
  "fold (\<lambda>i. upd_log (\<lambda>l. l\<lparr>l_block := (l_block l)(i := f i)\<rparr>)) [0..<n] s =
   upd_log (\<lambda>l. l\<lparr>l_block := (\<lambda>i. if i < n then f i else l_block l i)\<rparr>) s"
  by (induction n) (auto simp: upd_log_def fun_eq_iff intro!: arg_cong [where f = "\<lambda>b. s\<lparr>k_log := (k_log s)\<lparr>l_block := b\<rparr>\<rparr>"])

lemma read_head_apply:
  assumes "cache_ok p s" and "l_dev (k_log s) = 1" and "\<not> bv_taken (cache_view p s) (l_start (k_log s))"
    and "bv_refs (cache_view p s) (l_start (k_log s)) = 0" and "in_use (cache_view p s) < NBUF"
  shows "\<exists>t. read_head s = Ok () t \<and> cache_ok p t \<and>
    cache_view p t = (cache_view p s)\<lparr>bv_rest := (log_head (cache_content s (l_start (k_log s))) (k_log s), snd (bv_rest (cache_view p s)))\<rparr>"
proof -
  let ?x = "l_start (k_log s)" and ?v = "cache_view p s"
  let ?h = "cache_content s ?x"
  obtain b s1 where 1: "bread 1 ?x s = Ok b s1" "cache_ok p s1" "cache_view p s1 = seen_rd ?x ?v" "cache_bound s1 b ?x"
    using cache_rd [OF assms(1,3)] assms(4,5) by auto
  have dat: "b_data (k_bufs s1 b) = ?h"
    using boundD(7) [OF 1(2,4)] 1(3) by (simp add: seen_defs cache_view_def)
  have lg: "k_log s1 = k_log s"
    using view_logD [OF 1(3)] view_log_view [of p s] by (simp add: view_log_def seen_rd_def)
  define s2 where "s2 = upd_log (log_head ?h) s1"
  have 2: "cache_ok p s2" "cache_bound s2 b ?x"
    "cache_view p s2 = (seen_rd ?x ?v)\<lparr>bv_rest := (log_head ?h (k_log s), snd (bv_rest ?v))\<rparr>"
    using 1 lg by (simp_all add: s2_def cache_view_upd_log) (simp_all add: cache_bound_def upd_log_def seen_rd_def)
  have clean: "bv_content ?v ?x = bv_disk ?v ?x"
    using cache_clean [OF assms(1,4)] .
  obtain t where 3: "brelse b s2 = Ok () t" "cache_ok p t" "cache_view p t = seen_rel ?x (cache_view p s2)"
    using cache_rel [OF 2(1,2)] clean by (auto simp: 2(3) seen_defs)
  have "cache_view p t = ?v\<lparr>bv_rest := (log_head ?h (k_log s), snd (bv_rest ?v))\<rparr>"
    unfolding 3(3) 2(3) using assms(3,4) bcache.idle_mine [OF assms(3)]
    by (intro bview.equality) (simp_all add: seen_defs fun_upd_idem)
  moreover have "upd_log (\<lambda>l. l\<lparr>l_block := (\<lambda>i. if i < nat (sint (ld32 ?h 0)) then ld32 ?h (4 + 4 * i) else l_block l i)\<rparr>)
      (upd_log (\<lambda>l. l\<lparr>l_n := sint (ld32 ?h 0)\<rparr>) s1) = s2"
    by (simp add: s2_def upd_log_def log_head_def cong: if_cong)
  ultimately show ?thesis
    using 1(1) 3(1,2) by (intro exI [of _ t])
      (simp add: read_head_def run_simps assms(2) dat seq_Ok [OF for_each_modify] fold_upd_log)
qed

text \<open>The state \<open>initlog\<close> meets at boot: nothing is in use, and the header names distinct blocks outside the log.\<close>

definition recovery_ready :: "nat \<Rightarrow> kstate \<Rightarrow> bool" where
  "recovery_ready p s \<longleftrightarrow> (let start = l_start (k_log s); h = k_disk s start in
     cache_ok p s \<and> l_dev (k_log s) = 1 \<and> (\<forall>m. bv_refs (cache_view p s) m = 0 \<and> \<not> bv_taken (cache_view p s) m) \<and>
     apart start (\<lambda>i. ld32 h (4 + 4 * i)) (nat (sint (ld32 h 0))))"

lemma recovery_readyD:
  assumes "recovery_ready p s"
  shows "cache_ok p s" and "l_dev (k_log s) = 1" and "bv_refs (cache_view p s) = (\<lambda>_. 0)"
    and "bv_taken (cache_view p s) = (\<lambda>_. False)" and "in_use (cache_view p s) = 0"
    and "bv_content (cache_view p s) = k_disk s" and "bv_disk (cache_view p s) = k_disk s"
proof -
  show ok: "cache_ok p s" and "l_dev (k_log s) = 1" and refs: "bv_refs (cache_view p s) = (\<lambda>_. 0)"
    and "bv_taken (cache_view p s) = (\<lambda>_. False)"
    using assms by (auto simp: recovery_ready_def Let_def)
  show "in_use (cache_view p s) = 0"
    by (simp add: in_use_def refs)
  have "bv_content (cache_view p s) = bv_disk (cache_view p s)"
    by (rule ext) (rule cache_clean [OF ok], simp add: refs)
  then show "bv_content (cache_view p s) = k_disk s" and "bv_disk (cache_view p s) = k_disk s"
    by (simp_all add: cache_view_def)
qed

text \<open>Reading the header and installing the blocks it names.\<close>

lemma recover_install:
  assumes "recovery_ready p s"
  defines "start \<equiv> l_start (k_log s)"
  defines "h \<equiv> k_disk s start"
  defines "n \<equiv> nat (sint (ld32 h 0))" and "blk \<equiv> (\<lambda>i. ld32 h (4 + 4 * i))"
  obtains t where "seq read_head install_trans s = Ok () t" and "cache_ok p t" and "k_log t = log_head h (k_log s)"
    and "\<forall>m. \<not> bv_taken (cache_view p t) m" and "in_use (cache_view p t) < NBUF"
    and "k_disk t = fold (redo start blk) [0..<n] (k_disk s)"
    and "bv_refs (cache_view p t) = (\<lambda>m. if m \<in> blk ` {..<n} then 2 ^ 32 - 1 else 0)"
proof -
  let ?v = "cache_view p s"
  note r = recovery_readyD [OF assms(1)]
  have apart: "apart start blk n"
    using assms(1) by (simp add: recovery_ready_def Let_def n_def blk_def h_def start_def)
  have head: "cache_content s start = h"
    using r(6) by (simp add: cache_view_def h_def)
  obtain s1 where 1: "read_head s = Ok () s1" "cache_ok p s1"
      "cache_view p s1 = ?v\<lparr>bv_rest := (log_head h (k_log s), snd (bv_rest ?v))\<rparr>"
    using read_head_apply [OF r(1,2)] r(3-5) head by (auto simp: start_def)
  have lg: "k_log s1 = log_head h (k_log s)"
    using view_logD [OF 1(3)] by (simp add: view_log_def)
  have log: "l_dev (k_log s1) = 1" "l_start (k_log s1) = start" "nat (l_n (k_log s1)) = n"
    by (simp_all add: lg log_head_def r(2) start_def n_def)
  have blks: "l_block (k_log s1) i = blk i" if "i < n" for i
    using that by (simp add: lg log_head_def n_def blk_def)
  have "recover_view start (l_block (k_log s1)) [0..<n] (cache_view p s1)"
    using apartD [OF apart] r(3-5) by (auto simp: recover_view_def 1(3) blks in_use_def distinct_map inj_on_def)
  then obtain t where t: "install_trans s1 = Ok () t" "cache_ok p t"
      "cache_view p t = fold (redone start (l_block (k_log s1))) [0..<n] (cache_view p s1)"
      "recover_view start (l_block (k_log s1)) [] (cache_view p t)"
    using install_trans_recover [OF 1(2) log(1)] log by metis
  have "fold (redone start (l_block (k_log s1))) [0..<n] w = fold (redone start blk) [0..<n] w" for w :: "off_cache bview"
    by (rule fold_cong) (simp_all add: blks redone_def fun_eq_iff)
  then have view: "cache_view p t = fold (redone start blk) [0..<n] (cache_view p s1)"
    using t(3) by simp
  show thesis
  proof (rule that [of t])
    show "k_disk t = fold (redo start blk) [0..<n] (k_disk s)"
      using arg_cong [OF view, of bv_disk] fold_redone(2) [of "cache_view p s1" start blk "[0..<n]"] r(6,7) 1(3)
      by (simp add: cache_view_def)
    show "bv_refs (cache_view p t) = (\<lambda>m. if m \<in> blk ` {..<n} then 2 ^ 32 - 1 else 0)"
      using fold_redone(3) [of "cache_view p s1" start blk "[0..<n]"] r(3,6,7) unfolding view
      by (simp add: 1(3) atLeast0LessThan cong: if_cong)
    show "k_log t = log_head h (k_log s)"
      using view_logD [OF view] by (simp add: redone_log lg)
  qed (use 1(1) t in \<open>simp_all add: run_simps recover_view_def\<close>)
qed

lemma recover_runs:
  assumes "recovery_ready p s"
  defines "start \<equiv> l_start (k_log s)"
  defines "h \<equiv> k_disk s start"
  shows "\<exists>t. recover_from_log s = Ok () t \<and> cache_ok p t \<and> l_n (k_log t) = 0 \<and> ld32 (k_disk t start) 0 = 0 \<and>
    (\<forall>m. m \<noteq> start \<longrightarrow> k_disk t m = recovered start (k_disk s) m) \<and>
    bv_refs (cache_view p t) = (\<lambda>m. if m \<in> (\<lambda>i. ld32 h (4 + 4 * i)) ` {..<nat (sint (ld32 h 0))} then 2 ^ 32 - 1 else 0)"
proof -
  let ?n = "nat (sint (ld32 h 0))" and ?blk = "\<lambda>i. ld32 h (4 + 4 * i)"
  obtain s2 where 2: "seq read_head install_trans s = Ok () s2" "cache_ok p s2" "k_log s2 = log_head h (k_log s)"
      "\<forall>m. \<not> bv_taken (cache_view p s2) m" "in_use (cache_view p s2) < NBUF"
      "k_disk s2 = fold (redo start ?blk) [0..<?n] (k_disk s)"
      "bv_refs (cache_view p s2) = (\<lambda>m. if m \<in> ?blk ` {..<?n} then 2 ^ 32 - 1 else 0)"
    unfolding start_def h_def by (rule recover_install [OF assms(1)])
  let ?s3 = "upd_log (\<lambda>l. l\<lparr>l_n := 0\<rparr>) s2"
  have lg: "k_log ?s3 = log_head h (k_log s)\<lparr>l_n := 0\<rparr>" "l_start (k_log ?s3) = start" "l_dev (k_log ?s3) = 1"
    using recovery_readyD(2) [OF assms(1)] by (simp_all add: upd_log_def 2(3) log_head_def start_def)
  have apart: "apart start ?blk ?n"
    using assms(1) by (simp add: recovery_ready_def Let_def start_def h_def)
  have "start \<notin> ?blk ` {..<?n}"
    using apartD(3) [OF apart] by blast
  then have v3: "bv_refs (cache_view p ?s3) start = 0" "\<not> bv_taken (cache_view p ?s3) start" "in_use (cache_view p ?s3) < NBUF"
    using 2(4,5,7) by (simp_all add: cache_view_upd_log) (simp add: in_use_def)
  obtain t where t: "write_head ?s3 = Ok () t" "cache_ok p t"
      "cache_view p t = seen_update start (header 0 (l_block (k_log ?s3)) (bv_content (cache_view p ?s3) start)) (cache_view p ?s3)"
    using write_head_apply [of p ?s3 0] v3 2(2) lg(2,3) by (simp add: lg(1)) metis
  have "k_log t = k_log ?s3"
    using view_logD [OF t(3)] by simp
  moreover have "k_disk t = (recovered start (k_disk s))(start := header 0 (l_block (k_log ?s3)) (bv_content (cache_view p ?s3) start))"
    using arg_cong [OF t(3), of bv_disk] 2(6)
    by (simp add: seen_update_def cache_view_upd_log recovered_def flip: h_def) (simp add: cache_view_def)
  moreover have "bv_refs (cache_view p t) = bv_refs (cache_view p s2)"
    by (simp add: t(3) cache_view_upd_log)
  moreover have "recover_from_log s = Ok () t"
    using t(1) 2(1) seq_Ok [of "seq read_head install_trans" s "()" s2 "block [modify (upd_log (\<lambda>l. l\<lparr>l_n := 0\<rparr>)), write_head]"]
    by (simp add: recover_from_log_def run_simps seq_assoc)
  ultimately show ?thesis
    using t(2) 2(7) by (intro exI [of _ t]) (simp add: lg(1))
qed

text \<open>The machine has come up again: nothing is cached yet, and the disk holds \<open>d\<close>.\<close>

definition rebooted :: "nat \<Rightarrow> u32 \<Rightarrow> (u32 \<Rightarrow> bytes) \<Rightarrow> kstate \<Rightarrow> bool" where
  "rebooted p start d s \<longleftrightarrow> cache_ok p s \<and> l_dev (k_log s) = 1 \<and> l_start (k_log s) = start \<and> k_disk s = d \<and>
     (\<forall>m. bv_refs (cache_view p s) m = 0 \<and> \<not> bv_taken (cache_view p s) m)"

text \<open>The header a crash leaves behind is empty or names the logged blocks.\<close>

lemma header_after_crash:
  fixes c :: "u32 \<Rightarrow> bytes" and k :: nat
  assumes "apart start blk n" and "ld32 (d start) 0 = 0"
  defines "e \<equiv> written (take k (commit_writes start blk n c)) d"
  shows "apart start (\<lambda>i. ld32 (e start) (4 + 4 * i)) (nat (sint (ld32 (e start) 0)))"
proof -
  consider "k \<le> n" | "n < k" "k \<le> 2 * n + 1" | "2 * n + 1 < k" by linarith
  then show ?thesis
  proof cases
    case 1
    then have "e start = d start"
      using log_copies_start [OF apart_less [OF assms(1) 1]] by (simp add: e_def take_writes take_copies)
    then show ?thesis
      by (simp add: assms(2) apart_def)
  next
    case 2
    then have j: "k - n - 1 \<le> n" by simp
    have "start \<notin> blk ` {..<k - n - 1}"
      using apartD(3) [OF assms(1)] j by (metis imageE lessThan_iff less_le_trans)
    then have "e start = header n blk (c start)"
      using 2 j by (simp add: e_def take_writes take_copies written_append written_copies logged_def)
    moreover have "apart start (\<lambda>i. ld32 (header n blk (c start)) (4 + 4 * i)) n"
      using assms(1) by (auto simp: apart_def inj_on_def)
    ultimately show ?thesis
      using apartD(1) [OF assms(1)] by (simp add: sint_small)
  next
    case 3
    then show ?thesis
      by (simp add: e_def take_writes) (simp add: commit_writes_def written_append apart_def)
  qed
qed

section \<open>Joining a transaction\<close>

text \<open>The blocks of the running transaction, in the order they joined it.\<close>

definition logged_blocks :: "logst \<Rightarrow> u32 list" where
  "logged_blocks lg = map (l_block lg) [0..<nat (l_n lg)]"

lemma off_lock_upd_log [simp]: "off_lock (upd_log f)"
  by (simp add: off_lock_def upd_log_def)

lemma bpin_calm:
  assumes "calm s" and "lock_free BcacheLock s"
  shows "bpin b s = Ok () (recount b (b_refcnt (k_bufs s b) + 1) s)"
proof -
  have "upd_buf b (\<lambda>bf. bf\<lparr>b_refcnt := b_refcnt bf + 1\<rparr>) (locked_state BcacheLock s) =
      recount b (b_refcnt (k_bufs s b) + 1) (locked_state BcacheLock s)"
    by (simp add: recount_def upd_buf_def)
  then show ?thesis
    using assms by (simp add: bpin_def run_simps acquire_calm release_after)
qed

text \<open>The state after \<open>log_write\<close>: a block that is in the log already is absorbed, a new one joins and is pinned.\<close>

definition joined :: "nat \<Rightarrow> kstate \<Rightarrow> kstate" where
  "joined b s = upd_log (\<lambda>l. l\<lparr>l_block := (l_block l)(nat (l_n l) := b_blockno (k_bufs s b)), l_n := l_n l + 1\<rparr>)
     (recount b (b_refcnt (k_bufs s b) + 1) s)"

lemma in_logged_blocks: "n \<in> set (logged_blocks lg) \<longleftrightarrow> (\<exists>i<nat (l_n lg). l_block lg i = n)"
  by (auto simp: logged_blocks_def)

lemma log_slot_cases:
  "n \<in> set (logged_blocks lg) \<Longrightarrow> log_slot lg n < nat (l_n lg) \<and> l_block lg (log_slot lg n) = n"
  "n \<notin> set (logged_blocks lg) \<Longrightarrow> log_slot lg n = nat (l_n lg)"
  unfolding in_logged_blocks log_slot_def
  by (auto split: option.split dest: find_upt_Some simp: find_upt_None)

lemma log_write_apply:
  assumes "quiet p s" and "0 \<le> l_n (k_log s)"
  shows "log_write b s =
    (if l_n (k_log s) \<ge> 30 \<or> l_n (k_log s) \<ge> l_size (k_log s) - 1 then Panic ''too big a transaction''
     else if l_outstanding (k_log s) < 1 then Panic ''log_write outside of trans''
     else Ok () (if b_blockno (k_bufs s b) \<in> set (logged_blocks (k_log s)) then s else joined b s))"
proof (cases "b_blockno (k_bufs s b) \<in> set (logged_blocks (k_log s))")
  case True
  let ?n = "b_blockno (k_bufs s b)"
  note i = log_slot_cases(1) [OF True]
  have "upd_log (\<lambda>l. l\<lparr>l_block := (l_block l)(log_slot (k_log s) ?n := ?n)\<rparr>) (locked_state LogLock s) = locked_state LogLock s"
    using i by (simp add: upd_log_def fun_upd_idem)
  moreover have "int (log_slot (k_log s) ?n) \<noteq> l_n (k_log s)"
    using i by linarith
  ultimately show ?thesis
    using assms True i by (auto simp: log_write_def run_simps quietD)
next
  case False
  let ?n = "b_blockno (k_bufs s b)"
  note i = log_slot_cases(2) [OF False]
  let ?s1 = "upd_log (\<lambda>l. l\<lparr>l_block := (l_block l)(nat (l_n (k_log s)) := ?n)\<rparr>) (locked_state LogLock s)"
  have pin: "bpin b ?s1 = Ok () (recount b (b_refcnt (k_bufs s b) + 1) ?s1)"
    using bpin_calm [of ?s1 b] assms(1) by (simp add: off_lock_calm off_lock_free quietD) (simp add: upd_log_def)
  have end_state: "upd_log (\<lambda>l. l\<lparr>l_n := l_n l + 1\<rparr>) (recount b (b_refcnt (k_bufs s b) + 1) ?s1) = joined b (locked_state LogLock s)"
    by (simp add: joined_def upd_log_def recount_def upd_buf_def)
  have off: "off_lock (joined b)"
    by (simp add: off_lock_def joined_def upd_log_def recount_def upd_buf_def)
  have n: "l_n (k_log ?s1) = l_n (k_log s)"
    by (simp add: upd_log_def)
  show ?thesis
    using assms False release_quiet [OF assms(1) off, of LogLock]
    by (simp add: log_write_def run_simps i n pin end_state)
qed

lemma logged_blocks_joined:
  "0 \<le> l_n (k_log s) \<Longrightarrow> logged_blocks (k_log (joined b s)) = logged_blocks (k_log s) @ [b_blockno (k_bufs s b)]"
  by (simp add: logged_blocks_def joined_def upd_log_def recount_def upd_buf_def nat_add_distrib)

text \<open>What \<open>begin_op\<close> does: wait while a commit runs or the log might not hold another operation.\<close>

lemma begin_op_apply:
  assumes "quiet p s" and "c_noff (k_cpus s (k_hart s)) = 0"
  shows "begin_op s =
    (if l_committing (k_log s) \<or> l_n (k_log s) + (l_outstanding (k_log s) + 1) * 10 > 30
     then Switch (asleep p ChLog LogLock (locked_state LogLock s))
     else Ok () (upd_log (\<lambda>l. l\<lparr>l_outstanding := l_outstanding l + 1\<rparr>) s))"
proof -
  let ?t = "locked_state LogLock s"
  have "sleep ChLog LogLock ?t = Switch (asleep p ChLog LogLock ?t)"
    using assms by (intro sleep_apply) (simp_all add: quietD, simp_all add: locked_state_def irq_pushed_def upd_defs running_def quiet_def lock_held_def)
  moreover have "release LogLock (upd_log (\<lambda>l. l\<lparr>l_outstanding := l_outstanding l + 1\<rparr>) ?t) =
      Ok () (upd_log (\<lambda>l. l\<lparr>l_outstanding := l_outstanding l + 1\<rparr>) s)"
    using assms(1) by (simp add: release_quiet)
  ultimately show ?thesis
    using assms(1) by (auto simp: begin_op_def begin_op_loop_def run_simps)
qed

text \<open>\<open>commit\<close>, a crash after any number of its block writes, and the recovery after the reboot.\<close>

lemma commit_recovers:
  fixes s :: kstate
  defines "start \<equiv> l_start (k_log s)" and "n \<equiv> nat (l_n (k_log s))"
    and "old \<equiv> k_disk s"
    and "new \<equiv> (\<lambda>m. if m \<in> l_block (k_log s) ` {..<nat (l_n (k_log s))} then cache_content s m else k_disk s m)"
  assumes "log_ready p s" and "0 < l_n (k_log s)" and "ld32 (k_disk s (l_start (k_log s))) 0 = 0"
  shows "\<exists>t writes. commit s = Ok () t \<and> l_n (k_log t) = 0 \<and>
    k_dhist t = k_dhist s @ writes \<and> k_disk t = written writes old \<and>
    (\<forall>k q b. rebooted q start (written (take k writes) old) b \<longrightarrow>
      (\<exists>u. recover_from_log b = Ok () u \<and> ld32 (k_disk u start) 0 = 0 \<and>
        (\<forall>m. m \<noteq> start \<longrightarrow> m \<notin> slot start ` {..<n} \<longrightarrow> sector (k_disk u m) = sector (if k \<le> n then old m else new m))))"
proof -
  let ?ws = "commit_writes (l_start (k_log s)) (l_block (k_log s)) (nat (l_n (k_log s))) (cache_content s)"
  obtain t where t: "commit s = Ok () t" "k_log t = k_log s\<lparr>l_n := 0\<rparr>" "k_dhist t = k_dhist s @ ?ws"
      "k_disk t = written ?ws (k_disk s)"
    by (rule commit_runs [OF assms(5) refl assms(6)])
  note apart = log_readyD(5) [OF assms(5) refl]
  have "\<exists>u. recover_from_log b = Ok () u \<and> ld32 (k_disk u start) 0 = 0 \<and>
      (\<forall>m. m \<noteq> start \<longrightarrow> m \<notin> slot start ` {..<n} \<longrightarrow> sector (k_disk u m) = sector (if k \<le> n then old m else new m))"
    if b: "rebooted q start (written (take k ?ws) old) b" for k q b
  proof -
    have "recovery_ready q b"
      using b header_after_crash [where d = "k_disk s" and k = k, OF apart assms(7)]
      by (simp add: rebooted_def recovery_ready_def Let_def assms(1,3))
    then obtain u where u: "recover_from_log b = Ok () u" "ld32 (k_disk u start) 0 = 0"
        "\<And>m. m \<noteq> start \<Longrightarrow> k_disk u m = recovered start (written (take k ?ws) old) m"
      using recover_runs [of q b] b by (auto simp: rebooted_def)
    then show ?thesis
      using crash_before [where d = "k_disk s" and k = k, OF apart assms(7)]
        crash_after [OF apart, of k _ "cache_content s" "k_disk s"]
      by (intro exI [of _ u]) (simp add: assms(1-4))
  qed
  then show ?thesis
    using t unfolding assms(1-4) by (intro exI [of _ t] exI [of _ ?ws]) simp
qed

section \<open>A cache for the witnesses\<close>

text \<open>A cache whose buffer 0 holds block 50, referenced once, and whose other buffers are fresh.\<close>

definition fresh_bufs :: "nat \<Rightarrow> buf" where
  "fresh_bufs b = zero_buf\<lparr>b_prev := (if b = 0 then NBUF else b - 1), b_next := (if b = NBUF then 0 else b + 1)\<rparr>"

definition demo_bufs :: "nat \<Rightarrow> buf" where
  "demo_bufs = fresh_bufs(0 := (fresh_bufs 0)\<lparr>b_dev := 1, b_blockno := 50, b_valid := True, b_refcnt := 1, b_data := (\<lambda>_. 7)\<rparr>)"

definition demo_boot :: "(u32 \<Rightarrow> bytes) \<Rightarrow> kstate" where
  "demo_boot d = demo_running\<lparr>k_bufs := fresh_bufs, k_disk := d, k_log := (k_log demo_running)\<lparr>l_dev := 1, l_start := 2, l_size := 30\<rparr>\<rparr>"

definition demo_cache :: kstate where
  "demo_cache = demo_running\<lparr>k_bufs := demo_bufs,
     k_log := (k_log demo_running)\<lparr>l_dev := 1, l_start := 2, l_size := 30, l_n := 1, l_block := (\<lambda>_. 50)\<rparr>\<rparr>"

lemma demo_caches: "caches demo_bufs b n \<longleftrightarrow> b = 0 \<and> n = 50" "\<not> caches fresh_bufs b n"
  by (auto simp: caches_def demo_bufs_def fresh_bufs_def zero_buf_def)

lemma demo_ring: "ring fresh_bufs [0..<NBUF]" "ring demo_bufs [0..<NBUF]"
proof -
  have "linked fresh_bufs NBUF [0..<NBUF] NBUF"
    by (simp add: fresh_bufs_def upt_rec)
  then show "ring fresh_bufs [0..<NBUF]"
    unfolding ring_def by (intro conjI distinct_upt set_upt)
  then show "ring demo_bufs [0..<NBUF]"
    using ring_cong [of demo_bufs fresh_bufs "[0..<NBUF]"] by (simp add: demo_bufs_def)
qed

lemma demo_cached: "cached demo_bufs n = (if n = 50 then Some 0 else None)" "cached fresh_bufs n = None"
  using cached_None [of demo_bufs n] cached_None [of fresh_bufs n] cached_Some [of demo_bufs 0 n]
  by (auto simp: demo_caches uniq_def)

lemma demo_cache_ok: "cache_ok 2 demo_cache" "cache_ok 2 (demo_boot d)"
proof -
  have "quiet 2 demo_cache" "quiet 2 (demo_boot d)"
    by (simp_all add: demo_cache_def demo_boot_def quiet_def calm_def running_def lock_free_def demo_running_def zero_state_def)
  moreover have "uniq demo_bufs" "uniq fresh_bufs"
    by (simp_all add: uniq_def demo_caches)
  moreover have "buf_ok demo_cache b" "buf_ok (demo_boot d) b" for b
    by (simp_all add: buf_ok_def demo_cache_def demo_boot_def demo_bufs_def fresh_bufs_def demo_running_def zero_state_def zero_buf_def)
  ultimately show "cache_ok 2 demo_cache" "cache_ok 2 (demo_boot d)"
    using demo_ring by (auto simp: cache_ok_def demo_cache_def demo_boot_def)
qed

lemma ld32_zero: "ld32 (\<lambda>_. 0) off = 0"
proof -
  have "le_nat n (\<lambda>_. 0) = 0" for n
    by (induction n) simp_all
  then show ?thesis by (simp add: ld32_def at_def)
qed

lemma demo_view:
  "bv_refs (cache_view p demo_cache) n = (if n = 50 then 1 else 0)" "\<not> bv_taken (cache_view p demo_cache) n"
  "cache_content demo_cache 50 = (\<lambda>_. 7)"
  "bv_refs (cache_view p (demo_boot d)) n = 0" "\<not> bv_taken (cache_view p (demo_boot d)) n"
  by (simp_all add: cache_view_def cache_refs_def cache_taken_def cache_content_def demo_cached demo_cache_def demo_boot_def
      demo_running_def zero_state_def) (simp_all add: demo_bufs_def)

lemma demo_in_use: "in_use (cache_view p demo_cache) = 1"
proof -
  have "{n. 0 < bv_refs (cache_view p demo_cache) n} = {50}"
    by (auto simp: demo_view split: if_splits)
  then show ?thesis by (simp add: in_use_def)
qed

lemma demo_log_ready: "log_ready 2 demo_cache"
proof -
  have "slot 2 i = 50 \<Longrightarrow> 0 < i" for i
    by (cases "i = 0") (simp_all add: slot_def)
  then show ?thesis
    using demo_cache_ok by (simp add: log_ready_def demo_view demo_in_use) (simp add: demo_cache_def)
qed

section \<open>Properties\<close>

text \<open>C6 (crash safety). From a state where the log is ready and empty on the disk, \<open>commit\<close>
  runs to its end. However many of its block writes have reached the disk when the machine
  crashes, \<open>recover_from_log\<close> run after the reboot ends with an empty log on the disk and, in
  every block outside the log, with the old contents if the header write was not among them,
  and with the contents the transaction gave the block otherwise.\<close>

theorem commit_crash_safe:
  fixes s :: kstate
  defines "start \<equiv> l_start (k_log s)" and "n \<equiv> nat (l_n (k_log s))"
    and "old \<equiv> k_disk s"
    and "new \<equiv> (\<lambda>m. if m \<in> l_block (k_log s) ` {..<nat (l_n (k_log s))} then cache_content s m else k_disk s m)"
  assumes "log_ready p s" and "0 < l_n (k_log s)" and "ld32 (k_disk s (l_start (k_log s))) 0 = 0"
  shows "\<exists>t writes. commit s = Ok () t \<and> l_n (k_log t) = 0 \<and>
    k_dhist t = k_dhist s @ writes \<and> k_disk t = written writes old \<and>
    (\<forall>k q b. rebooted q start (written (take k writes) old) b \<longrightarrow>
      (\<exists>u. recover_from_log b = Ok () u \<and> ld32 (k_disk u start) 0 = 0 \<and>
        (\<forall>m. m \<noteq> start \<longrightarrow> m \<notin> slot start ` {..<n} \<longrightarrow> sector (k_disk u m) = sector (if k \<le> n then old m else new m))))"
  unfolding assms(1-4) using commit_recovers [OF assms(5-7)] .

theorem commit_crash_safe_witness:
  "\<exists>t writes u u'. commit demo_cache = Ok () t \<and> k_dhist t = writes \<and>
    recover_from_log (demo_boot (written (take 1 writes) (\<lambda>_ _. 0))) = Ok () u \<and> sector (k_disk u 50) = sector (\<lambda>_. 0) \<and>
    recover_from_log (demo_boot (written (take 2 writes) (\<lambda>_ _. 0))) = Ok () u' \<and> sector (k_disk u' 50) = sector (\<lambda>_. 7)"
proof -
  have s: "l_start (k_log demo_cache) = 2" "l_n (k_log demo_cache) = 1" "l_block (k_log demo_cache) = (\<lambda>_. 50)"
    "k_disk demo_cache = (\<lambda>_ _. 0)" "k_dhist demo_cache = []"
    by (simp_all add: demo_cache_def demo_running_def zero_state_def)
  have "ld32 (k_disk demo_cache (l_start (k_log demo_cache))) 0 = 0" and "0 < l_n (k_log demo_cache)"
    by (simp_all add: s ld32_zero)
  note crash_safe = commit_crash_safe [OF demo_log_ready this(2,1), unfolded s]
  have boot: "rebooted 2 2 d (demo_boot d)" for d
    using demo_cache_ok(2) [of d] by (simp add: rebooted_def demo_view) (simp add: demo_boot_def)
  have "slot 2 0 \<noteq> (50 :: u32)"
    by (simp add: slot_def)
  then have outside: "(50 :: u32) \<notin> slot 2 ` {..<nat 1}"
    by (simp add: lessThan_Suc)
  obtain t writes where t: "commit demo_cache = Ok () t" "k_dhist t = writes"
      and crash: "\<And>k. \<exists>u. recover_from_log (demo_boot (written (take k writes) (\<lambda>_ _. 0))) = Ok () u \<and>
        sector (k_disk u 50) = sector (if k \<le> 1 then (\<lambda>_. 0) else (\<lambda>_. 7))"
  proof (use crash_safe in \<open>elim exE conjE\<close>, goal_cases)
    case (1 t writes)
    have "\<exists>u. recover_from_log (demo_boot (written (take k writes) (\<lambda>_ _. 0))) = Ok () u \<and>
        sector (k_disk u 50) = sector (if k \<le> 1 then (\<lambda>_. 0) else (\<lambda>_. 7))" for k
      using 1(6) [rule_format, OF boot, of k] outside by (auto simp: demo_view)
    then show ?case
      using 1(1-3,4) by simp
  qed
  show ?thesis
    using t crash [of 1] crash [of 2] by simp
qed

text \<open>C15 (finding). Recovery drops a pin that no one holds on every block it installs: the
  reference count of the block's buffer wraps around to the largest 32-bit number, so that the
  buffer is never recycled.\<close>

theorem recovery_leaks_buffers:
  fixes s :: kstate
  defines "h \<equiv> k_disk s (l_start (k_log s))"
  assumes "recovery_ready p s" and "int i < sint (ld32 (k_disk s (l_start (k_log s))) 0)"
  shows "\<exists>t b. recover_from_log s = Ok () t \<and> b < NBUF \<and> b_dev (k_bufs t b) = 1 \<and>
    b_blockno (k_bufs t b) = ld32 h (4 + 4 * i) \<and> b_refcnt (k_bufs t b) = 0xFFFFFFFF"
proof -
  obtain t where t: "recover_from_log s = Ok () t" "bv_refs (cache_view p t) (ld32 h (4 + 4 * i)) = 2 ^ 32 - 1"
    using recover_runs [OF assms(2)] assms(3) by (auto simp: h_def zless_nat_eq_int_zless)
  then obtain b where b: "cached (k_bufs t) (ld32 h (4 + 4 * i)) = Some b" "unat (b_refcnt (k_bufs t b)) = 2 ^ 32 - 1"
    by (auto simp: cache_view_def cache_refs_def split: option.splits)
  then show ?thesis
    using t(1) cached_caches [OF b(1)] by (auto simp: caches_def word_unat_eq_iff)
qed

theorem recovery_leaks_buffers_witness:
  "\<exists>t b. recover_from_log (demo_boot (\<lambda>_. header 1 (\<lambda>_. 50) (\<lambda>_. 0))) = Ok () t \<and> b < NBUF \<and>
    b_blockno (k_bufs t b) = 50 \<and> b_refcnt (k_bufs t b) = 0xFFFFFFFF"
proof -
  let ?s = "demo_boot (\<lambda>_. header 1 (\<lambda>_. 50) (\<lambda>_. 0))"
  have head: "k_disk ?s = (\<lambda>_. header 1 (\<lambda>_. 50) (\<lambda>_. 0))" "l_start (k_log ?s) = 2"
    by (simp_all add: demo_boot_def)
  have "apart 2 (\<lambda>i. ld32 (header 1 (\<lambda>_. 50) (\<lambda>_. 0)) (4 + 4 * i)) 1"
    using ld32_header(2) [of 0 1 "\<lambda>_. 50" "\<lambda>_. 0"] by (simp add: apart_def slot_def lessThan_Suc)
  then have "recovery_ready 2 ?s"
    using demo_cache_ok(2) unfolding recovery_ready_def head by (simp add: demo_view) (simp add: demo_boot_def)
  then show ?thesis
    using recovery_leaks_buffers [of 2 ?s 0] ld32_header(2) [of 0 1 "\<lambda>_. 50" "\<lambda>_. 0"] unfolding head by auto
qed

text \<open>C13 (absorption). \<open>log_write\<close> keeps the log a list of distinct blocks that fits the log: a
  block that is already in the transaction is absorbed without a trace, a new one is appended
  and its buffer pinned. It panics exactly when the log has no room or no operation is under
  way.\<close>

theorem log_write_absorbs:
  fixes s :: kstate and b :: nat
  defines "n \<equiv> b_blockno (k_bufs s b)" and "lg \<equiv> k_log s"
  assumes "quiet p s" and "0 \<le> l_n (k_log s)" and "distinct (logged_blocks (k_log s))"
  shows "case log_write b s of
      Ok _ t \<Rightarrow> l_n lg < 30 \<and> l_n lg < l_size lg - 1 \<and> 0 < l_outstanding lg \<and>
        distinct (logged_blocks (k_log t)) \<and> l_n (k_log t) \<le> 30 \<and> l_n (k_log t) < l_size (k_log t) \<and>
        (if n \<in> set (logged_blocks lg) then t = s
         else logged_blocks (k_log t) = logged_blocks lg @ [n] \<and> b_refcnt (k_bufs t b) = b_refcnt (k_bufs s b) + 1)
    | Panic _ \<Rightarrow> l_n lg \<ge> 30 \<or> l_n lg \<ge> l_size lg - 1 \<or> l_outstanding lg < 1
    | _ \<Rightarrow> False"
proof (cases "n \<in> set (logged_blocks lg)")
  case False
  have "k_log (joined b s) = lg\<lparr>l_block := (l_block lg)(nat (l_n lg) := n), l_n := l_n lg + 1\<rparr>"
    and "b_refcnt (k_bufs (joined b s) b) = b_refcnt (k_bufs s b) + 1"
    by (simp_all add: joined_def upd_log_def recount_def upd_buf_def lg_def n_def)
  then show ?thesis
    using assms(3-5) False logged_blocks_joined [OF assms(4), of b]
    by (simp add: log_write_apply n_def lg_def)
qed (use assms in \<open>simp add: log_write_apply\<close>)

theorem log_write_absorbs_witness:
  "log_write 0 (upd_log (\<lambda>l. l\<lparr>l_outstanding := 1\<rparr>) demo_cache) = Ok () (upd_log (\<lambda>l. l\<lparr>l_outstanding := 1\<rparr>) demo_cache)"
proof -
  let ?s = "upd_log (\<lambda>l. l\<lparr>l_outstanding := 1\<rparr>) demo_cache"
  have log: "k_log ?s = (k_log demo_running)\<lparr>l_dev := 1, l_start := 2, l_size := 30, l_n := 1, l_block := (\<lambda>_. 50), l_outstanding := 1\<rparr>"
    by (simp add: demo_cache_def upd_log_def)
  have blocks: "logged_blocks (k_log ?s) = [50]" and n: "b_blockno (k_bufs ?s 0) = 50"
    by (simp add: log logged_blocks_def) (simp add: demo_cache_def upd_log_def demo_bufs_def)
  have "quiet 2 ?s"
    using demo_cache_ok(1) by (simp add: cache_ok_def upd_log_def)
  then show ?thesis
    using log_write_absorbs [of 2 ?s 0] by (cases "log_write 0 ?s") (simp_all add: blocks n, simp_all add: log)
qed

text \<open>C14 (admission). \<open>begin_op\<close> lets an operation in only when the log, besides what it holds,
  has room for ten blocks of every operation under way, this one included; otherwise, and
  while a commit runs, the caller goes to sleep on the log with nothing reserved and the log's
  lock released.\<close>

theorem begin_op_reserves:
  assumes "quiet p s" and "c_noff (k_cpus s (k_hart s)) = 0"
  shows "case begin_op s of
      Ok _ t \<Rightarrow> \<not> l_committing (k_log s) \<and> l_outstanding (k_log t) = l_outstanding (k_log s) + 1 \<and>
        l_n (k_log t) + 10 * l_outstanding (k_log t) \<le> 30 \<and> quiet p t
    | Switch t \<Rightarrow> (l_committing (k_log s) \<or> l_n (k_log s) + 10 * (l_outstanding (k_log s) + 1) > 30) \<and>
        k_log t = k_log s \<and> lock_free LogLock t \<and> p_state (k_procs t p) = SLEEPING \<and> p_chan (k_procs t p) = Some ChLog
    | _ \<Rightarrow> False"
proof -
  let ?t = "asleep p ChLog LogLock (locked_state LogLock s)"
  have "lock_free LogLock ?t"
    using assms(1) by (simp add: asleep_def lock_free_def upd_defs locked_state_def irq_pushed_def quiet_def)
  moreover have "k_log ?t = k_log s" "p_state (k_procs ?t p) = SLEEPING" "p_chan (k_procs ?t p) = Some ChLog"
    by (simp_all add: asleep_def upd_defs)
  ultimately show ?thesis
    using assms(1) unfolding begin_op_apply [OF assms] by (auto simp: upd_log_def)
qed

theorem begin_op_reserves_witness:
  "\<exists>t. begin_op demo_cache = Ok () t \<and> l_n (k_log t) + 10 * l_outstanding (k_log t) \<le> 30"
proof -
  have "quiet 2 demo_cache" and "c_noff (k_cpus demo_cache (k_hart demo_cache)) = 0"
    using demo_cache_ok(1) by (simp_all add: cache_ok_def) (simp add: demo_cache_def demo_running_def zero_state_def)
  then show ?thesis
    using begin_op_reserves [of 2 demo_cache]
    by (cases "begin_op demo_cache") (auto simp: demo_cache_def demo_running_def zero_state_def zero_log_def)
qed

end
