(* ===== verification/Xv6_Fs.thy ===== *)
theory Xv6_Fs
  imports Xv6_Log
begin

text \<open>
  \<open>kernel/fs.c\<close>: the block allocator, the inode cache, file contents, directories and path
  names. An inode pointer is the index of a cache entry, \<open>None\<close> for null. On-disk inodes are
  the 64-byte structures \<open>struct dinode\<close> in the bytes of a block (\<open>type\<close>, \<open>major\<close>, \<open>minor\<close>,
  \<open>nlink\<close> at offsets 0, 2, 4, 6, \<open>size\<close> at 8, \<open>addrs[i]\<close> at \<open>12 + 4 * i\<close>); directory entries
  are 16 bytes (\<open>inum\<close> at 0, \<open>name\<close> at 2). The caller's \<open>struct dirent\<close> is the local buffer
  \<open>k_kbuf\<close>, and a path is the list of its characters.
\<close>

section \<open>Layout\<close>

abbreviation NDIRECT :: nat where "NDIRECT \<equiv> 12"
abbreviation NINDIRECT :: nat where "NINDIRECT \<equiv> 256"
abbreviation MAXFILE :: nat where "MAXFILE \<equiv> 268"
abbreviation DIRSIZ :: nat where "DIRSIZ \<equiv> 14"
abbreviation IPB :: u32 where "IPB \<equiv> 16"
abbreviation BPB :: u32 where "BPB \<equiv> 8192"
abbreviation T_DIR :: u16 where "T_DIR \<equiv> 1"
abbreviation T_FILE :: u16 where "T_FILE \<equiv> 2"
abbreviation T_DEVICE :: u16 where "T_DEVICE \<equiv> 3"
abbreviation FSMAGIC :: u32 where "FSMAGIC \<equiv> 0x10203040"
abbreviation ROOTDEV :: u32 where "ROOTDEV \<equiv> 1"
abbreviation ROOTINO :: u32 where "ROOTINO \<equiv> 1"

definition IBLOCK :: "u32 \<Rightarrow> superblock \<Rightarrow> u32" where
  "IBLOCK i sb = i div IPB + sb_inodestart sb"

definition BBLOCK :: "u32 \<Rightarrow> superblock \<Rightarrow> u32" where
  "BBLOCK b sb = b div BPB + sb_bmapstart sb"

text \<open>The offset of inode \<open>inum\<close> in its block.\<close>

definition dinode_off :: "u32 \<Rightarrow> nat" where
  "dinode_off inum = unat (inum mod IPB) * 64"

section \<open>The super block and the block allocator\<close>

definition readsb :: "u32 \<Rightarrow> unit k" where
  "readsb dev =
     bind (bread dev 1) (\<lambda>bp.
     seq (modify (\<lambda>s. let d = b_data (k_bufs s bp) in
       s\<lparr>k_sb := \<lparr>sb_magic = ld32 d 0, sb_size = ld32 d 4, sb_nblocks = ld32 d 8,
          sb_ninodes = ld32 d 12, sb_nlog = ld32 d 16, sb_logstart = ld32 d 20,
          sb_inodestart = ld32 d 24, sb_bmapstart = ld32 d 28\<rparr>\<rparr>))
     (brelse bp))"

definition fsinit :: "u32 \<Rightarrow> unit k" where
  "fsinit dev =
     seq (readsb dev) (
     bind (gets (\<lambda>s. sb_magic (k_sb s))) (\<lambda>magic.
     seq (do_when (magic \<noteq> FSMAGIC) (panic ''invalid file system''))
     (initlog dev)))"

definition bzero :: "u32 \<Rightarrow> u32 \<Rightarrow> unit k" where
  "bzero dev bno =
     bind (bread dev bno) (\<lambda>bp. block [
       modify (upd_buf bp (\<lambda>bf. bf\<lparr>b_data := overwrite (b_data bf) 0 BSIZE (\<lambda>_. 0)\<rparr>)),
       log_write bp,
       brelse bp])"

text \<open>Bit \<open>bi\<close> of a bitmap block.\<close>

definition bmap_bit :: "bytes \<Rightarrow> nat \<Rightarrow> bool" where
  "bmap_bit d bi = bit (d (bi div 8)) (bi mod 8)"

definition set_bmap_bit :: "nat \<Rightarrow> bool \<Rightarrow> bytes \<Rightarrow> bytes" where
  "set_bmap_bit bi v d =
     d(bi div 8 := (if v then d (bi div 8) OR push_bit (bi mod 8) 1
                    else d (bi div 8) AND NOT (push_bit (bi mod 8) 1)))"

text \<open>The accounting at the head of \<open>balloc\<close>.\<close>

definition balloc_charge :: "unit k" where
  "balloc_charge =
     bind myproc (\<lambda>pp.
     do_when (pp \<noteq> Minus1) (
     bind (deref pp) (\<lambda>p.
     bind (gets (\<lambda>s. p_container (k_procs s p))) (\<lambda>cc.
     bind (if isroot cc then return False
           else bind (deref_opt cc) (\<lambda>c.
             gets (\<lambda>s. ct_diskused (k_conts s c) \<ge> ct_disklimit (k_conts s c)))) (\<lambda>over.
     seq (do_when over (
       seq (printf (Some ''kalloc: failed: container mem limit exceeded\<newline>'') []) (
       bind (gets (\<lambda>s. p_pid (k_procs s p))) (\<lambda>pid.
       bind (kill pid) (\<lambda>_. return ()))))) (
     bind (deref_opt cc) (\<lambda>c.
     modify (upd_cont c (\<lambda>ct. ct\<lparr>ct_diskused := ct_diskused ct + 1\<rparr>)))))))))"

definition balloc_scan :: "u32 \<Rightarrow> u32 \<Rightarrow> bytes \<Rightarrow> nat option" where
  "balloc_scan b nblocks d =
     find (\<lambda>bi. \<not> bmap_bit d bi) (filter (\<lambda>bi. unat b + bi < unat nblocks) [0..<8192])"

text \<open>One turn of the outer loop of \<open>balloc\<close>, over the bitmap block of block \<open>b\<close>.\<close>

definition balloc_turn :: "u32 \<Rightarrow> u32 \<Rightarrow> (u32 + u32) k" where
  "balloc_turn dev b =
     bind (gets k_sb) (\<lambda>sb.
     if b < sb_size sb then
       bind (bread dev (BBLOCK b sb)) (\<lambda>bp.
       bind (gets (\<lambda>s. b_data (k_bufs s bp))) (\<lambda>d.
       case balloc_scan b (sb_size sb) d of
         Some bi \<Rightarrow>
           seq (modify (upd_buf bp (\<lambda>bf. bf\<lparr>b_data := set_bmap_bit bi True (b_data bf)\<rparr>))) (
           seq (log_write bp) (
           seq (brelse bp) (
           seq (bzero dev (b + of_nat bi))
           (return (Inr (b + of_nat bi))))))
       | None \<Rightarrow> seq (brelse bp) (return (Inl (b + BPB)))))
     else panic ''balloc: out of blocks'')"

definition balloc :: "u32 \<Rightarrow> u32 k" where
  "balloc dev = seq balloc_charge (loop (2 ^ 19 + 1) (balloc_turn dev) 0)"

definition bfree :: "u32 \<Rightarrow> u32 \<Rightarrow> unit k" where
  "bfree dev b =
     bind mycont (\<lambda>cp.
     seq (do_when (cp \<noteq> Minus1) (bind (deref cp) (\<lambda>c.
       modify (upd_cont c (\<lambda>ct. ct\<lparr>ct_diskused := ct_diskused ct - 1\<rparr>))))) (
     bind (gets k_sb) (\<lambda>sb.
     bind (bread dev (BBLOCK b sb)) (\<lambda>bp.
     let bi = unat (b mod BPB) in
     bind (gets (\<lambda>s. bmap_bit (b_data (k_bufs s bp)) bi)) (\<lambda>used.
     seq (do_when (\<not> used) (panic ''freeing free block'')) (block [
       modify (upd_buf bp (\<lambda>bf. bf\<lparr>b_data := set_bmap_bit bi False (b_data bf)\<rparr>)),
       log_write bp,
       brelse bp]))))))"

section \<open>Inodes\<close>

definition iinit :: "unit k" where
  "iinit =
     seq (initlock IcacheLock ''icache'')
     (for_each [0..<NINODE] (\<lambda>i. initsleeplock (InodeSleep i) ''inode''))"

definition iget_cached :: "u32 \<Rightarrow> u32 \<Rightarrow> kstate \<Rightarrow> nat option" where
  "iget_cached dev inum s =
     find (\<lambda>i. i_ref (k_inodes s i) > 0 \<and> i_dev (k_inodes s i) = dev \<and> i_inum (k_inodes s i) = inum)
       [0..<NINODE]"

definition iget_empty :: "kstate \<Rightarrow> nat option" where
  "iget_empty s = find (\<lambda>i. i_ref (k_inodes s i) = 0) [0..<NINODE]"

definition iget :: "u32 \<Rightarrow> u32 \<Rightarrow> nat k" where
  "iget dev inum =
     seq (acquire IcacheLock) (
     bind (gets (iget_cached dev inum)) (\<lambda>r.
     case r of
       Some ip \<Rightarrow>
         seq (modify (upd_inode ip (\<lambda>i. i\<lparr>i_ref := i_ref i + 1\<rparr>))) (
         seq (release IcacheLock) (return ip))
     | None \<Rightarrow>
         bind (gets iget_empty) (\<lambda>e.
         case e of
           None \<Rightarrow> panic ''iget: no inodes''
         | Some ip \<Rightarrow>
             seq (modify (upd_inode ip (\<lambda>i. i\<lparr>i_dev := dev, i_inum := inum, i_ref := 1, i_valid := False\<rparr>))) (
             seq (release IcacheLock) (return ip)))))"

definition ialloc :: "u32 \<Rightarrow> u16 \<Rightarrow> nat k" where
  "ialloc dev type =
     bind (gets k_sb) (\<lambda>sb.
     bind (for_ret [1..<unat (sb_ninodes sb)] (\<lambda>n.
       let inum = of_nat n in
       bind (bread dev (IBLOCK inum sb)) (\<lambda>bp.
       bind (gets (\<lambda>s. ld16 (b_data (k_bufs s bp)) (dinode_off inum))) (\<lambda>t.
       if t = 0 then
         seq (modify (upd_buf bp (\<lambda>bf. bf\<lparr>b_data :=
           st16 (overwrite (b_data bf) (dinode_off inum) 64 (\<lambda>_. 0)) (dinode_off inum) type\<rparr>))) (
         seq (log_write bp) (
         seq (brelse bp) (
         bind (iget dev inum) (\<lambda>ip. return (Some ip)))))
       else seq (brelse bp) (return None))))) (\<lambda>r.
     case r of Some ip \<Rightarrow> return ip | None \<Rightarrow> panic ''ialloc: no inodes''))"

text \<open>The on-disk form of an inode, and reading it back.\<close>

definition put_addrs :: "bytes \<Rightarrow> nat \<Rightarrow> (nat \<Rightarrow> u32) \<Rightarrow> bytes" where
  "put_addrs d base a = foldl (\<lambda>d i. st32 d (base + 12 + 4 * i) (a i)) d [0..<NDIRECT + 1]"

definition put_dinode :: "nat \<Rightarrow> inode \<Rightarrow> bytes \<Rightarrow> bytes" where
  "put_dinode base ip d =
     put_addrs (st32 (st16 (st16 (st16 (st16 d base (i_type ip)) (base + 2) (i_major ip))
       (base + 4) (i_minor ip)) (base + 6) (i_nlink ip)) (base + 8) (i_size ip)) base (i_addrs ip)"

definition get_dinode :: "nat \<Rightarrow> bytes \<Rightarrow> inode \<Rightarrow> inode" where
  "get_dinode base d ip = ip\<lparr>i_type := ld16 d base, i_major := ld16 d (base + 2), i_minor := ld16 d (base + 4),
     i_nlink := ld16 d (base + 6), i_size := ld32 d (base + 8),
     i_addrs := (\<lambda>i. if i < NDIRECT + 1 then ld32 d (base + 12 + 4 * i) else i_addrs ip i)\<rparr>"

definition iupdate :: "nat \<Rightarrow> unit k" where
  "iupdate ip =
     bind (gets (\<lambda>s. k_inodes s ip)) (\<lambda>i.
     bind (gets k_sb) (\<lambda>sb.
     bind (bread (i_dev i) (IBLOCK (i_inum i) sb)) (\<lambda>bp. block [
       modify (\<lambda>s. upd_buf bp (\<lambda>bf. bf\<lparr>b_data := put_dinode (dinode_off (i_inum i)) (k_inodes s ip) (b_data bf)\<rparr>) s),
       log_write bp,
       brelse bp])))"

definition idup :: "nat option \<Rightarrow> nat option k" where
  "idup ipp =
     seq (acquire IcacheLock) (
     bind (deref_opt ipp) (\<lambda>ip.
     seq (modify (upd_inode ip (\<lambda>i. i\<lparr>i_ref := i_ref i + 1\<rparr>))) (
     seq (release IcacheLock) (return ipp))))"

definition ilock :: "nat option \<Rightarrow> unit k" where
  "ilock ipp =
     (case ipp of
        None \<Rightarrow> panic ''ilock''
      | Some ip \<Rightarrow>
          bind (gets (\<lambda>s. i_ref (k_inodes s ip))) (\<lambda>ref.
          if ref < 1 then panic ''ilock''
          else
            seq (acquiresleep (InodeSleep ip)) (
            bind (gets (\<lambda>s. k_inodes s ip)) (\<lambda>i.
            do_when (\<not> i_valid i) (
              bind (gets k_sb) (\<lambda>sb.
              bind (bread (i_dev i) (IBLOCK (i_inum i) sb)) (\<lambda>bp.
              seq (modify (\<lambda>s. upd_inode ip (get_dinode (dinode_off (i_inum i)) (b_data (k_bufs s bp))) s)) (
              seq (brelse bp) (
              seq (modify (upd_inode ip (\<lambda>i. i\<lparr>i_valid := True\<rparr>))) (
              bind (gets (\<lambda>s. i_type (k_inodes s ip))) (\<lambda>t.
              do_when (t = 0) (panic ''ilock: no type''))))))))))))"

definition iunlock :: "nat option \<Rightarrow> unit k" where
  "iunlock ipp =
     (case ipp of
        None \<Rightarrow> panic ''iunlock''
      | Some ip \<Rightarrow>
          bind (holdingsleep (InodeSleep ip)) (\<lambda>h.
          bind (gets (\<lambda>s. i_ref (k_inodes s ip))) (\<lambda>ref.
          if \<not> h \<or> ref < 1 then panic ''iunlock''
          else releasesleep (InodeSleep ip))))"

section \<open>File contents\<close>

definition bmap :: "nat \<Rightarrow> u32 \<Rightarrow> u32 k" where
  "bmap ip bn0 =
     bind (gets (\<lambda>s. i_dev (k_inodes s ip))) (\<lambda>dev.
     let slot = (\<lambda>i :: nat.
       bind (gets (\<lambda>s. i_addrs (k_inodes s ip) i)) (\<lambda>addr.
       if addr = 0 then
         bind (balloc dev) (\<lambda>addr.
         seq (modify (upd_inode ip (\<lambda>n. n\<lparr>i_addrs := (i_addrs n)(i := addr)\<rparr>))) (return addr))
       else return addr)) in
     if bn0 < of_nat NDIRECT then slot (unat bn0)
     else
       let bn = bn0 - of_nat NDIRECT in
       if bn < of_nat NINDIRECT then
         bind (slot NDIRECT) (\<lambda>addr.
         bind (bread dev addr) (\<lambda>bp.
         bind (gets (\<lambda>s. ld32 (b_data (k_bufs s bp)) (4 * unat bn))) (\<lambda>addr.
         bind (if addr = 0 then
                 bind (balloc dev) (\<lambda>addr.
                 seq (modify (upd_buf bp (\<lambda>bf. bf\<lparr>b_data := st32 (b_data bf) (4 * unat bn) addr\<rparr>))) (
                 seq (log_write bp) (return addr)))
               else return addr) (\<lambda>addr.
         seq (brelse bp) (return addr)))))
       else panic ''bmap: out of range'')"

definition itrunc :: "nat \<Rightarrow> unit k" where
  "itrunc ip =
     bind (gets (\<lambda>s. i_dev (k_inodes s ip))) (\<lambda>dev. block [
       for_each [0..<NDIRECT] (\<lambda>i.
         bind (gets (\<lambda>s. i_addrs (k_inodes s ip) i)) (\<lambda>a.
         do_when (a \<noteq> 0) (seq (bfree dev a)
           (modify (upd_inode ip (\<lambda>n. n\<lparr>i_addrs := (i_addrs n)(i := 0)\<rparr>)))))),
       bind (gets (\<lambda>s. i_addrs (k_inodes s ip) NDIRECT)) (\<lambda>ind.
         do_when (ind \<noteq> 0) (
           bind (bread dev ind) (\<lambda>bp. block [
             for_each [0..<NINDIRECT] (\<lambda>j.
               bind (gets (\<lambda>s. ld32 (b_data (k_bufs s bp)) (4 * j))) (\<lambda>a.
               do_when (a \<noteq> 0) (bfree dev a))),
             brelse bp,
             bfree dev ind,
             modify (upd_inode ip (\<lambda>n. n\<lparr>i_addrs := (i_addrs n)(NDIRECT := 0)\<rparr>))]))),
       modify (upd_inode ip (\<lambda>n. n\<lparr>i_size := 0\<rparr>)),
       iupdate ip])"

definition iput :: "nat option \<Rightarrow> unit k" where
  "iput ipp =
     seq (acquire IcacheLock) (
     bind (deref_opt ipp) (\<lambda>ip.
     bind (gets (\<lambda>s. k_inodes s ip)) (\<lambda>i.
     seq (do_when (i_ref i = 1 \<and> i_valid i \<and> i_nlink i = 0) (block [
       acquiresleep (InodeSleep ip),
       release IcacheLock,
       itrunc ip,
       modify (upd_inode ip (\<lambda>i. i\<lparr>i_type := 0\<rparr>)),
       iupdate ip,
       modify (upd_inode ip (\<lambda>i. i\<lparr>i_valid := False\<rparr>)),
       releasesleep (InodeSleep ip),
       acquire IcacheLock])) (
     seq (modify (upd_inode ip (\<lambda>i. i\<lparr>i_ref := i_ref i - 1\<rparr>)))
     (release IcacheLock)))))"

definition iunlockput :: "nat option \<Rightarrow> unit k" where
  "iunlockput ip = seq (iunlock ip) (iput ip)"

record stat =
  st_dev :: u32
  st_ino :: u32
  st_type :: u16
  st_nlink :: u16
  st_size :: u64

definition stati :: "nat \<Rightarrow> stat k" where
  "stati ip = gets (\<lambda>s. let i = k_inodes s ip in
     \<lparr>st_dev = i_dev i, st_ino = i_inum i, st_type = i_type i, st_nlink = i_nlink i,
      st_size = ucast (i_size i)\<rparr>)"

text \<open>The bytes of the block at \<open>off\<close> that a transfer with \<open>left\<close> bytes to go takes.\<close>

definition block_part :: "u32 \<Rightarrow> u32 \<Rightarrow> u32" where
  "block_part off left = min left (of_nat BSIZE - off mod of_nat BSIZE)"

definition readi_loop :: "nat \<Rightarrow> u32 \<Rightarrow> u32 \<Rightarrow> place \<Rightarrow> unit k" where
  "readi_loop ip n off0 dst0 =
     loop (unat n + 1) (\<lambda>(tot, off, dst).
       if tot < n then
         bind (bmap ip (off div of_nat BSIZE)) (\<lambda>addr.
         bind (gets (\<lambda>s. i_dev (k_inodes s ip))) (\<lambda>dev.
         bind (bread dev addr) (\<lambda>bp.
         let m = block_part off (n - tot) in
         bind (gets (\<lambda>s. at (b_data (k_bufs s bp)) (unat (off mod of_nat BSIZE)))) (\<lambda>d.
         bind (either_copyout dst d (unat m)) (\<lambda>r.
         seq (brelse bp)
         (return (if r = - 1 then Inr () else Inl (tot + m, off + m, place_add dst (unat m)))))))))
       else return (Inr ())) (0, off0, dst0)"

definition readi :: "nat \<Rightarrow> place \<Rightarrow> u32 \<Rightarrow> u32 \<Rightarrow> int k" where
  "readi ip dst off n =
     bind (gets (\<lambda>s. i_size (k_inodes s ip))) (\<lambda>sz.
     if off > sz \<or> off + n < off then return (- 1)
     else
       let n' = (if off + n > sz then sz - off else n) in
       seq (readi_loop ip n' off dst) (return (sint n')))"

definition writei_loop :: "nat \<Rightarrow> u32 \<Rightarrow> u32 \<Rightarrow> place \<Rightarrow> u32 k" where
  "writei_loop ip n off0 src0 =
     loop (unat n + 1) (\<lambda>(tot, off, src).
       if tot < n then
         bind (bmap ip (off div of_nat BSIZE)) (\<lambda>addr.
         bind (gets (\<lambda>s. i_dev (k_inodes s ip))) (\<lambda>dev.
         bind (bread dev addr) (\<lambda>bp.
         let m = block_part off (n - tot); o' = unat (off mod of_nat BSIZE) in
         bind (gets (\<lambda>s. at (b_data (k_bufs s bp)) o')) (\<lambda>d.
         bind (either_copyin d src (unat m)) (\<lambda>(r, d').
         seq (modify (upd_buf bp (\<lambda>bf. bf\<lparr>b_data := overwrite (b_data bf) o' (unat m) d'\<rparr>))) (
         if r = - 1 then seq (brelse bp) (return (Inr off))
         else seq (log_write bp) (seq (brelse bp)
           (return (Inl (tot + m, off + m, place_add src (unat m)))))))))))
       else return (Inr off)) (0, off0, src0)"

definition writei :: "nat \<Rightarrow> place \<Rightarrow> u32 \<Rightarrow> u32 \<Rightarrow> int k" where
  "writei ip src off n =
     bind (gets (\<lambda>s. i_size (k_inodes s ip))) (\<lambda>sz.
     if off > sz \<or> off + n < off then return (- 1)
     else if off + n > of_nat (MAXFILE * BSIZE) then return (- 1)
     else
       bind (writei_loop ip n off src) (\<lambda>off'.
       seq (do_when (n > 0) (
         bind (gets (\<lambda>s. i_size (k_inodes s ip))) (\<lambda>sz.
         seq (do_when (off' > sz) (modify (upd_inode ip (\<lambda>i. i\<lparr>i_size := off'\<rparr>))))
         (iupdate ip))))
       (return (sint n))))"

section \<open>Directories\<close>

definition namecmp :: "bytes \<Rightarrow> bytes \<Rightarrow> int" where
  "namecmp s t = strncmp s t DIRSIZ"

text \<open>A string constant as a zero-terminated array.\<close>

definition cbytes :: "string \<Rightarrow> bytes" where
  "cbytes str = of_bytes (map of_char str)"

text \<open>
  At the root directory of a container, a name that starts with two dots is looked up as a
  single dot.
\<close>

definition dirlookup_name :: "nat \<Rightarrow> bytes \<Rightarrow> bytes k" where
  "dirlookup_name dp name =
     bind myproc (\<lambda>pp.
     bind (deref pp) (\<lambda>p.
     bind (gets (\<lambda>s. p_container (k_procs s p))) (\<lambda>cc.
     if \<not> isroot cc \<and> strncmp name (cbytes ''..'') 2 = 0 then
       bind mycont (\<lambda>cp.
       bind (deref cp) (\<lambda>c.
       bind (gets (\<lambda>s. ct_root (k_conts s c))) (\<lambda>rt.
       return (if Some dp = rt then cbytes ''.'' else name))))
     else return name)))"

definition dirlookup_scan :: "nat \<Rightarrow> bytes \<Rightarrow> (nat \<times> u32) option k" where
  "dirlookup_scan dp name =
     loop (2 ^ 28 + 1) (\<lambda>off.
       bind (gets (\<lambda>s. k_inodes s dp)) (\<lambda>i.
       if off < i_size i then
         bind (readi dp (LocalA 0) off 16) (\<lambda>r.
         if r \<noteq> 16 then panic ''dirlookup read''
         else
           bind (gets k_kbuf) (\<lambda>de.
           if ld16 de 0 = 0 then return (Inl (off + 16))
           else if namecmp name (at de 2) = 0 then
             bind (iget (i_dev i) (ucast (ld16 de 0))) (\<lambda>ip. return (Inr (Some (ip, off))))
           else return (Inl (off + 16))))
       else return (Inr None))) 0"

definition dirlookup :: "nat \<Rightarrow> bytes \<Rightarrow> (nat \<times> u32) option k" where
  "dirlookup dp name0 =
     bind (dirlookup_name dp name0) (\<lambda>name.
     bind (gets (\<lambda>s. i_type (k_inodes s dp))) (\<lambda>t.
     if t \<noteq> T_DIR then panic ''dirlookup not DIR''
     else dirlookup_scan dp name))"

definition dirlink_slot :: "nat \<Rightarrow> u32 k" where
  "dirlink_slot dp =
     loop (2 ^ 28 + 1) (\<lambda>off.
       bind (gets (\<lambda>s. i_size (k_inodes s dp))) (\<lambda>sz.
       if off < sz then
         bind (readi dp (LocalA 0) off 16) (\<lambda>r.
         if r \<noteq> 16 then panic ''dirlink read''
         else
           bind (gets (\<lambda>s. ld16 (k_kbuf s) 0)) (\<lambda>inum.
           return (if inum = 0 then Inr off else Inl (off + 16))))
       else return (Inr off))) 0"

definition dirlink :: "nat \<Rightarrow> bytes \<Rightarrow> u32 \<Rightarrow> int k" where
  "dirlink dp name inum =
     bind (dirlookup dp name) (\<lambda>r.
     case r of
       Some (ip, _) \<Rightarrow> seq (iput (Some ip)) (return (- 1))
     | None \<Rightarrow>
         bind (dirlink_slot dp) (\<lambda>off.
         seq (modify (\<lambda>s. s\<lparr>k_kbuf := overwrite (k_kbuf s) 2 DIRSIZ (strncpy (at (k_kbuf s) 2) name DIRSIZ)\<rparr>)) (
         seq (modify (\<lambda>s. s\<lparr>k_kbuf := st16 (k_kbuf s) 0 (ucast inum)\<rparr>)) (
         bind (writei dp (LocalA 0) off 16) (\<lambda>w.
         if w \<noteq> 16 then panic ''dirlink'' else return 0)))))"

section \<open>Paths\<close>

definition slash :: u8 where "slash = of_char CHR ''/''"

text \<open>
  \<open>skipelem path name\<close> is the rest of the path and the new contents of the name buffer, or
  \<open>None\<close> when there is no element left.
\<close>

definition skipelem :: "u8 list \<Rightarrow> bytes \<Rightarrow> (u8 list \<times> bytes) option" where
  "skipelem path0 name =
     (let path = dropWhile (\<lambda>c. c = slash) path0 in
      if path = [] then None
      else
        let s = takeWhile (\<lambda>c. c \<noteq> slash) path; rest = dropWhile (\<lambda>c. c \<noteq> slash) path; len = length s in
        Some (dropWhile (\<lambda>c. c = slash) rest,
              if len \<ge> DIRSIZ then overwrite name 0 DIRSIZ (of_bytes s)
              else (overwrite name 0 len (of_bytes s))(len := 0)))"

text \<open>
  The loop that \<open>namex\<close> and \<open>namexinit\<close> share: the inode found, with the name buffer. Every
  turn takes at least one character off the path.
\<close>

definition namex_walk :: "nat option \<Rightarrow> u8 list \<Rightarrow> bool \<Rightarrow> bytes \<Rightarrow> (nat option \<times> bytes) k" where
  "namex_walk ip0 path0 parent name0 =
     loop (length path0 + 1) (\<lambda>(ip, path, name).
       case skipelem path name of
         None \<Rightarrow>
           if parent then seq (iput ip) (return (Inr (None, name)))
           else return (Inr (ip, name))
       | Some (path', name') \<Rightarrow>
           seq (ilock ip) (
           bind (deref_opt ip) (\<lambda>i.
           bind (gets (\<lambda>s. i_type (k_inodes s i))) (\<lambda>t.
           if t \<noteq> T_DIR then seq (iunlockput ip) (return (Inr (None, name')))
           else if parent \<and> path' = [] then seq (iunlock ip) (return (Inr (ip, name')))
           else
             bind (dirlookup i name') (\<lambda>r.
             case r of
               None \<Rightarrow> seq (iunlockput ip) (return (Inr (None, name')))
             | Some (nxt, _) \<Rightarrow> seq (iunlockput ip) (return (Inl (Some nxt, path', name'))))))))
       (ip0, path0, name0)"

definition namex_start :: "u8 list \<Rightarrow> nat option k" where
  "namex_start path =
     bind myproc (\<lambda>pp.
     bind (deref pp) (\<lambda>p.
     bind (gets (\<lambda>s. k_procs s p)) (\<lambda>pr.
     if path \<noteq> [] \<and> hd path = slash then
       if isroot (p_container pr) then bind (iget ROOTDEV ROOTINO) (\<lambda>ip. return (Some ip))
       else
         bind mycont (\<lambda>cp.
         bind (deref cp) (\<lambda>c.
         gets (\<lambda>s. ct_root (k_conts s c))))
     else idup (p_cwd pr))))"

definition namex :: "u8 list \<Rightarrow> bool \<Rightarrow> bytes \<Rightarrow> (nat option \<times> bytes) k" where
  "namex path parent name =
     bind (namex_start path) (\<lambda>ip. namex_walk ip path parent name)"

definition namexinit :: "u8 list \<Rightarrow> bool \<Rightarrow> bytes \<Rightarrow> (nat option \<times> bytes) k" where
  "namexinit path parent name =
     bind (iget ROOTDEV ROOTINO) (\<lambda>ip. namex_walk (Some ip) path parent name)"

definition namei :: "u8 list \<Rightarrow> nat option k" where
  "namei path = bind (namex path False (\<lambda>_. 0)) (\<lambda>(ip, _). return ip)"

definition nameiparent :: "u8 list \<Rightarrow> bytes \<Rightarrow> (nat option \<times> bytes) k" where
  "nameiparent path name = namex path True name"

end
