(* ===== verification/Xv6_Ring.thy ===== *)
theory Xv6_Ring
  imports Xv6_Prelude
begin

text \<open>
  Bounded queues of bytes in an array, indexed by two 32-bit counters that only grow and wrap
  around, as pipes and consoles have them. The queue is a list to its clients; the counters
  may wrap because the capacity divides \<open>2 ^ 32\<close>.
\<close>

locale ring_queue =
  fixes rd :: "'q \<Rightarrow> u32" and wr :: "'q \<Rightarrow> u32" and dat :: "'q \<Rightarrow> bytes" and cap :: nat
    and put :: "u8 \<Rightarrow> 'q \<Rightarrow> 'q" and take_one :: "'q \<Rightarrow> 'q"
  assumes cap_law: "0 < cap" "cap dvd 2 ^ 32" "cap < 2 ^ 32"
    and put_law: "rd (put c q) = rd q" "wr (put c q) = wr q + 1" "dat (put c q) = (dat q)(unat (wr q) mod cap := c)"
    and take_law: "rd (take_one q) = rd q + 1" "wr (take_one q) = wr q" "dat (take_one q) = dat q"
begin

definition len :: "'q \<Rightarrow> nat" where
  "len q = unat (wr q - rd q)"

definition ok :: "'q \<Rightarrow> bool" where
  "ok q \<longleftrightarrow> len q \<le> cap"

definition contents :: "'q \<Rightarrow> u8 list" where
  "contents q = map (\<lambda>i. dat q ((unat (rd q) + i) mod cap)) [0..<len q]"

lemma length_contents [simp]: "length (contents q) = len q"
  by (simp add: contents_def)

lemma empty_iff: "rd q = wr q \<longleftrightarrow> contents q = []"
proof -
  have "contents q = [] \<longleftrightarrow> len q = 0"
    by (metis length_0_conv length_contents)
  then show ?thesis
    by (auto simp: len_def unat_eq_0)
qed

lemma full_iff: "wr q = rd q + of_nat cap \<longleftrightarrow> len q = cap"
proof -
  have "wr q = rd q + of_nat cap \<longleftrightarrow> wr q - rd q = of_nat cap"
    by (metis add_diff_cancel_left' add.commute diff_add_cancel)
  also have "\<dots> \<longleftrightarrow> len q = cap"
    using cap_law(3) by (auto simp: len_def word_unat_eq_iff unat_of_nat)
  finally show ?thesis .
qed

text \<open>The index of the element behind the last one, also when the counters have wrapped.\<close>

lemma write_index: "(unat (rd q) + len q) mod cap = unat (wr q) mod cap"
proof -
  have "(unat (rd q) + len q) mod 2 ^ 32 = unat (rd q + (wr q - rd q))"
    using unat_word_ariths(1) [of "rd q" "wr q - rd q"] by (simp add: len_def)
  then have "(unat (rd q) + len q) mod 2 ^ 32 mod cap = unat (wr q) mod cap"
    by simp
  then show ?thesis
    using cap_law(2) by (simp add: mod_mod_cancel)
qed

lemma other_index: "i < len q \<Longrightarrow> len q < cap \<Longrightarrow> (unat (rd q) + i) mod cap \<noteq> unat (wr q) mod cap"
proof
  assume i: "i < len q" "len q < cap" and "(unat (rd q) + i) mod cap = unat (wr q) mod cap"
  then have "(unat (rd q) + i) mod cap = (unat (rd q) + len q) mod cap"
    by (simp add: write_index)
  then have "cap dvd len q - i"
    using i mod_eq_dvd_iff_nat [of "unat (rd q) + i" "unat (rd q) + len q" cap] by simp
  then show False
    using i by (auto dest: dvd_imp_le)
qed

lemma len_put: "len q < cap \<Longrightarrow> len (put c q) = len q + 1"
proof -
  assume "len q < cap"
  then have "unat (wr q - rd q) + 1 < 2 ^ 32"
    using cap_law(3) by (simp add: len_def)
  then show ?thesis
    by (simp add: len_def put_law unat_word_ariths(1) diff_add_eq [symmetric])
qed

lemma contents_put:
  assumes "len q < cap"
  shows "contents (put c q) = contents q @ [c]"
  using assms other_index [OF _ assms]
  by (simp add: contents_def len_put put_law write_index)

lemma ok_put: "len q < cap \<Longrightarrow> ok (put c q)"
  by (simp add: ok_def len_put)

lemma len_take: "contents q \<noteq> [] \<Longrightarrow> len (take_one q) = len q - 1"
proof -
  assume "contents q \<noteq> []"
  then have "wr q - rd q \<noteq> 0"
    using empty_iff [of q] by auto
  then show ?thesis
    by (simp add: len_def take_law unat_minus_one diff_diff_eq [symmetric])
qed

lemma contents_take:
  assumes "contents q \<noteq> []"
  shows "contents q = dat q (unat (rd q) mod cap) # contents (take_one q)"
proof -
  have pos: "0 < len q"
    using assms by (metis length_greater_0_conv length_contents)
  have idx: "(unat (rd q + 1) + i) mod cap = (unat (rd q) + Suc i) mod cap" for i
  proof -
    have "(unat (rd q + 1) + i) mod cap = ((unat (rd q) + 1) mod 2 ^ 32 mod cap + i) mod cap"
      by (simp add: unat_word_ariths(1) mod_simps)
    also have "(unat (rd q) + 1) mod 2 ^ 32 mod cap = (unat (rd q) + 1) mod cap"
      using cap_law(2) by (rule mod_mod_cancel)
    finally show ?thesis
      by (simp add: mod_simps)
  qed
  have "[0..<len q] = 0 # map Suc [0..<len q - 1]"
    using pos by (simp add: map_Suc_upt upt_conv_Cons)
  then show ?thesis
    by (simp add: contents_def len_take [OF assms] take_law idx)
qed

lemma ok_take: "ok q \<Longrightarrow> contents q \<noteq> [] \<Longrightarrow> ok (take_one q)"
  by (simp add: ok_def len_take)

text \<open>Several elements at once.\<close>

lemma contents_puts: "len q + length cs \<le> cap \<Longrightarrow> contents (fold put cs q) = contents q @ cs \<and> ok (fold put cs q)"
proof (induction cs arbitrary: q)
  case Nil
  then show ?case by (simp add: ok_def)
next
  case (Cons c cs)
  then have "len q < cap" by simp
  then show ?case
    using Cons.IH [of "put c q"] Cons.prems by (simp add: contents_put len_put)
qed

lemma contents_takes:
  "ok q \<Longrightarrow> n \<le> len q \<Longrightarrow> contents ((take_one ^^ n) q) = drop n (contents q) \<and> ok ((take_one ^^ n) q)"
proof (induction n arbitrary: q)
  case 0
  then show ?case by simp
next
  case (Suc n)
  then have ne: "contents q \<noteq> []"
    by (metis length_contents list.size(3) not_less_eq_eq le0)
  then show ?case
    using Suc.IH [of "take_one q"] Suc.prems contents_take [OF ne] ok_take
    by (simp add: len_take funpow_Suc_right del: funpow.simps)
qed

end

end
