(* ===== verification/Xv6_Pipe.thy ===== *)
theory Xv6_Pipe
  imports Xv6_Fs Xv6_Ring
begin

text \<open>
  \<open>kernel/pipe.c\<close> but for \<open>pipealloc\<close>, which works on open files: the bounded buffer between
  a writer and a reader. A pipe is named by the address of its page. \<open>nread\<close> and \<open>nwrite\<close> are
  32-bit counters that wrap around; the buffer is indexed with them modulo \<open>PIPESIZE\<close>.
\<close>

section \<open>Definitions\<close>

abbreviation PIPESIZE :: nat where "PIPESIZE \<equiv> 512"

definition pipeclose :: "u64 \<Rightarrow> bool \<Rightarrow> unit k" where
  "pipeclose pi writable =
     seq (acquire (PipeLock pi)) (
     seq (if writable then
            seq (modify (upd_pipe pi (\<lambda>q. q\<lparr>pi_writeopen := False\<rparr>))) (wakeup (ChPipeRead pi))
          else
            seq (modify (upd_pipe pi (\<lambda>q. q\<lparr>pi_readopen := False\<rparr>))) (wakeup (ChPipeWrite pi))) (
     bind (gets (\<lambda>s. k_pipes s pi)) (\<lambda>q.
     if \<not> pi_readopen q \<and> \<not> pi_writeopen q then
       seq (release (PipeLock pi)) (kfree pi)
     else release (PipeLock pi))))"

definition pipe_full :: "pipe \<Rightarrow> bool" where
  "pipe_full q = (pi_nwrite q = pi_nread q + of_nat PIPESIZE)"

definition pipe_put :: "u8 \<Rightarrow> pipe \<Rightarrow> pipe" where
  "pipe_put ch q = q\<lparr>pi_data := (pi_data q)(unat (pi_nwrite q mod of_nat PIPESIZE) := ch),
     pi_nwrite := pi_nwrite q + 1\<rparr>"

definition pipe_head :: "pipe \<Rightarrow> u8" where
  "pipe_head q = pi_data q (unat (pi_nread q mod of_nat PIPESIZE))"

definition pipe_take :: "pipe \<Rightarrow> pipe" where
  "pipe_take q = q\<lparr>pi_nread := pi_nread q + 1\<rparr>"

text \<open>
  One turn of the loop of \<open>pipewrite\<close>, at byte \<open>i\<close>. When the pipe is full the writer sleeps,
  and goes on with the same turn when it wakes up.
\<close>

definition pipewrite_turn :: "u64 \<Rightarrow> nat \<Rightarrow> u64 \<Rightarrow> int \<Rightarrow> int \<Rightarrow> (int + int) k" where
  "pipewrite_turn pi pr addr n i =
     (if i < n then
        bind (gets (\<lambda>s. k_pipes s pi)) (\<lambda>q.
        if pipe_full q then
          bind (if \<not> pi_readopen q then return True
                else bind myproc (\<lambda>pp. bind (deref pp) (\<lambda>p. gets (\<lambda>s. p_killed (k_procs s p))))) (\<lambda>stop.
          if stop then seq (release (PipeLock pi)) (return (Inr (- 1)))
          else seq (wakeup (ChPipeRead pi)) (sleep (ChPipeWrite pi) (PipeLock pi)))
        else
          bind (gets (\<lambda>s. p_pagetable (k_procs s pr))) (\<lambda>pt.
          bind (copyin pt (\<lambda>_. 0) (addr + of_int i) 1) (\<lambda>(r, ch).
          if r = - 1 then
            seq (wakeup (ChPipeRead pi)) (seq (release (PipeLock pi)) (return (Inr n)))
          else
            seq (modify (upd_pipe pi (pipe_put (ch 0)))) (return (Inl (i + 1))))))
      else seq (wakeup (ChPipeRead pi)) (seq (release (PipeLock pi)) (return (Inr n))))"

definition pipewrite_loop :: "u64 \<Rightarrow> nat \<Rightarrow> u64 \<Rightarrow> int \<Rightarrow> int \<Rightarrow> int k" where
  "pipewrite_loop pi pr addr n i = loop (nat (n - i) + 1) (pipewrite_turn pi pr addr n) i"

definition pipewrite :: "u64 \<Rightarrow> u64 \<Rightarrow> int \<Rightarrow> int k" where
  "pipewrite pi addr n =
     bind myproc (\<lambda>pp. bind (deref pp) (\<lambda>pr.
     seq (acquire (PipeLock pi)) (pipewrite_loop pi pr addr n 0)))"

definition pipewrite_wake :: "u64 \<Rightarrow> nat \<Rightarrow> bool \<Rightarrow> u64 \<Rightarrow> int \<Rightarrow> int \<Rightarrow> int k" where
  "pipewrite_wake pi pr intena addr n i =
     seq (sleep_return pr (PipeLock pi) intena) (pipewrite_loop pi pr addr n i)"

definition piperead_turn :: "u64 \<Rightarrow> nat \<Rightarrow> u64 \<Rightarrow> int \<Rightarrow> int \<Rightarrow> (int + int) k" where
  "piperead_turn pi pr addr n i =
     (if i < n then
        bind (gets (\<lambda>s. k_pipes s pi)) (\<lambda>q.
        if pi_nread q = pi_nwrite q then return (Inr i)
        else
          seq (modify (upd_pipe pi pipe_take)) (
          bind (gets (\<lambda>s. p_pagetable (k_procs s pr))) (\<lambda>pt.
          bind (copyout pt (addr + of_int i) (\<lambda>_. pipe_head q) 1) (\<lambda>r.
          return (if r = - 1 then Inr i else Inl (i + 1))))))
      else return (Inr i))"

text \<open>\<open>piperead\<close> from its first loop on, which a woken reader enters again.\<close>

definition piperead_loop :: "u64 \<Rightarrow> nat \<Rightarrow> u64 \<Rightarrow> int \<Rightarrow> int k" where
  "piperead_loop pi pr addr n =
     bind (gets (\<lambda>s. k_pipes s pi)) (\<lambda>q.
     if pi_nread q = pi_nwrite q \<and> pi_writeopen q then
       bind myproc (\<lambda>pp. bind (deref pp) (\<lambda>p.
       bind (gets (\<lambda>s. p_killed (k_procs s p))) (\<lambda>killed.
       if killed then seq (release (PipeLock pi)) (return (- 1))
       else sleep (ChPipeRead pi) (PipeLock pi))))
     else
       bind (loop (nat n + 1) (piperead_turn pi pr addr n) 0) (\<lambda>i.
       seq (wakeup (ChPipeWrite pi)) (seq (release (PipeLock pi)) (return i))))"

definition piperead :: "u64 \<Rightarrow> u64 \<Rightarrow> int \<Rightarrow> int k" where
  "piperead pi addr n =
     bind myproc (\<lambda>pp. bind (deref pp) (\<lambda>pr.
     seq (acquire (PipeLock pi)) (piperead_loop pi pr addr n)))"

definition piperead_wake :: "u64 \<Rightarrow> nat \<Rightarrow> bool \<Rightarrow> u64 \<Rightarrow> int \<Rightarrow> int k" where
  "piperead_wake pi pr intena addr n =
     seq (sleep_return pr (PipeLock pi) intena) (piperead_loop pi pr addr n)"

section \<open>The pipe as a queue\<close>

interpretation pq: ring_queue pi_nread pi_nwrite pi_data PIPESIZE pipe_put pipe_take
  by unfold_locales (simp_all add: pipe_put_def pipe_take_def unat_mod)

text \<open>One byte from user memory.\<close>

lemma copyin_one:
  "\<exists>d. copyin pt dst va 1 s = (case ubyte (k_mem s) pt va of None \<Rightarrow> Ok (- 1, d) s | Some c \<Rightarrow> Ok (0, d) s) \<and>
     (\<forall>c. ubyte (k_mem s) pt va = Some c \<longrightarrow> d 0 = c)"
proof -
  obtain r d where "copyin_loop pt dst 0 va 1 s = Ok (r, d) s"
    and "if \<forall>i<1. uva (k_mem s) pt (va + of_nat i) \<noteq> None
      then r = 0 \<and> (\<forall>i<1. d (0 + i) = k_mem s (the (uva (k_mem s) pt (va + of_nat i))))
      else r = - 1"
    using copyin_loop_total [of pt dst 0 va 1 s] by blast
  then show ?thesis
    by (intro exI [of _ d]) (auto simp: copyin_def ubyte_def split: option.split if_splits)
qed

lemma pipe_upd_fields [simp]:
  "k_pipes (upd_pipe a f s) a = f (k_pipes s a)" "k_procs (upd_pipe a f s) = k_procs s" "k_mem (upd_pipe a f s) = k_mem s"
  "upd_pipe a g (upd_pipe a f s) = upd_pipe a (\<lambda>q. g (f q)) s"
  by (simp_all add: upd_pipe_def)

text \<open>The turns of \<open>pipewrite\<close>: a byte is stored, the range ends or is not mapped, or the pipe is full.\<close>

lemma pipewrite_store:
  assumes "i < n" and "\<not> pipe_full (k_pipes s pi)" and "ubyte (k_mem s) (p_pagetable (k_procs s pr)) (addr + of_int i) = Some c"
  shows "pipewrite_loop pi pr addr n i s = pipewrite_loop pi pr addr n (i + 1) (upd_pipe pi (pipe_put c) s)"
proof -
  obtain d where d: "copyin (p_pagetable (k_procs s pr)) (\<lambda>_. 0) (addr + of_int i) 1 s = Ok (0, d) s" "d 0 = c"
    using copyin_one [of "p_pagetable (k_procs s pr)" "\<lambda>_. 0" "addr + of_int i" s] assms(3) by auto
  have fuel: "nat (n - i) + 1 - 1 = nat (n - (i + 1)) + 1"
    using assms(1) by simp
  have "pipewrite_turn pi pr addr n i s = Ok (Inl (i + 1)) (upd_pipe pi (pipe_put c) s)"
    using assms d by (simp add: pipewrite_turn_def run_simps)
  then show ?thesis
    unfolding pipewrite_loop_def by (subst loop_unfold) (simp, simp only: fuel, simp add: bind_Ok)
qed

lemma pipewrite_stores:
  assumes "\<And>k. k < length cs \<Longrightarrow> ubyte (k_mem s) (p_pagetable (k_procs s pr)) (addr + of_int (i + int k)) = Some (cs ! k)"
    and "pq.len (k_pipes s pi) + length cs \<le> PIPESIZE" and "i + int (length cs) \<le> n"
  shows "pipewrite_loop pi pr addr n i s = pipewrite_loop pi pr addr n (i + int (length cs)) (upd_pipe pi (fold pipe_put cs) s)"
  using assms
proof (induction cs arbitrary: i s)
  case Nil
  then show ?case by (simp add: upd_pipe_def)
next
  case (Cons c cs)
  have "\<not> pipe_full (k_pipes s pi)"
    using Cons.prems(2) pq.full_iff [of "k_pipes s pi"] by (simp add: pipe_full_def)
  then have "pipewrite_loop pi pr addr n i s = pipewrite_loop pi pr addr n (i + 1) (upd_pipe pi (pipe_put c) s)"
    using Cons.prems(3) Cons.prems(1) [of 0] by (intro pipewrite_store) simp_all
  also have "\<dots> = pipewrite_loop pi pr addr n (i + 1 + int (length cs)) (upd_pipe pi (fold pipe_put cs) (upd_pipe pi (pipe_put c) s))"
  proof (rule Cons.IH)
    show "ubyte (k_mem (upd_pipe pi (pipe_put c) s)) (p_pagetable (k_procs (upd_pipe pi (pipe_put c) s) pr)) (addr + of_int (i + 1 + int k)) = Some (cs ! k)"
      if "k < length cs" for k
      using Cons.prems(1) [of "Suc k"] that by (simp add: ac_simps)
  qed (use Cons.prems pq.len_put in simp_all)
  finally show ?case
    by (simp add: ac_simps)
qed

lemma pipewrite_end:
  assumes "n \<le> i \<or> \<not> pipe_full (k_pipes s pi) \<and> ubyte (k_mem s) (p_pagetable (k_procs s pr)) (addr + of_int i) = None"
  shows "pipewrite_loop pi pr addr n i s = seq (wakeup (ChPipeRead pi)) (seq (release (PipeLock pi)) (return n)) s"
proof -
  have "pipewrite_turn pi pr addr n i s = seq (wakeup (ChPipeRead pi)) (seq (release (PipeLock pi)) (return (Inr n))) s"
  proof (cases "n \<le> i")
    case False
    then obtain d where d: "copyin (p_pagetable (k_procs s pr)) (\<lambda>_. 0) (addr + of_int i) 1 s = Ok (- 1, d) s"
      using copyin_one [of "p_pagetable (k_procs s pr)" "\<lambda>_. 0" "addr + of_int i" s] assms by auto
    then show ?thesis
      using assms False by (simp add: pipewrite_turn_def run_simps)
  qed (simp add: pipewrite_turn_def)
  then show ?thesis
    unfolding pipewrite_loop_def
    by (subst loop_unfold) (simp_all add: seq_def bind_def return_def split: outcome.split)
qed

lemma pipewrite_full:
  assumes "quiet p s" and "c_noff (k_cpus s (k_hart s)) = 0" and "i < n" and "pipe_full (g (k_pipes s pi))"
    and "pi_readopen (g (k_pipes s pi)) = pi_readopen (k_pipes s pi)"
  shows "pipewrite_loop pi pr addr n i (upd_pipe pi g (locked_state (PipeLock pi) s)) =
    (if \<not> pi_readopen (k_pipes s pi) \<or> p_killed (k_procs s p) then Ok (- 1) (upd_pipe pi g s)
     else Switch (asleep p (ChPipeWrite pi) (PipeLock pi)
       (waked (ChPipeRead pi) (upd_pipe pi g (locked_state (PipeLock pi) s)))))"
proof -
  let ?u = "upd_pipe pi g (locked_state (PipeLock pi) s)"
  let ?w = "waked (ChPipeRead pi) ?u"
  have me: "myproc ?u = Ok (Ptr p) ?u"
    using assms(1) by (intro myproc_running) (simp_all add: off_lock_calm quietD, simp add: running_def upd_pipe_def quiet_def)
  have wake: "wakeup (ChPipeRead pi) ?u = Ok () ?w"
    using wakeup_quiet_locked [OF assms(1), of "PipeLock pi" "upd_pipe pi g"] by simp
  have "running p ?w" "calm ?w" "lock_held (PipeLock pi) ?w" "lock_free (ProcLock p) ?w" "c_noff (k_cpus ?w (k_hart ?w)) = 1"
    using assms(1,2)
    by (simp_all add: running_def calm_def waked_def upd_pipe_def quiet_def lock_held_def lock_free_def locked_state_def
        irq_pushed_def upd_lock_def upd_cpu_def)
  then have sl: "sleep (ChPipeWrite pi) (PipeLock pi) ?w = Switch (asleep p (ChPipeWrite pi) (PipeLock pi) ?w)"
    by (intro sleep_apply)
  have "pipewrite_turn pi pr addr n i ?u =
      (if \<not> pi_readopen (k_pipes s pi) \<or> p_killed (k_procs s p) then Ok (Inr (- 1)) (upd_pipe pi g s)
       else Switch (asleep p (ChPipeWrite pi) (PipeLock pi) ?w))"
    using assms by (simp add: pipewrite_turn_def run_simps me wake sl release_quiet)
  then show ?thesis
    unfolding pipewrite_loop_def by (subst loop_unfold) (simp_all add: bind_def return_def)
qed

text \<open>The bytes of a user range up to the first that is not mapped.\<close>

definition user_prefix :: "memory \<Rightarrow> u64 \<Rightarrow> u64 \<Rightarrow> nat \<Rightarrow> u8 list" where
  "user_prefix m pt addr n =
     map the (takeWhile (\<lambda>b. b \<noteq> None) (map (\<lambda>k. ubyte m pt (addr + of_nat k)) [0..<n]))"

lemma user_prefix_length: "length (user_prefix m pt addr n) \<le> n"
  using length_takeWhile_le [of "\<lambda>b. b \<noteq> None" "map (\<lambda>k. ubyte m pt (addr + of_nat k)) [0..<n]"]
  by (simp add: user_prefix_def)

lemma user_prefix_nth:
  "k < length (user_prefix m pt addr n) \<Longrightarrow> ubyte m pt (addr + of_nat k) = Some (user_prefix m pt addr n ! k)"
proof -
  let ?bs = "map (\<lambda>k. ubyte m pt (addr + of_nat k)) [0..<n]"
  assume k: "k < length (user_prefix m pt addr n)"
  then have len: "k < length (takeWhile (\<lambda>b. b \<noteq> None) ?bs)"
    by (simp add: user_prefix_def)
  then have "?bs ! k \<noteq> None"
    using takeWhile_nth [OF len] nth_mem [OF len] by (auto dest: set_takeWhileD)
  moreover have "k < n"
    using len length_takeWhile_le [of "\<lambda>b. b \<noteq> None" ?bs] by simp
  ultimately show ?thesis
    using len takeWhile_nth [OF len] by (simp add: user_prefix_def)
qed

lemma user_prefix_end:
  "length (user_prefix m pt addr n) < n \<Longrightarrow> ubyte m pt (addr + of_nat (length (user_prefix m pt addr n))) = None"
proof -
  let ?bs = "map (\<lambda>k. ubyte m pt (addr + of_nat k)) [0..<n]"
  assume "length (user_prefix m pt addr n) < n"
  then have "length (takeWhile (\<lambda>b. b \<noteq> None) ?bs) < length ?bs"
    by (simp add: user_prefix_def)
  then have "\<not> ?bs ! length (takeWhile (\<lambda>b. b \<noteq> None) ?bs) \<noteq> None"
    by (rule nth_length_takeWhile)
  then show ?thesis
    using \<open>length (user_prefix m pt addr n) < n\<close> by (simp add: user_prefix_def)
qed

lemma puts_readopen: "pi_readopen (fold pipe_put cs q) = pi_readopen q"
  by (induction cs arbitrary: q) (simp_all add: pipe_put_def)

lemma off_lock_pipe_waked: "off_lock (\<lambda>s. waked ch (upd_pipe pi g s))"
  by (rule off_lock_comp) simp_all

lemma pipewrite_enters:
  assumes "quiet p s" and "cs = user_prefix (k_mem s) (p_pagetable (k_procs s p)) addr (nat n)"
    and "m \<le> length cs" and "pq.len (k_pipes s pi) + m \<le> PIPESIZE" and "0 \<le> n"
  shows "pipewrite pi addr n s =
    pipewrite_loop pi p addr n (int m) (upd_pipe pi (fold pipe_put (take m cs)) (locked_state (PipeLock pi) s))"
proof -
  have "m \<le> nat n"
    using assms(2,3) user_prefix_length le_trans by blast
  have "pipewrite_loop pi p addr n 0 (locked_state (PipeLock pi) s) =
    pipewrite_loop pi p addr n (0 + int (length (take m cs)))
      (upd_pipe pi (fold pipe_put (take m cs)) (locked_state (PipeLock pi) s))"
  proof (rule pipewrite_stores)
    show "ubyte (k_mem (locked_state (PipeLock pi) s)) (p_pagetable (k_procs (locked_state (PipeLock pi) s) p))
        (addr + of_int (0 + int k)) = Some (take m cs ! k)" if "k < length (take m cs)" for k
      using user_prefix_nth [of k "k_mem s" "p_pagetable (k_procs s p)" addr "nat n"] that by (simp add: assms(2))
  qed (use assms(3-5) \<open>m \<le> nat n\<close> in simp_all)
  then show ?thesis
    using assms(1,3) by (simp add: pipewrite_def run_simps myproc_quiet)
qed

text \<open>A write that fits: \<open>pipewrite\<close> appends the bytes and wakes up the readers.\<close>

lemma pipewrite_fits:
  assumes "quiet p s" and "cs = user_prefix (k_mem s) (p_pagetable (k_procs s p)) addr (nat n)" and "0 \<le> n"
    and "pq.len (k_pipes s pi) + length cs < PIPESIZE \<or> length cs = nat n \<and> pq.len (k_pipes s pi) + length cs \<le> PIPESIZE"
  shows "pipewrite pi addr n s = Ok n (waked (ChPipeRead pi) (upd_pipe pi (fold pipe_put cs) s))"
proof -
  let ?u = "upd_pipe pi (fold pipe_put cs) (locked_state (PipeLock pi) s)"
  have fits: "pq.len (k_pipes s pi) + length cs \<le> PIPESIZE"
    using assms(4) by auto
  have "n \<le> int (length cs) \<or> \<not> pipe_full (k_pipes ?u pi) \<and>
      ubyte (k_mem ?u) (p_pagetable (k_procs ?u p)) (addr + of_int (int (length cs))) = None"
  proof (cases "length cs = nat n")
    case True
    then show ?thesis using assms(3) by simp
  next
    case False
    then have "length cs < nat n"
      using user_prefix_length [of "k_mem s" "p_pagetable (k_procs s p)" addr "nat n"] assms(2) by simp
    moreover have "pq.len (fold pipe_put cs (k_pipes s pi)) = pq.len (k_pipes s pi) + length cs"
      using pq.contents_puts [OF fits] by (simp flip: pq.length_contents)
    ultimately show ?thesis
      using user_prefix_end assms(2,4) False pq.full_iff [of "fold pipe_put cs (k_pipes s pi)"]
      by (simp add: pipe_full_def)
  qed
  moreover have "wakeup (ChPipeRead pi) ?u = Ok () (waked (ChPipeRead pi) ?u)"
    using wakeup_quiet_locked [OF assms(1), of "PipeLock pi" "upd_pipe pi (fold pipe_put cs)"] by simp
  moreover have "release (PipeLock pi) (waked (ChPipeRead pi) ?u) = Ok () (waked (ChPipeRead pi) (upd_pipe pi (fold pipe_put cs) s))"
    by (rule release_quiet [OF assms(1) off_lock_pipe_waked])
  ultimately show ?thesis
    using pipewrite_enters [OF assms(1,2) order_refl fits assms(3)] pipewrite_end
    by (simp add: run_simps)
qed

text \<open>One that does not: the pipe is filled, and the writer gives up or sleeps.\<close>

lemma pipewrite_blocks:
  assumes "quiet p s" and "c_noff (k_cpus s (k_hart s)) = 0"
    and "cs = user_prefix (k_mem s) (p_pagetable (k_procs s p)) addr (nat n)" and "0 \<le> n"
    and "m = PIPESIZE - pq.len (k_pipes s pi)" and "pq.ok (k_pipes s pi)" and "m \<le> length cs" and "m < nat n"
  shows "pipewrite pi addr n s =
    (if \<not> pi_readopen (k_pipes s pi) \<or> p_killed (k_procs s p) then Ok (- 1) (upd_pipe pi (fold pipe_put (take m cs)) s)
     else Switch (asleep p (ChPipeWrite pi) (PipeLock pi) (waked (ChPipeRead pi)
       (upd_pipe pi (fold pipe_put (take m cs)) (locked_state (PipeLock pi) s)))))"
proof -
  have len: "pq.len (k_pipes s pi) + m = PIPESIZE"
    using assms(5,6) by (simp add: pq.ok_def)
  then have "pq.len (fold pipe_put (take m cs) (k_pipes s pi)) = PIPESIZE"
    using pq.contents_puts [of "k_pipes s pi" "take m cs"] assms(7)
    by (simp flip: pq.length_contents)
  then have "pipe_full (fold pipe_put (take m cs) (k_pipes s pi))"
    using pq.full_iff [of "fold pipe_put (take m cs) (k_pipes s pi)"] by (simp add: pipe_full_def)
  then show ?thesis
    using pipewrite_enters [OF assms(1,3,7) _ assms(4), of pi] len assms(8)
      pipewrite_full [OF assms(1,2), of "int m" n "fold pipe_put (take m cs)" pi p addr]
    by (simp add: puts_readopen)
qed

text \<open>One byte to user memory.\<close>

lemma page_part_one: "page_part va (Suc 0) = Suc 0"
  using page_part_pos [of 1 va] page_part_le [of va 1] by simp

lemma copyout_one:
  "copyout pt va src (Suc 0) s =
     (case uva (k_mem s) pt va of None \<Rightarrow> Ok (- 1) s | Some a \<Rightarrow> Ok 0 (s\<lparr>k_mem := (k_mem s)(a := src 0)\<rparr>))"
proof (cases "upage (k_mem s) pt (PGROUNDDOWN va) = 0")
  case True
  then show ?thesis
    by (subst copyout.simps) (simp add: run_simps walkaddr_apply Let_def uva_def)
next
  case False
  let ?a = "upage (k_mem s) pt (PGROUNDDOWN va) + (va - PGROUNDDOWN va)"
  have "mem_write (k_mem s) ?a (Suc 0) src = (k_mem s)(?a := src 0)"
    by (rule ext) (auto simp: mem_write_def unat_eq_0)
  moreover have "copyout pt x f 0 t = Ok 0 t" for x f t
    by (subst copyout.simps) (simp add: return_apply)
  ultimately show ?thesis
    using copyout_step [of "Suc 0" s pt va "upage (k_mem s) pt (PGROUNDDOWN va)" src] False
    by (simp add: page_part_one uva_def Let_def)
qed

text \<open>The bytes of a list stored to a user range, where the page table maps it in the memory \<open>m\<close>.\<close>

primrec stored :: "memory \<Rightarrow> u64 \<Rightarrow> u64 \<Rightarrow> nat \<Rightarrow> u8 list \<Rightarrow> memory \<Rightarrow> memory" where
  "stored m pt addr i [] mem = mem"
| "stored m pt addr i (c # cs) mem = stored m pt addr (i + 1) cs (mem(the (uva m pt (addr + of_nat i)) := c))"

definition in_range :: "memory \<Rightarrow> u64 \<Rightarrow> u64 \<Rightarrow> nat \<Rightarrow> u64 \<Rightarrow> bool" where
  "in_range m pt addr n x \<longleftrightarrow> (\<exists>i<n. uva m pt (addr + of_nat i) = Some x)"

lemma stored_out:
  assumes "\<not> in_range m pt addr n x" and "i + length cs \<le> n" and "\<And>k. k < n \<Longrightarrow> uva m pt (addr + of_nat k) \<noteq> None"
  shows "stored m pt addr i cs mem x = mem x"
  using assms(2)
proof (induction cs arbitrary: i mem)
  case (Cons c cs)
  then have "x \<noteq> the (uva m pt (addr + of_nat i))"
    using assms(1) assms(3) [of i] by (auto simp: in_range_def)
  then show ?case
    using Cons.IH [of "i + 1"] Cons.prems by simp
qed simp

lemma stored_at:
  assumes "frames_distinct m pt addr n" and "\<And>k. k < n \<Longrightarrow> uva m pt (addr + of_nat k) \<noteq> None"
    and "i + length cs \<le> n" and "j < n"
  shows "stored m pt addr i cs mem (the (uva m pt (addr + of_nat j))) =
    (if i \<le> j \<and> j < i + length cs then cs ! (j - i) else mem (the (uva m pt (addr + of_nat j))))"
  using assms(3)
proof (induction cs arbitrary: i mem)
  case (Cons c cs)
  have "the (uva m pt (addr + of_nat j)) = the (uva m pt (addr + of_nat i)) \<longleftrightarrow> j = i"
    using assms(1,4) assms(2) [of i] assms(2) [of j] Cons.prems unfolding frames_distinct_def
    by (auto dest: option.expand)
  then show ?case
    using Cons.IH [of "i + 1"] Cons.prems by (auto simp: nth_Cons')
qed auto

text \<open>What was stored is what the caller's memory now holds there.\<close>

lemma stored_delivers:
  assumes "pt_private m pt addr k" and "frames_distinct m pt addr k" and "\<And>i. i < k \<Longrightarrow> uva m pt (addr + of_nat i) \<noteq> None" and "length cs = k"
  shows "i < k \<Longrightarrow> ubyte (stored m pt addr 0 cs m) pt (addr + of_nat i) = Some (cs ! i)"
    and "\<not> in_range m pt addr k x \<Longrightarrow> stored m pt addr 0 cs m x = m x"
proof -
  let ?mem = "stored m pt addr 0 cs m"
  show out: "?mem x = m x" if "\<not> in_range m pt addr k x" for x
    using stored_out [OF that, of 0 cs] assms(3,4) by simp
  show "ubyte ?mem pt (addr + of_nat i) = Some (cs ! i)" if i: "i < k"
  proof -
    obtain y where y: "uva m pt (addr + of_nat i) = Some y"
      using assms(3) [OF i] by blast
    have "uva ?mem pt (addr + of_nat i) = Some y"
      using pt_private_same [OF assms(1), of ?mem i] out i y by (auto simp: in_range_def)
    moreover have "?mem y = cs ! i"
      using stored_at [OF assms(2,3), of 0 cs i] assms(4) i y by simp
    ultimately show ?thesis
      by (simp add: ubyte_def)
  qed
qed

lemma piperead_step:
  assumes "0 \<le> i" and "i < n" and "pq.contents (k_pipes s pi) = c # cs"
    and "uva (k_mem s) (p_pagetable (k_procs s pr)) (addr + of_int i) = Some a" and "0 < f"
  shows "loop f (piperead_turn pi pr addr n) i s =
    loop (f - 1) (piperead_turn pi pr addr n) (i + 1) (upd_pipe pi pipe_take (s\<lparr>k_mem := (k_mem s)(a := c)\<rparr>))"
proof -
  let ?q = "k_pipes s pi"
  have "pi_nread ?q \<noteq> pi_nwrite ?q" and head: "pipe_head ?q = c"
    using assms(3) pq.empty_iff [of ?q] pq.contents_take [of ?q] by (auto simp: pipe_head_def unat_mod)
  moreover have "copyout (p_pagetable (k_procs s pr)) (addr + of_int i) (\<lambda>_. pipe_head ?q) 1 (upd_pipe pi pipe_take s) =
      Ok 0 (upd_pipe pi pipe_take (s\<lparr>k_mem := (k_mem s)(a := c)\<rparr>))"
    using assms(4) head copyout_one [of "p_pagetable (k_procs s pr)" "addr + of_int i" _ "upd_pipe pi pipe_take s"]
    by simp (simp add: upd_pipe_def)
  ultimately have "piperead_turn pi pr addr n i s = Ok (Inl (i + 1)) (upd_pipe pi pipe_take (s\<lparr>k_mem := (k_mem s)(a := c)\<rparr>))"
    using assms(2) by (simp add: piperead_turn_def run_simps)
  then show ?thesis
    using assms(5) by (subst loop_unfold) (simp_all add: bind_def)
qed

text \<open>The turns of \<open>piperead\<close> while bytes are left and wanted.\<close>

lemma piperead_takes:
  assumes "pq.contents (k_pipes s pi) = cs @ ds" and "i + length cs \<le> m" and "int m \<le> n" and "length cs < f"
    and "pt = p_pagetable (k_procs s pr)"
    and "\<And>x. \<not> in_range m0 pt addr m x \<Longrightarrow> k_mem s x = m0 x"
    and "pt_private m0 pt addr m" and "\<And>k. k < m \<Longrightarrow> uva m0 pt (addr + of_nat k) \<noteq> None"
  shows "loop f (piperead_turn pi pr addr n) (int i) s =
    loop (f - length cs) (piperead_turn pi pr addr n) (int (i + length cs))
      (upd_pipe pi (pipe_take ^^ length cs) (s\<lparr>k_mem := stored m0 pt addr i cs (k_mem s)\<rparr>))"
  using assms(1-6)
proof (induction cs arbitrary: i s f)
  case Nil
  then show ?case by (simp add: upd_pipe_def)
next
  case (Cons c cs)
  obtain a where a: "uva m0 pt (addr + of_nat i) = Some a"
    using assms(8) [of i] Cons.prems(2) by auto
  have same: "uva (k_mem s) pt (addr + of_nat i) = Some a"
    using pt_private_same [OF assms(7), of "k_mem s" i] Cons.prems(2,6) a by (auto simp: in_range_def)
  let ?s = "upd_pipe pi pipe_take (s\<lparr>k_mem := (k_mem s)(a := c)\<rparr>)"
  have rest: "pq.contents (k_pipes ?s pi) = cs @ ds"
    using pq.contents_take [of "k_pipes s pi"] Cons.prems(1) by simp
  have "in_range m0 pt addr m a"
    using a Cons.prems(2) by (auto simp: in_range_def intro!: exI [of _ i])
  then have out: "k_mem ?s x = m0 x" if "\<not> in_range m0 pt addr m x" for x
    using Cons.prems(6) [OF that] that by auto
  have "loop f (piperead_turn pi pr addr n) (int i) s = loop (f - 1) (piperead_turn pi pr addr n) (int (i + 1)) ?s"
    using piperead_step [of "int i" n s pi c "cs @ ds" pr addr a f] Cons.prems same by (simp add: add.commute)
  also have "\<dots> = loop (f - 1 - length cs) (piperead_turn pi pr addr n) (int (i + 1 + length cs))
      (upd_pipe pi (pipe_take ^^ length cs) (?s\<lparr>k_mem := stored m0 pt addr (i + 1) cs (k_mem ?s)\<rparr>))"
    using Cons.prems by (intro Cons.IH rest out) auto
  finally show ?case
    using a by (simp add: upd_pipe_def funpow_swap1)
qed

lemma piperead_stop:
  assumes "0 < f" and "n \<le> i \<or> pq.contents (k_pipes s pi) = []"
  shows "loop f (piperead_turn pi pr addr n) i s = Ok i s"
proof -
  have "piperead_turn pi pr addr n i s = Ok (Inr i) s"
    using assms(2) pq.empty_iff [of "k_pipes s pi"] by (auto simp: piperead_turn_def run_simps)
  then show ?thesis
    using assms(1) by (subst loop_unfold) (simp_all add: bind_def return_def)
qed

text \<open>A byte that cannot be delivered ends the loop, but it has left the queue.\<close>

lemma piperead_fails:
  assumes "i < n" and "pq.contents (k_pipes s pi) \<noteq> []" and "uva (k_mem s) (p_pagetable (k_procs s pr)) (addr + of_int i) = None" and "0 < f"
  shows "loop f (piperead_turn pi pr addr n) i s = Ok i (upd_pipe pi pipe_take s)"
proof -
  have "copyout (p_pagetable (k_procs s pr)) (addr + of_int i) (\<lambda>_. pipe_head (k_pipes s pi)) 1 (upd_pipe pi pipe_take s) =
      Ok (- 1) (upd_pipe pi pipe_take s)"
    using assms(3) copyout_one [of "p_pagetable (k_procs s pr)" "addr + of_int i" _ "upd_pipe pi pipe_take s"] by simp
  then have "piperead_turn pi pr addr n i s = Ok (Inr i) (upd_pipe pi pipe_take s)"
    using assms(1,2) pq.empty_iff [of "k_pipes s pi"] by (auto simp: piperead_turn_def run_simps)
  then show ?thesis
    using assms(4) by (subst loop_unfold) (simp_all add: bind_def return_def)
qed

lemma off_lock_pipe_read: "off_lock (\<lambda>s. waked ch (upd_pipe pi g (s\<lparr>k_mem := m\<rparr>)))"
  by (simp add: off_lock_def waked_def upd_pipe_def cong: if_cong)

text \<open>How many bytes from \<open>addr\<close> on, out of \<open>m\<close>, the page table maps.\<close>

definition mapped_prefix :: "memory \<Rightarrow> u64 \<Rightarrow> u64 \<Rightarrow> nat \<Rightarrow> nat" where
  "mapped_prefix mem pt addr m = length (takeWhile (\<lambda>i. uva mem pt (addr + of_nat i) \<noteq> None) [0..<m])"

lemma mapped_prefix:
  "mapped_prefix mem pt addr m \<le> m"
  "i < mapped_prefix mem pt addr m \<Longrightarrow> uva mem pt (addr + of_nat i) \<noteq> None"
  "mapped_prefix mem pt addr m < m \<Longrightarrow> uva mem pt (addr + of_nat (mapped_prefix mem pt addr m)) = None"
proof -
  let ?P = "\<lambda>i. uva mem pt (addr + of_nat i) \<noteq> None"
  show le: "mapped_prefix mem pt addr m \<le> m"
    using length_takeWhile_le [of ?P "[0..<m]"] by (simp add: mapped_prefix_def)
  show "?P i" if "i < mapped_prefix mem pt addr m"
    using nth_mem [of i "takeWhile ?P [0..<m]"] set_takeWhileD [of _ ?P "[0..<m]"] takeWhile_nth [of i ?P "[0..<m]"] that le
    by (fastforce simp: mapped_prefix_def)
  show "uva mem pt (addr + of_nat (mapped_prefix mem pt addr m)) = None" if "mapped_prefix mem pt addr m < m"
    using nth_length_takeWhile [of ?P "[0..<m]"] that by (simp add: mapped_prefix_def)
qed

lemma pt_private_less: "pt_private m pt va n \<Longrightarrow> k \<le> n \<Longrightarrow> pt_private m pt va k"
  unfolding pt_private_def by (meson order_less_le_trans)

text \<open>The loop of \<open>piperead\<close>: \<open>m\<close> bytes are wanted and there, the first \<open>k\<close> of them can be stored.\<close>

lemma piperead_loop_runs:
  assumes "pq.ok (k_pipes s pi)" and "0 \<le> n" and "m = min (nat n) (pq.len (k_pipes s pi))" and "pt = p_pagetable (k_procs s p)"
    and "pt_private (k_mem s) pt addr m" and "k = mapped_prefix (k_mem s) pt addr m"
  shows "loop (nat n + 1) (piperead_turn pi p addr n) 0 s = Ok (int k)
    (upd_pipe pi (pipe_take ^^ (if k < m then Suc k else m))
      (s\<lparr>k_mem := stored (k_mem s) pt addr 0 (take k (pq.contents (k_pipes s pi))) (k_mem s)\<rparr>))"
proof -
  let ?cs = "pq.contents (k_pipes s pi)"
  let ?mem = "stored (k_mem s) pt addr 0 (take k ?cs) (k_mem s)"
  let ?u = "upd_pipe pi (pipe_take ^^ k) (s\<lparr>k_mem := ?mem\<rparr>)"
  note map = mapped_prefix [where mem = "k_mem s" and pt = pt and addr = addr and m = m, folded assms(6)]
  have len: "length (take k ?cs) = k"
    using assms(3) map(1) by simp
  have "loop (nat n + 1) (piperead_turn pi p addr n) (int 0) s =
      loop (nat n + 1 - length (take k ?cs)) (piperead_turn pi p addr n) (int (0 + length (take k ?cs)))
        (upd_pipe pi (pipe_take ^^ length (take k ?cs)) (s\<lparr>k_mem := ?mem\<rparr>))"
  proof (rule piperead_takes [where ds = "drop k ?cs" and m = k])
    show "pt_private (k_mem s) pt addr k"
      using assms(5) map(1) by (rule pt_private_less)
  qed (use assms(2-4) map len in auto)
  then have run: "loop (nat n + 1) (piperead_turn pi p addr n) 0 s = loop (nat n + 1 - k) (piperead_turn pi p addr n) (int k) ?u"
    unfolding len by simp
  have rest: "pq.contents (k_pipes ?u pi) = drop k ?cs"
    using pq.contents_takes [OF assms(1), of k] assms(3) map(1) by simp
  show ?thesis
  proof (cases "k < m")
    case True
    have "\<not> in_range (k_mem s) pt addr k x \<Longrightarrow> ?mem x = k_mem s x" for x
      using stored_out [of "k_mem s" pt addr k x 0 "take k ?cs"] len map(2) by simp
    then have "uva ?mem pt (addr + of_nat k) = None"
      using pt_private_same [OF assms(5), of ?mem k] True map(3) by (auto simp: in_range_def)
    moreover have "drop k ?cs \<noteq> []" and "int k < n"
      using True assms(3) by auto
    ultimately have "loop (nat n + 1 - k) (piperead_turn pi p addr n) (int k) ?u = Ok (int k) (upd_pipe pi pipe_take ?u)"
      using rest assms(4) by (intro piperead_fails) auto
    then show ?thesis
      using True run by (simp add: upd_pipe_def)
  next
    case False
    then have "k = m"
      using map(1) by simp
    then have "n \<le> int k \<or> pq.contents (k_pipes ?u pi) = []"
      using rest assms(2,3) by auto
    then have "loop (nat n + 1 - k) (piperead_turn pi p addr n) (int k) ?u = Ok (int k) ?u"
      using assms(3) map(1) by (intro piperead_stop) auto
    then show ?thesis
      using run \<open>k = m\<close> by simp
  qed
qed

text \<open>A read from a pipe that has bytes, or whose writer is gone.\<close>

lemma piperead_apply:
  assumes "quiet p s" and "pq.ok (k_pipes s pi)" and "0 \<le> n"
    and "pq.contents (k_pipes s pi) \<noteq> [] \<or> \<not> pi_writeopen (k_pipes s pi)"
    and "m = min (nat n) (pq.len (k_pipes s pi))" and "pt = p_pagetable (k_procs s p)"
    and "pt_private (k_mem s) pt addr m" and "k = mapped_prefix (k_mem s) pt addr m"
  shows "piperead pi addr n s = Ok (int k) (waked (ChPipeWrite pi) (upd_pipe pi (pipe_take ^^ (if k < m then Suc k else m))
    (s\<lparr>k_mem := stored (k_mem s) pt addr 0 (take k (pq.contents (k_pipes s pi))) (k_mem s)\<rparr>)))"
proof -
  let ?mem = "stored (k_mem s) pt addr 0 (take k (pq.contents (k_pipes s pi))) (k_mem s)"
  let ?l = "locked_state (PipeLock pi) s"
  let ?g = "\<lambda>s. upd_pipe pi (pipe_take ^^ (if k < m then Suc k else m)) (s\<lparr>k_mem := ?mem\<rparr>)"
  have loop: "loop (nat n + 1) (piperead_turn pi p addr n) 0 ?l = Ok (int k) (?g ?l)"
    using piperead_loop_runs [of ?l pi n m pt p addr k] assms(2,3,5-8) by simp
  have "off_lock ?g"
    by (simp add: off_lock_def upd_pipe_def)
  then have "wakeup (ChPipeWrite pi) (?g ?l) = Ok () (waked (ChPipeWrite pi) (?g ?l))"
    using wakeup_quiet_locked [OF assms(1), of "PipeLock pi" ?g] by simp
  moreover have "release (PipeLock pi) (waked (ChPipeWrite pi) (?g ?l)) = Ok () (waked (ChPipeWrite pi) (?g s))"
    by (rule release_quiet [OF assms(1) off_lock_pipe_read])
  ultimately show ?thesis
    using assms(1,4) loop pq.empty_iff [of "k_pipes s pi"]
    by (auto simp: piperead_def piperead_loop_def run_simps myproc_quiet)
qed

lemma piperead_waits:
  assumes "quiet p s" and "c_noff (k_cpus s (k_hart s)) = 0"
    and "pq.contents (k_pipes s pi) = []" and "pi_writeopen (k_pipes s pi)"
  shows "piperead pi addr n s = (if p_killed (k_procs s p) then Ok (- 1) s
    else Switch (asleep p (ChPipeRead pi) (PipeLock pi) (locked_state (PipeLock pi) s)))"
proof -
  let ?t = "locked_state (PipeLock pi) s"
  have "(sleep (ChPipeRead pi) (PipeLock pi) :: int k) ?t = Switch (asleep p (ChPipeRead pi) (PipeLock pi) ?t)"
    using assms(1,2)
    by (intro sleep_apply) (simp_all add: quietD, simp_all add: locked_state_def irq_pushed_def upd_defs running_def quiet_def lock_held_def)
  then show ?thesis
    using assms pq.empty_iff [of "k_pipes s pi"]
    by (simp add: piperead_def piperead_loop_def run_simps myproc_quiet myproc_quiet_locked quietD)
qed

section \<open>Properties\<close>

text \<open>C16 (pipes are queues). \<open>pipewrite\<close> appends the caller's bytes, up to the first that is not
  mapped, to the queue and returns \<open>n\<close>, if the queue has room for them; otherwise it fills the
  queue and then returns -1 if the reader is gone or the caller was killed, and else sleeps
  until there is room. The queue never holds
  more than \<open>PIPESIZE\<close> bytes, also when the counters wrap around.\<close>

theorem pipewrite_appends:
  fixes s :: kstate and pi addr :: u64 and n :: int
  defines "q \<equiv> k_pipes s pi"
  assumes "quiet p s" and "c_noff (k_cpus s (k_hart s)) = 0" and "0 \<le> n" and "pq.ok (k_pipes s pi)"
    and "cs = user_prefix (k_mem s) (p_pagetable (k_procs s p)) addr (nat n)"
    and "free = PIPESIZE - length (pq.contents (k_pipes s pi))"
    and "fits \<longleftrightarrow> length cs < free \<or> length cs = nat n \<and> length cs \<le> free"
  shows "case pipewrite pi addr n s of
      Ok r t \<Rightarrow> k_mem t = k_mem s \<and> pq.ok (k_pipes t pi) \<and>
        (if fits then r = n \<and> pq.contents (k_pipes t pi) = pq.contents q @ cs
         else r = - 1 \<and> pq.contents (k_pipes t pi) = pq.contents q @ take free cs \<and> (\<not> pi_readopen q \<or> p_killed (k_procs s p)))
    | Switch t \<Rightarrow> \<not> fits \<and> pq.contents (k_pipes t pi) = pq.contents q @ take free cs \<and> length (pq.contents (k_pipes t pi)) = PIPESIZE \<and>
        p_state (k_procs t p) = SLEEPING \<and> p_chan (k_procs t p) = Some (ChPipeWrite pi)
    | _ \<Rightarrow> False"
proof (cases fits)
  case True
  then have "pq.len (k_pipes s pi) + length cs < PIPESIZE \<or> length cs = nat n \<and> pq.len (k_pipes s pi) + length cs \<le> PIPESIZE"
    using assms(5,7,8) by (auto simp: pq.ok_def)
  moreover from this have "pq.len (k_pipes s pi) + length cs \<le> PIPESIZE" by auto
  ultimately show ?thesis
    using True pipewrite_fits [OF assms(2,6,4)] pq.contents_puts [of "k_pipes s pi" cs] by (simp add: q_def)
next
  case False
  then have m: "free \<le> length cs" "free < nat n" and len: "pq.len (k_pipes s pi) + free = PIPESIZE"
    using assms(5,7,8) user_prefix_length [of "k_mem s" "p_pagetable (k_procs s p)" addr "nat n", folded assms(6)]
    by (auto simp: pq.ok_def)
  have free: "free = PIPESIZE - pq.len (k_pipes s pi)"
    by (simp add: assms(7))
  have "pq.contents (fold pipe_put (take free cs) q) = pq.contents q @ take free cs \<and> pq.ok (fold pipe_put (take free cs) q)"
    using pq.contents_puts [of q "take free cs"] len m by (simp add: q_def)
  moreover have "k_pipes (asleep p ch lk t) = k_pipes t" "p_state (k_procs (asleep p ch lk t) p) = SLEEPING"
      "p_chan (k_procs (asleep p ch lk t) p) = Some ch" for ch lk t
    by (simp_all add: asleep_def upd_defs)
  ultimately show ?thesis
    using False len m pipewrite_blocks [OF assms(2,3,6,4) free assms(5) m]
    by (simp add: q_def) 
qed

definition demo_pipe :: "pipe \<Rightarrow> kstate" where
  "demo_pipe q = (upd_proc 2 (\<lambda>p. p\<lparr>p_pagetable := 0x80040000\<rparr>) demo_running)\<lparr>k_mem := k_mem demo_user, k_pipes := (\<lambda>_. q)\<rparr>"

lemma demo_pipe_fields:
  "quiet 2 (demo_pipe q)" "c_noff (k_cpus (demo_pipe q) (k_hart (demo_pipe q))) = 0" "k_pipes (demo_pipe q) a = q"
  "k_mem (demo_pipe q) = k_mem demo_user" "p_pagetable (k_procs (demo_pipe q) 2) = 0x80040000"
  by (simp_all add: demo_pipe_def quiet_def calm_def running_def lock_free_def demo_running_def zero_state_def upd_proc_def)

text \<open>The counters are about to wrap around.\<close>

theorem pipewrite_appends_witness:
  "\<exists>t. pipewrite 7 0 2 (demo_pipe \<lparr>pi_data = (\<lambda>_. 0), pi_nread = 0xFFFFFFFF, pi_nwrite = 0xFFFFFFFF,
      pi_readopen = True, pi_writeopen = True\<rparr>) = Ok 2 t \<and> pq.contents (k_pipes t 7) = [104, 105]"
proof -
  let ?q = "\<lparr>pi_data = (\<lambda>_. 0), pi_nread = 0xFFFFFFFF, pi_nwrite = 0xFFFFFFFF, pi_readopen = True, pi_writeopen = True\<rparr> :: pipe"
  let ?s = "demo_pipe ?q"
  have empty: "pq.contents ?q = []" and ok: "pq.ok (k_pipes ?s 7)"
    by (simp_all add: pq.contents_def pq.ok_def pq.len_def demo_pipe_fields)
  have cs: "user_prefix (k_mem demo_user) 0x80040000 0 2 = [104, 105]"
    using demo_user_bytes [of 0] demo_user_bytes [of 1] by (simp add: user_prefix_def upt_rec)
  show ?thesis
    using pipewrite_appends [OF demo_pipe_fields(1,2) _ ok refl refl refl, of 2 0]
    by (cases "pipewrite 7 0 2 ?s") (simp_all add: demo_pipe_fields empty cs)
qed

text \<open>C17. \<open>piperead\<close>, of a process whose page table is not itself mapped into the destination and
  maps its bytes to distinct addresses, delivers the oldest bytes of the queue to the caller's
  memory in their order, as many as there are, as were asked for, and as the destination is
  mapped for, and returns their number; it changes no other byte of memory and wakes up exactly
  the writers sleeping on this pipe. It removes from the queue what it delivered and, when it
  stopped at a byte whose destination is not mapped, that byte as well, which is lost. On an
  empty queue it returns 0 if the writer is gone, -1 if the caller was killed, and sleeps
  otherwise.\<close>

theorem piperead_delivers:
  fixes s :: kstate and pi addr :: u64 and n :: int and p :: nat
  defines "q \<equiv> k_pipes s pi" and "pt \<equiv> p_pagetable (k_procs s p)"
  assumes "quiet p s" and "c_noff (k_cpus s (k_hart s)) = 0" and "0 \<le> n" and "pq.ok (k_pipes s pi)"
    and "m = min (nat n) (length (pq.contents (k_pipes s pi)))"
    and "k = mapped_prefix (k_mem s) (p_pagetable (k_procs s p)) addr m"
    and "pt_private (k_mem s) (p_pagetable (k_procs s p)) addr m" and "frames_distinct (k_mem s) (p_pagetable (k_procs s p)) addr k"
  shows "case piperead pi addr n s of
      Ok r t \<Rightarrow>
        if pq.contents q = [] \<and> pi_writeopen q then r = - 1 \<and> t = s \<and> p_killed (k_procs s p)
        else r = int k \<and> pq.contents (k_pipes t pi) = drop (if k < m then k + 1 else k) (pq.contents q) \<and>
          (\<forall>i<k. ubyte (k_mem t) pt (addr + of_nat i) = Some (pq.contents q ! i)) \<and>
          (\<forall>x. \<not> in_range (k_mem s) pt addr k x \<longrightarrow> k_mem t x = k_mem s x) \<and>
          (\<forall>j<NPROC. k_procs t j = (let w = k_procs s j in
             if p_state w = SLEEPING \<and> p_chan w = Some (ChPipeWrite pi) then w\<lparr>p_state := RUNNABLE\<rparr> else w))
    | Switch t \<Rightarrow> pq.contents q = [] \<and> pi_writeopen q \<and> \<not> p_killed (k_procs s p) \<and>
        p_state (k_procs t p) = SLEEPING \<and> p_chan (k_procs t p) = Some (ChPipeRead pi)
    | _ \<Rightarrow> False"
proof (cases "pq.contents q = [] \<and> pi_writeopen q")
  case True
  have "p_state (k_procs (asleep p ch lk t) p) = SLEEPING" "p_chan (k_procs (asleep p ch lk t) p) = Some ch" for ch lk t
    by (simp_all add: asleep_def upd_defs)
  then show ?thesis
    using True piperead_waits [OF assms(3,4)] by (simp add: q_def)
next
  case False
  let ?cs = "take k (pq.contents q)"
  let ?mem = "stored (k_mem s) pt addr 0 ?cs (k_mem s)"
  let ?j = "if k < m then Suc k else m"
  note map = mapped_prefix [where mem = "k_mem s" and pt = pt and addr = addr and m = m, folded assms(8) [folded pt_def]]
  have run: "piperead pi addr n s = Ok (int k) (waked (ChPipeWrite pi) (upd_pipe pi (pipe_take ^^ ?j) (s\<lparr>k_mem := ?mem\<rparr>)))"
    using piperead_apply [OF assms(3,6,5)] False assms(7-9) by (simp add: q_def pt_def)
  have len: "length ?cs = k"
    using assms(7) map(1) by (simp add: q_def)
  have "?j \<le> length (pq.contents q)" "?j = (if k < m then k + 1 else k)"
    using assms(7) map(1) by (auto simp: q_def)
  then have rest: "pq.contents ((pipe_take ^^ ?j) q) = drop (if k < m then k + 1 else k) (pq.contents q)"
    using pq.contents_takes [OF assms(6), of ?j] by (simp add: q_def)
  have bytes: "\<forall>i<k. ubyte ?mem pt (addr + of_nat i) = Some (pq.contents q ! i)" "\<forall>x. \<not> in_range (k_mem s) pt addr k x \<longrightarrow> ?mem x = k_mem s x"
    using stored_delivers [OF pt_private_less [OF assms(9)] assms(10), folded pt_def, of ?cs] map len by auto
  show ?thesis
    using False rest bytes unfolding run by (auto simp: q_def upd_pipe_def waked_def woken_def Let_def)
qed

theorem piperead_delivers_witness:
  "\<exists>t. piperead 7 0 5 (demo_pipe \<lparr>pi_data = (\<lambda>i. if i = 511 then 5 else 6), pi_nread = 0xFFFFFFFF, pi_nwrite = 1,
      pi_readopen = True, pi_writeopen = True\<rparr>) = Ok 2 t \<and> pq.contents (k_pipes t 7) = [] \<and>
      ubyte (k_mem t) 0x80040000 0 = Some 5 \<and> ubyte (k_mem t) 0x80040000 1 = Some 6"
proof -
  let ?q = "\<lparr>pi_data = (\<lambda>i. if i = 511 then 5 else 6), pi_nread = 0xFFFFFFFF, pi_nwrite = 1, pi_readopen = True, pi_writeopen = True\<rparr> :: pipe"
  let ?s = "demo_pipe ?q"
  have cs: "pq.contents ?q = [5, 6]"
    by (simp add: pq.contents_def pq.len_def upt_rec)
  have ok: "pq.ok (k_pipes ?s 7)"
    by (simp add: pq.ok_def pq.len_def demo_pipe_fields)
  have m: "2 = min (nat 5) (length (pq.contents (k_pipes ?s 7)))"
    by (simp add: demo_pipe_fields cs)
  have user: "pt_private (k_mem ?s) (p_pagetable (k_procs ?s 2)) 0 2" "frames_distinct (k_mem ?s) (p_pagetable (k_procs ?s 2)) 0 2"
    by (simp_all add: demo_pipe_fields demo_user_private demo_user_distinct)
  have k: "2 = mapped_prefix (k_mem ?s) (p_pagetable (k_procs ?s 2)) 0 2"
    using demo_user_uva [of 0] demo_user_uva [of 1] by (simp add: mapped_prefix_def demo_pipe_fields upt_rec)
  show ?thesis
    using piperead_delivers [OF demo_pipe_fields(1,2) _ ok m k user]
    by (cases "piperead 7 0 5 ?s") (auto simp: demo_pipe_fields cs less_2_cases_iff all_conj_distrib)
qed

end
