(* ===== verification/Xv6_Console.thy ===== *)
theory Xv6_Console
  imports Xv6_Pipe
begin

text \<open>
  \<open>kernel/console.c\<close> and the interrupt half of \<open>kernel/uart.c\<close>: the \<open>NCONS\<close> consoles, one of
  which is active. Each has a ring of \<open>INPUT_BUF\<close> characters with a read, a write and an edit
  index, all 32-bit counters that wrap around. \<open>k_consoles\<close> has an element for every index:
  from \<open>NCONS\<close> on they stand for the memory behind the array.
\<close>

section \<open>Definitions\<close>

abbreviation INPUT_BUF :: nat where "INPUT_BUF \<equiv> 128"

definition upd_cons :: "nat \<Rightarrow> (input \<Rightarrow> input) \<Rightarrow> kstate \<Rightarrow> kstate" where
  "upd_cons i f s = s\<lparr>k_consoles := (k_consoles s)(i := f (k_consoles s i))\<rparr>"

definition active_cons :: "nat k" where
  "active_cons = gets (\<lambda>s. nat (k_active s - 1))"

definition consolewrite :: "int \<Rightarrow> place \<Rightarrow> int \<Rightarrow> int k" where
  "consolewrite major src n =
     bind active_cons (\<lambda>cons.
     seq (acquire (ConsLock cons)) (
     seq (loop (nat n + 1) (\<lambda>i.
       if i < n then
         bind (either_copyin (\<lambda>_. 0) (place_add src (nat i)) 1) (\<lambda>(r, c).
         if r = - 1 then return (Inr ())
         else
           bind (gets k_active) (\<lambda>active.
           seq (do_when (major = active) (consputc (unat (c 0)))) (return (Inl (i + 1)))))
       else return (Inr ())) 0) (
     seq (release (ConsLock cons)) (return n))))"

text \<open>Taking the next character out of the ring, and putting it back.\<close>

definition cons_get :: "input \<Rightarrow> u8" where
  "cons_get c = in_buf c (unat (in_r c mod of_nat INPUT_BUF))"

definition consoleread_turn :: "nat \<Rightarrow> int \<Rightarrow> place \<times> int \<Rightarrow> ((place \<times> int) + int) k" where
  "consoleread_turn cons target st =
     (case st of (dst, n) \<Rightarrow>
      if n > 0 then
        bind (gets (\<lambda>s. k_consoles s cons)) (\<lambda>q.
        if in_r q = in_w q then
          bind myproc (\<lambda>pp. bind (deref pp) (\<lambda>p.
          bind (gets (\<lambda>s. p_killed (k_procs s p))) (\<lambda>killed.
          if killed then seq (release (ConsLock cons)) (return (Inr (- 1)))
          else sleep (ChCons cons) (ConsLock cons))))
        else
          let c = cons_get q in
          seq (modify (upd_cons cons (\<lambda>q. q\<lparr>in_r := in_r q + 1\<rparr>))) (
          if c = 4 then
            seq (do_when (n < target) (modify (upd_cons cons (\<lambda>q. q\<lparr>in_r := in_r q - 1\<rparr>)))) (
            seq (release (ConsLock cons)) (return (Inr (target - n))))
          else
            bind (either_copyout dst (\<lambda>_. c) 1) (\<lambda>r.
            if r = - 1 then seq (release (ConsLock cons)) (return (Inr (target - n)))
            else if c = 10 then seq (release (ConsLock cons)) (return (Inr (target - (n - 1))))
            else return (Inl (place_add dst 1, n - 1)))))
      else seq (release (ConsLock cons)) (return (Inr (target - n))))"

definition consoleread_loop :: "nat \<Rightarrow> int \<Rightarrow> place \<Rightarrow> int \<Rightarrow> int k" where
  "consoleread_loop cons target dst n = loop (nat n + 1) (consoleread_turn cons target) (dst, n)"

definition consoleread :: "int \<Rightarrow> place \<Rightarrow> int \<Rightarrow> int k" where
  "consoleread major dst n =
     seq (acquire (ConsLock (nat (major - 1))))
     (consoleread_loop (nat (major - 1)) n dst n)"

definition consoleread_wake :: "nat \<Rightarrow> nat \<Rightarrow> bool \<Rightarrow> int \<Rightarrow> place \<Rightarrow> int \<Rightarrow> int k" where
  "consoleread_wake cons p intena target dst n =
     seq (sleep_return p (ConsLock cons) intena) (consoleread_loop cons target dst n)"

text \<open>The process listing that control-p prints.\<close>

definition state_name :: "procstate \<Rightarrow> string" where
  "state_name st = (case st of UNUSED \<Rightarrow> ''unused'' | SLEEPING \<Rightarrow> ''sleep '' | RUNNABLE \<Rightarrow> ''runble''
     | RUNNING \<Rightarrow> ''run   '' | ZOMBIE \<Rightarrow> ''zombie'' | SUSPENDED \<Rightarrow> ''suspended'')"

definition procdump :: "unit k" where
  "procdump =
     seq (printf (Some ''\<newline>'') [])
     (for_each [0..<NPROC] (\<lambda>p.
       bind (gets (\<lambda>s. k_procs s p)) (\<lambda>q.
       do_when (p_state q \<noteq> UNUSED) (
         seq (printf (Some ''%d %s %s'') [VInt (of_int (p_pid q)),
           VStr (Some (map of_char (state_name (p_state q)))), VStr (Some (cstr 16 (p_name q)))])
         (printf (Some ''\<newline>'') [])))))"

text \<open>The line editing of \<open>consoleintr\<close>: control-u, backspace, and any other character.\<close>

definition cons_kill :: "nat \<Rightarrow> unit k" where
  "cons_kill cons =
     loop (2 ^ 32 + 1) (\<lambda>_.
       bind (gets (\<lambda>s. k_consoles s cons)) (\<lambda>q.
       if in_e q \<noteq> in_w q \<and> in_buf q (unat ((in_e q - 1) mod of_nat INPUT_BUF)) \<noteq> 10 then
         seq (modify (upd_cons cons (\<lambda>q. q\<lparr>in_e := in_e q - 1\<rparr>))) (
         seq (consputc BACKSPACE) (return (Inl ())))
       else return (Inr ()))) ()"

definition cons_backspace :: "nat \<Rightarrow> unit k" where
  "cons_backspace cons =
     bind (gets (\<lambda>s. k_consoles s cons)) (\<lambda>q.
     do_when (in_e q \<noteq> in_w q) (
       seq (modify (upd_cons cons (\<lambda>q. q\<lparr>in_e := in_e q - 1\<rparr>))) (consputc BACKSPACE)))"

definition cons_put :: "u8 \<Rightarrow> input \<Rightarrow> input" where
  "cons_put c q = q\<lparr>in_buf := (in_buf q)(unat (in_e q mod of_nat INPUT_BUF) := c), in_e := in_e q + 1\<rparr>"

definition cons_input :: "nat \<Rightarrow> nat \<Rightarrow> unit k" where
  "cons_input cons c0 =
     bind (gets (\<lambda>s. k_consoles s cons)) (\<lambda>q.
     do_when (c0 \<noteq> 0 \<and> in_e q - in_r q < of_nat INPUT_BUF) (
       let c = (if c0 = 13 then 10 else c0) in
       seq (consputc c) (
       seq (modify (upd_cons cons (cons_put (of_nat c)))) (
       bind (gets (\<lambda>s. k_consoles s cons)) (\<lambda>q.
       do_when (c = 10 \<or> c = 4 \<or> in_e q = in_r q + of_nat INPUT_BUF) (
         seq (modify (upd_cons cons (\<lambda>q. q\<lparr>in_w := in_e q\<rparr>))) (wakeup (ChCons cons))))))))"

definition consoleintr :: "nat \<Rightarrow> unit k" where
  "consoleintr c =
     bind active_cons (\<lambda>cons.
     seq (acquire (ConsLock cons)) (
     seq (if c = 16 then procdump
          else if c = 21 then cons_kill cons
          else if c = 8 \<or> c = 127 then cons_backspace cons
          else if c = 20 then return ()
          else cons_input cons c) (
     seq (release (ConsLock cons)) (
     do_when (c = 20) (
       seq (modify (\<lambda>s. s\<lparr>k_active := k_active s mod (int NCONS + 1) + 1\<rparr>)) (
       bind (gets k_active) (\<lambda>active.
       printf (Some ''\<newline>Active console now: %d\<newline>'') [VInt (of_int active)])))))))"

text \<open>Every turn takes a character the receiver has waiting.\<close>

definition uartintr :: "unit k" where
  "uartintr =
     bind (gets (\<lambda>s. length (k_uart_in s))) (\<lambda>n.
     loop (n + 1) (\<lambda>_.
       bind uartgetc (\<lambda>c.
       if c = - 1 then return (Inr ())
       else seq (consoleintr (nat c)) (return (Inl ())))) ())"

text \<open>The registers of the UART at \<open>UART0\<close>, with the offsets of \<open>uart.c\<close>.\<close>

definition write_reg :: "u64 \<Rightarrow> u32 \<Rightarrow> unit k" where
  "write_reg a v = modify (\<lambda>s. s\<lparr>k_mmio := (k_mmio s)(a := v)\<rparr>)"

abbreviation UART0 :: u64 where "UART0 \<equiv> 0x10000000"

definition uartinit :: "unit k" where
  "uartinit = block [
     write_reg (UART0 + 1) 0,
     write_reg (UART0 + 3) 0x80,
     write_reg UART0 3,
     write_reg (UART0 + 1) 0,
     write_reg (UART0 + 3) 3,
     write_reg (UART0 + 2) 7,
     write_reg (UART0 + 1) 1]"

text \<open>\<open>junk\<close> is what the uninitialised local \<open>cons\<close> of \<open>consoleinit\<close> has in its buffer.\<close>

definition consoleinit :: "bytes \<Rightarrow> unit k" where
  "consoleinit junk =
     seq (for_each [0..<NCONS] (\<lambda>i. block [
       initlock (ConsLock i) ''cons1'',
       modify (upd_cons i (\<lambda>_. \<lparr>in_buf = junk, in_r = 0, in_w = 0, in_e = 0\<rparr>)),
       modify (\<lambda>s. s\<lparr>k_devsw := (k_devsw s)(i + 1 := True)\<rparr>)]))
     uartinit"

section \<open>The line editor\<close>

definition cons_drop :: "input \<Rightarrow> input" where
  "cons_drop q = q\<lparr>in_r := in_r q + 1\<rparr>"

interpretation cq: ring_queue in_r in_e in_buf INPUT_BUF cons_put cons_drop
  by unfold_locales (simp_all add: cons_put_def cons_drop_def unat_mod)

text \<open>
  A console holds the characters that readers may take and the line still being edited,
  which has no newline.
\<close>

definition cons_done :: "input \<Rightarrow> nat" where
  "cons_done q = unat (in_w q - in_r q)"

definition cons_view :: "input \<Rightarrow> u8 list \<times> u8 list" where
  "cons_view q = (take (cons_done q) (cq.contents q), drop (cons_done q) (cq.contents q))"

definition cons_ok :: "input \<Rightarrow> bool" where
  "cons_ok q \<longleftrightarrow> cons_done q \<le> cq.len q \<and> cq.len q \<le> INPUT_BUF \<and> 10 \<notin> set (snd (cons_view q))"

text \<open>The effect of a key on the two lists.\<close>

definition edit :: "nat \<Rightarrow> u8 list \<times> u8 list \<Rightarrow> u8 list \<times> u8 list" where
  "edit c v = (case v of (ready, line) \<Rightarrow>
     if c = 21 then (ready, [])
     else if c = 8 \<or> c = 127 then (ready, butlast line)
     else if c = 16 \<or> c = 20 \<or> c = 0 \<or> length ready + length line \<ge> INPUT_BUF then (ready, line)
     else let d = (if c = 13 then 10 else c) in
       if d = 10 \<or> d = 4 \<or> length ready + length line + 1 = INPUT_BUF then (ready @ line @ [of_nat d], [])
       else (ready, line @ [of_nat d]))"

lemma view_lengths: "cons_ok q \<Longrightarrow> length (fst (cons_view q)) = cons_done q \<and> length (snd (cons_view q)) = cq.len q - cons_done q"
  by (auto simp: cons_view_def cons_ok_def)

lemma done_eq: "cons_ok q \<Longrightarrow> in_e q = in_w q \<longleftrightarrow> cons_done q = cq.len q"
  by (auto simp: cons_done_def cq.len_def word_unat_eq_iff [symmetric])

text \<open>Putting a character, taking back the last one, and handing over the line.\<close>

lemma put_view:
  assumes "cons_ok q" and "cq.len q < INPUT_BUF"
  shows "cons_view (cons_put c q) = (fst (cons_view q), snd (cons_view q) @ [c])"
    and "c \<noteq> 10 \<Longrightarrow> cons_ok (cons_put c q)" and "cq.len (cons_put c q) = cq.len q + 1"
proof -
  have "cons_done (cons_put c q) = cons_done q"
    by (simp add: cons_done_def cons_put_def)
  then show view: "cons_view (cons_put c q) = (fst (cons_view q), snd (cons_view q) @ [c])"
    using assms by (simp add: cons_view_def cq.contents_put cons_ok_def)
  show len: "cq.len (cons_put c q) = cq.len q + 1"
    by (rule cq.len_put [OF assms(2)])
  show "cons_ok (cons_put c q)" if "c \<noteq> 10"
    using assms that \<open>cons_done (cons_put c q) = cons_done q\<close> by (auto simp: cons_ok_def view len)
qed

lemma back_view:
  assumes "cons_ok q" and "in_e q \<noteq> in_w q"
  defines "q' \<equiv> q\<lparr>in_e := in_e q - 1\<rparr>"
  shows "cons_view q' = (fst (cons_view q), butlast (snd (cons_view q)))" and "cons_ok q'"
    and "cq.len q' = cq.len q - 1" and "in_buf q (unat ((in_e q - 1) mod of_nat INPUT_BUF)) = last (snd (cons_view q))"
    and "snd (cons_view q) \<noteq> []"
proof -
  have less: "cons_done q < cq.len q"
    using assms(1,2) done_eq by (fastforce simp: cons_ok_def)
  then have "in_e q - in_r q \<noteq> 0"
    by (auto simp: cq.len_def)
  then show len: "cq.len q' = cq.len q - 1"
    by (simp add: cq.len_def q'_def unat_minus_one diff_right_commute [of _ 1])
  have "[0..<cq.len q] = [0..<cq.len q - 1] @ [cq.len q - 1]"
    using less by (metis Suc_diff_1 less_nat_zero_code neq0_conv upt_Suc_append le0)
  then have contents: "cq.contents q = cq.contents q' @ [in_buf q ((unat (in_r q) + (cq.len q - 1)) mod INPUT_BUF)]"
    unfolding cq.contents_def len by (simp add: q'_def)
  have "(unat (in_r q) + (cq.len q - 1)) mod INPUT_BUF = unat ((in_e q - 1) mod of_nat INPUT_BUF)"
    using cq.write_index [of q'] len by (simp add: q'_def unat_mod)
  then have contents': "cq.contents q = cq.contents q' @ [in_buf q (unat ((in_e q - 1) mod of_nat INPUT_BUF))]"
    using contents by simp
  have same: "cons_done q' = cons_done q"
    by (simp add: cons_done_def q'_def)
  show "snd (cons_view q) \<noteq> []" and "in_buf q (unat ((in_e q - 1) mod of_nat INPUT_BUF)) = last (snd (cons_view q))"
    using less len by (simp_all add: cons_view_def) (simp add: contents')
  show view: "cons_view q' = (fst (cons_view q), butlast (snd (cons_view q)))"
    using less len by (simp add: cons_view_def same contents' butlast_append)
  show "cons_ok q'"
    using assms(1) less len by (auto simp: cons_ok_def view same dest: in_set_butlastD)
qed

lemma commit_view:
  assumes "cons_done q \<le> cq.len q" and "cq.len q \<le> INPUT_BUF"
  shows "cons_view (q\<lparr>in_w := in_e q\<rparr>) = (fst (cons_view q) @ snd (cons_view q), [])" and "cons_ok (q\<lparr>in_w := in_e q\<rparr>)"
proof -
  have "cq.contents (q\<lparr>in_w := in_e q\<rparr>) = cq.contents q" "cq.len (q\<lparr>in_w := in_e q\<rparr>) = cq.len q"
    "cons_done (q\<lparr>in_w := in_e q\<rparr>) = cq.len q"
    by (simp_all add: cq.contents_def cq.len_def cons_done_def)
  then show "cons_view (q\<lparr>in_w := in_e q\<rparr>) = (fst (cons_view q) @ snd (cons_view q), [])" and "cons_ok (q\<lparr>in_w := in_e q\<rparr>)"
    using assms by (simp_all add: cons_view_def cons_ok_def)
qed

text \<open>The part of the state that the actions of \<open>consoleintr\<close> leave alone.\<close>

definition same_env :: "kstate \<Rightarrow> kstate \<Rightarrow> bool" where
  "same_env s t \<longleftrightarrow> k_hart t = k_hart s \<and> k_cpus t = k_cpus s \<and> k_locks t = k_locks s \<and> k_panicked t = k_panicked s \<and>
     k_active t = k_active s"

text \<open>An action turns console \<open>i\<close> into one that satisfies \<open>P\<close> and keeps the others.\<close>

definition edits :: "nat \<Rightarrow> (input \<Rightarrow> bool) \<Rightarrow> unit k \<Rightarrow> kstate \<Rightarrow> bool" where
  "edits i P m s \<longleftrightarrow> (\<exists>t. m s = Ok () t \<and> same_env s t \<and> P (k_consoles t i) \<and> (\<forall>j. j \<noteq> i \<longrightarrow> k_consoles t j = k_consoles s j))"

lemma consputc_env: "\<not> k_panicked s \<Longrightarrow> \<exists>out. consputc c s = Ok () (s\<lparr>k_uart := k_uart s @ out\<rparr>)"
  using prints_consputc by (simp add: prints_def)

lemma upd_cons_fields [simp]:
  "k_consoles (upd_cons i f s) = (k_consoles s)(i := f (k_consoles s i))" "k_panicked (upd_cons i f s) = k_panicked s"
  "k_uart (upd_cons i f s) = k_uart s" "k_hart (upd_cons i f s) = k_hart s" "k_cpus (upd_cons i f s) = k_cpus s"
  "k_locks (upd_cons i f s) = k_locks s" "k_active (upd_cons i f s) = k_active s" "k_procs (upd_cons i f s) = k_procs s"
  by (simp_all add: upd_cons_def)

lemma cons_kill_runs:
  assumes "cons_ok (k_consoles s i)" and "\<not> k_panicked s" and "cq.len (k_consoles s i) < f"
  shows "edits i (\<lambda>q. cons_ok q \<and> cons_view q = (fst (cons_view (k_consoles s i)), []))
    (loop f (\<lambda>_.
       bind (gets (\<lambda>s. k_consoles s i)) (\<lambda>q.
       if in_e q \<noteq> in_w q \<and> in_buf q (unat ((in_e q - 1) mod of_nat INPUT_BUF)) \<noteq> 10 then
         seq (modify (upd_cons i (\<lambda>q. q\<lparr>in_e := in_e q - 1\<rparr>))) (
         seq (consputc BACKSPACE) (return (Inl ())))
       else return (Inr ()))) ()) s"
  using assms
proof (induction f arbitrary: s)
  case 0
  then show ?case by simp
next
  case (Suc f)
  let ?q = "k_consoles s i"
  show ?case
  proof (cases "in_e ?q = in_w ?q")
    case True
    then have "cons_view ?q = (fst (cons_view ?q), [])"
      using Suc.prems(1) done_eq by (simp add: cons_view_def cons_ok_def)
    then show ?thesis
      using True Suc.prems(1) unfolding edits_def
      by (subst loop_unfold) (simp_all add: run_simps same_env_def)
  next
    case False
    note bk = back_view [OF Suc.prems(1) False]
    let ?s = "upd_cons i (\<lambda>q. q\<lparr>in_e := in_e q - 1\<rparr>) s"
    obtain out where out: "consputc BACKSPACE ?s = Ok () (?s\<lparr>k_uart := k_uart ?s @ out\<rparr>)"
      using consputc_env [of ?s] Suc.prems(2) by auto
    let ?t = "?s\<lparr>k_uart := k_uart ?s @ out\<rparr>"
    have ne: "in_buf ?q (unat ((in_e ?q - 1) mod of_nat INPUT_BUF)) \<noteq> 10"
      using bk(4,5) Suc.prems(1) by (metis cons_ok_def last_in_set)
    have "0 < cq.len ?q"
      using bk(5) by (auto simp: cons_view_def)
    then have "cq.len (k_consoles ?t i) < f"
      using bk(3) Suc.prems(3) by simp
    then have "edits i (\<lambda>q. cons_ok q \<and> cons_view q = (fst (cons_view (k_consoles ?t i)), []))
      (loop f (\<lambda>_.
       bind (gets (\<lambda>s. k_consoles s i)) (\<lambda>q.
       if in_e q \<noteq> in_w q \<and> in_buf q (unat ((in_e q - 1) mod of_nat INPUT_BUF)) \<noteq> 10 then
         seq (modify (upd_cons i (\<lambda>q. q\<lparr>in_e := in_e q - 1\<rparr>))) (
         seq (consputc BACKSPACE) (return (Inl ())))
       else return (Inr ()))) ()) ?t"
      using bk(2) Suc.prems(2) by (intro Suc.IH) simp_all
    then show ?thesis
      using bk(1) False ne out unfolding edits_def
      by (subst loop_unfold) (auto simp: run_simps same_env_def)
  qed
qed

lemma cons_backspace_runs:
  assumes "cons_ok (k_consoles s i)" and "\<not> k_panicked s"
  shows "edits i (\<lambda>q. cons_ok q \<and> cons_view q = (fst (cons_view (k_consoles s i)), butlast (snd (cons_view (k_consoles s i)))))
    (cons_backspace i) s"
proof (cases "in_e (k_consoles s i) = in_w (k_consoles s i)")
  case True
  then have "snd (cons_view (k_consoles s i)) = []"
    using assms(1) done_eq by (simp add: cons_view_def cons_ok_def)
  then show ?thesis
    using True assms(1) by (auto simp: edits_def cons_backspace_def run_simps same_env_def prod_eq_iff)
next
  case False
  let ?s = "upd_cons i (\<lambda>q. q\<lparr>in_e := in_e q - 1\<rparr>) s"
  obtain out where "consputc BACKSPACE ?s = Ok () (?s\<lparr>k_uart := k_uart ?s @ out\<rparr>)"
    using consputc_env [of ?s] assms(2) by auto
  then show ?thesis
    using False back_view [OF assms(1) False] by (simp add: edits_def cons_backspace_def run_simps same_env_def)
qed

lemma wakeup_env:
  assumes "calm s" and "\<And>q. lock_free (ProcLock q) s"
  shows "\<exists>ps. wakeup ch s = Ok () (s\<lparr>k_procs := ps\<rparr>)"
  using wakeup_apply [OF assms] by blast

lemma byte_newline: "c < 256 \<Longrightarrow> (of_nat c :: u8) = 10 \<longleftrightarrow> c = 10"
  by (simp add: word_unat_eq_iff unat_of_nat)

lemma cons_input_runs:
  assumes "cons_ok (k_consoles s i)" and "\<not> k_panicked s" and "calm s" and "\<And>q. lock_free (ProcLock q) s" and "c < 256"
    and "c \<notin> {21, 8, 127, 16, 20}"
  shows "edits i (\<lambda>q. cons_ok q \<and> cons_view q = edit c (cons_view (k_consoles s i))) (cons_input i c) s"
proof -
  let ?q = "k_consoles s i"
  obtain r l where v: "cons_view ?q = (r, l)" by fastforce
  then have len: "length r + length l = cq.len ?q"
    using view_lengths [OF assms(1)] assms(1) by (simp add: cons_ok_def)
  have room: "in_e ?q - in_r ?q < of_nat INPUT_BUF \<longleftrightarrow> cq.len ?q < INPUT_BUF"
    by (simp add: cq.len_def word_less_nat_alt)
  show ?thesis
  proof (cases "c \<noteq> 0 \<and> cq.len ?q < INPUT_BUF")
    case False
    then have "edit c (r, l) = (r, l)"
      using assms(6) len by (auto simp: edit_def)
    moreover have "cons_input i c s = Ok () s"
      using False room by (auto simp: cons_input_def run_simps)
    ultimately show ?thesis
      using assms(1) v by (simp add: edits_def same_env_def)
  next
    case True
    define d where "d = (if c = 13 then 10 else c)"
    have "d < 256" using assms(5) by (simp add: d_def)
    obtain out where out: "consputc d s = Ok () (s\<lparr>k_uart := k_uart s @ out\<rparr>)"
      using consputc_env [OF assms(2)] by auto
    let ?p = "cons_put (of_nat d) ?q"
    let ?u = "upd_cons i (cons_put (of_nat d)) (s\<lparr>k_uart := k_uart s @ out\<rparr>)"
    note put = put_view [OF assms(1) conjunct2 [OF True], of "of_nat d"]
    have full: "in_e ?p = in_r ?p + of_nat INPUT_BUF \<longleftrightarrow> length r + length l + 1 = INPUT_BUF"
      using cq.full_iff [of ?p] put(3) len by simp
    have step: "cons_input i c s = do_when (d = 10 \<or> d = 4 \<or> length r + length l + 1 = INPUT_BUF)
        (seq (modify (upd_cons i (\<lambda>q. q\<lparr>in_w := in_e q\<rparr>))) (wakeup (ChCons i))) ?u"
      using True room out full by (simp add: cons_input_def run_simps d_def Let_def)
    show ?thesis
    proof (cases "d = 10 \<or> d = 4 \<or> length r + length l + 1 = INPUT_BUF")
      case commit: True
      let ?w = "upd_cons i (\<lambda>q. q\<lparr>in_w := in_e q\<rparr>) ?u"
      obtain ps where "wakeup (ChCons i) ?w = Ok () (?w\<lparr>k_procs := ps\<rparr>)"
        using wakeup_env [of ?w] assms(3,4) by (auto simp: calm_def lock_free_def)
      moreover have "cons_view (?p\<lparr>in_w := in_e ?p\<rparr>) = (r @ l @ [of_nat d], [])" "cons_ok (?p\<lparr>in_w := in_e ?p\<rparr>)"
        using commit_view [of ?p] put(1,3) v True assms(1) by (simp_all add: cons_ok_def cons_done_def cons_put_def)
      moreover have "edit c (r, l) = (r @ l @ [of_nat d], [])"
        using commit assms(6) True len by (auto simp: edit_def d_def Let_def)
      ultimately show ?thesis
        using commit step v by (simp add: edits_def run_simps same_env_def)
    next
      case line: False
      then have "edit c (r, l) = (r, l @ [of_nat d])"
        using assms(6) True len by (auto simp: edit_def d_def Let_def)
      moreover have "(of_nat d :: u8) \<noteq> 10"
        using line byte_newline [OF \<open>d < 256\<close>] by simp
      ultimately show ?thesis
        using line step v put(1,2) by (simp add: edits_def run_simps same_env_def)
    qed
  qed
qed

lemma procdump_runs:
  assumes "calm s" and "lock_free PrLock s" and "\<not> k_panicked s"
  shows "\<exists>out. procdump s = Ok () (s\<lparr>k_uart := out\<rparr>)"
proof -
  have pf: "\<exists>out'. printf (Some fmt) ap (s\<lparr>k_uart := out\<rparr>) = Ok () (s\<lparr>k_uart := out'\<rparr>)" for fmt ap out
    using printf_total [of "s\<lparr>k_uart := out\<rparr>" fmt ap] assms by (auto simp: calm_def lock_free_def)
  have "\<exists>out'. for_each ps (\<lambda>p.
       bind (gets (\<lambda>s. k_procs s p)) (\<lambda>q.
       do_when (p_state q \<noteq> UNUSED) (
         seq (printf (Some ''%d %s %s'') [VInt (of_int (p_pid q)),
           VStr (Some (map of_char (state_name (p_state q)))), VStr (Some (cstr 16 (p_name q)))])
         (printf (Some ''\<newline>'') [])))) (s\<lparr>k_uart := out\<rparr>) = Ok () (s\<lparr>k_uart := out'\<rparr>)" for ps out
  proof (induction ps arbitrary: out)
    case Nil
    then show ?case by (auto simp: run_simps)
  next
    case (Cons p ps)
    let ?q = "k_procs s p"
    obtain out1 where 1: "printf (Some ''%d %s %s'') [VInt (of_int (p_pid ?q)),
           VStr (Some (map of_char (state_name (p_state ?q)))), VStr (Some (cstr 16 (p_name ?q)))] (s\<lparr>k_uart := out\<rparr>) = Ok () (s\<lparr>k_uart := out1\<rparr>)"
      using pf by blast
    obtain out2 where 2: "printf (Some ''\<newline>'') [] (s\<lparr>k_uart := out1\<rparr>) = Ok () (s\<lparr>k_uart := out2\<rparr>)"
      using pf by blast
    show ?case
      using Cons.IH [of out] Cons.IH [of out2] 1 2 by (cases "p_state ?q = UNUSED") (auto simp: run_simps)
  qed
  moreover obtain out where "printf (Some ''\<newline>'') [] s = Ok () (s\<lparr>k_uart := out\<rparr>)"
    using printf_total [OF assms] by blast
  ultimately show ?thesis
    by (simp add: procdump_def run_simps)
qed

text \<open>What happens under the console's lock, for every key.\<close>

definition cons_key :: "nat \<Rightarrow> nat \<Rightarrow> unit k" where
  "cons_key i c =
     (if c = 16 then procdump
      else if c = 21 then cons_kill i
      else if c = 8 \<or> c = 127 then cons_backspace i
      else if c = 20 then return ()
      else cons_input i c)"

lemma consoleintr_key:
  "consoleintr c =
     bind active_cons (\<lambda>cons.
     seq (acquire (ConsLock cons)) (seq (cons_key cons c) (seq (release (ConsLock cons)) (
     do_when (c = 20) (
       seq (modify (\<lambda>s. s\<lparr>k_active := k_active s mod (int NCONS + 1) + 1\<rparr>)) (
       bind (gets k_active) (\<lambda>active.
       printf (Some ''\<newline>Active console now: %d\<newline>'') [VInt (of_int active)])))))))"
  by (simp only: consoleintr_def cons_key_def)

lemma key_runs:
  assumes "calm s" and "lock_free PrLock s" and "\<And>q. lock_free (ProcLock q) s" and "\<not> k_panicked s" and "c < 256"
    and "cons_ok (k_consoles s i)"
  shows "edits i (\<lambda>q. cons_ok q \<and> cons_view q = edit c (cons_view (k_consoles s i)))
    (cons_key i c) s"
proof -
  let ?q = "k_consoles s i"
  consider "c = 16" | "c = 21" | "c = 8 \<or> c = 127" | "c = 20" | "c \<notin> {21, 8, 127, 16, 20}" by blast
  then show ?thesis
  proof cases
    case 1
    then show ?thesis
      using procdump_runs [OF assms(1,2,4)] assms(6) by (auto simp: cons_key_def edits_def same_env_def edit_def split: prod.split)
  next
    case 2
    moreover have "cq.len ?q < 2 ^ 32 + 1"
      using assms(6) by (simp add: cons_ok_def)
    ultimately show ?thesis
      using cons_kill_runs [OF assms(6,4)] by (simp add: cons_key_def cons_kill_def edit_def case_prod_beta)
  next
    case 3
    then show ?thesis
      using cons_backspace_runs [OF assms(6,4)] by (auto simp: cons_key_def edit_def case_prod_beta)
  next
    case 4
    then show ?thesis
      using assms(6) by (auto simp: cons_key_def edits_def same_env_def edit_def run_simps split: prod.split)
  next
    case 5
    then show ?thesis
      using cons_input_runs [OF assms(6,4,1,3,5) 5] 5 by (simp add: cons_key_def)
  qed
qed

lemma consoleintr_runs:
  assumes "calm s" and "\<And>lk. lock_free lk s" and "\<not> k_panicked s" and "c < 256"
    and "i = nat (k_active s - 1)" and "cons_ok (k_consoles s i)"
  obtains t where "consoleintr c s = Ok () t" and "cons_ok (k_consoles t i)"
    and "cons_view (k_consoles t i) = edit c (cons_view (k_consoles s i))"
    and "\<And>j. j \<noteq> i \<Longrightarrow> k_consoles t j = k_consoles s j"
    and "k_active t = (if c = 20 then k_active s mod (int NCONS + 1) + 1 else k_active s)"
    and "calm t" and "\<And>lk. lock_free lk t" and "\<not> k_panicked t"
proof -
  let ?l = "locked_state (ConsLock i) s"
  obtain u where u: "cons_key i c ?l = Ok () u" "same_env ?l u"
      "cons_ok (k_consoles u i)" "cons_view (k_consoles u i) = edit c (cons_view (k_consoles s i))"
      "\<forall>j. j \<noteq> i \<longrightarrow> k_consoles u j = k_consoles s j"
    using key_runs [of ?l c i] assms by (auto simp: edits_def lock_free_locked)
  let ?v = "u\<lparr>k_locks := k_locks s, k_cpus := k_cpus s\<rparr>"
  have rel: "release (ConsLock i) u = Ok () ?v"
    using u(2) assms(1,2) by (intro release_calm) (simp_all add: same_env_def)
  have v: "calm ?v" "lock_free lk ?v" "\<not> k_panicked ?v" "k_active ?v = k_active s" for lk
    using u(2) assms(1-3) by (simp_all add: same_env_def calm_def lock_free_def)
  let ?w = "?v\<lparr>k_active := k_active s mod (int NCONS + 1) + 1\<rparr>"
  have w: "calm ?w" "lock_free lk ?w" "\<not> k_panicked ?w" for lk
    using v by (simp_all add: calm_def lock_free_def)
  obtain out where out: "printf (Some ''\<newline>Active console now: %d\<newline>'') [VInt (of_int (k_active ?w))] ?w = Ok () (?w\<lparr>k_uart := k_uart ?w @ out\<rparr>)"
    using printf_total [OF w] by blast
  have run: "consoleintr c s = do_when (c = 20) (
       seq (modify (\<lambda>s. s\<lparr>k_active := k_active s mod (int NCONS + 1) + 1\<rparr>)) (
       bind (gets k_active) (\<lambda>active.
       printf (Some ''\<newline>Active console now: %d\<newline>'') [VInt (of_int active)]))) ?v"
    using assms(1,2,5) u(1) rel by (simp add: consoleintr_key active_cons_def run_simps acquire_calm)
  show thesis
  proof (cases "c = 20")
    case True
    then show ?thesis
      using that [of "?w\<lparr>k_uart := k_uart ?w @ out\<rparr>"] run out u(3-5) v w by (simp add: run_simps calm_def lock_free_def)
  next
    case False
    then show ?thesis
      using that [of ?v] run u(3-5) v by (simp add: run_simps)
  qed
qed

section \<open>Properties\<close>

text \<open>C18 (line editing). With every key, \<open>consoleintr\<close> changes the active console the way a line
  editor does: a character joins the line being edited unless \<open>INPUT_BUF\<close> characters are
  waiting, newline, end-of-file and the character that fills the buffer hand the line over to
  the readers, backspace takes back the last character of the line and control-u the whole
  line, never a character already handed over. The other consoles do not change.\<close>

theorem consoleintr_edits:
  assumes "calm s" and "\<And>lk. lock_free lk s" and "\<not> k_panicked s" and "c < 256"
    and "i = nat (k_active s - 1)" and "cons_ok (k_consoles s i)"
  shows "\<exists>t. consoleintr c s = Ok () t \<and> cons_ok (k_consoles t i) \<and>
    cons_view (k_consoles t i) = edit c (cons_view (k_consoles s i)) \<and>
    (\<forall>j. j \<noteq> i \<longrightarrow> k_consoles t j = k_consoles s j) \<and>
    k_active t = (if c = 20 then k_active s mod (int NCONS + 1) + 1 else k_active s)"
  by (rule consoleintr_runs [OF assms]) blast

theorem consoleintr_edits_witness:
  "\<exists>t. consoleintr 104 zero_state = Ok () t \<and> cons_view (k_consoles t 0) = ([], [104])"
proof -
  have "cons_ok (k_consoles zero_state 0)" "cons_view (k_consoles zero_state 0) = ([], [])"
    by (simp_all add: cons_ok_def cons_view_def cons_done_def cq.len_def cq.contents_def zero_state_def)
  moreover have "calm zero_state" "\<And>lk. lock_free lk zero_state" "\<not> k_panicked zero_state" "0 = nat (k_active zero_state - 1)"
    by (simp_all add: calm_def lock_free_def zero_state_def)
  ultimately show ?thesis
    using consoleintr_edits [of zero_state 104 0] by (auto simp: edit_def)
qed

text \<open>C19 (finding). Switching consoles with control-t reaches the console number \<open>NCONS + 1\<close>:
  from then on, input goes to the memory behind the array of consoles, and the array itself no
  longer changes.\<close>

theorem console_switch_overruns:
  assumes "calm s" and "\<And>lk. lock_free lk s" and "\<not> k_panicked s" and "c < 256"
    and "k_active s = int NCONS" and "cons_ok (k_consoles s (NCONS - 1))" and "cons_ok (k_consoles s NCONS)"
  shows "\<exists>t u. consoleintr 20 s = Ok () t \<and> k_active t = int NCONS + 1 \<and> consoleintr c t = Ok () u \<and>
    (\<forall>j<NCONS. k_consoles u j = k_consoles t j) \<and>
    cons_view (k_consoles u NCONS) = edit c (cons_view (k_consoles s NCONS))"
proof -
  have i: "NCONS - 1 = nat (k_active s - 1)"
    by (simp add: assms(5))
  obtain t where t: "consoleintr 20 s = Ok () t" "\<And>j. j \<noteq> NCONS - 1 \<Longrightarrow> k_consoles t j = k_consoles s j"
      "k_active t = int NCONS + 1" "calm t" "\<And>lk. lock_free lk t" "\<not> k_panicked t"
    by (rule consoleintr_runs [OF assms(1-3) _ i assms(6), of 20]) (simp_all add: assms(5))
  have "cons_ok (k_consoles t NCONS)" "NCONS = nat (k_active t - 1)"
    using t(2) [of NCONS] t(3) assms(7) by simp_all
  then obtain u where "consoleintr c t = Ok () u" "cons_view (k_consoles u NCONS) = edit c (cons_view (k_consoles t NCONS))"
      "\<And>j. j \<noteq> NCONS \<Longrightarrow> k_consoles u j = k_consoles t j"
    using consoleintr_runs [OF t(4-6) assms(4), of NCONS] by metis
  then show ?thesis
    using t(1,3) t(2) [of NCONS] by auto
qed

theorem console_switch_overruns_witness:
  "\<exists>t u. consoleintr 20 (zero_state\<lparr>k_active := 5\<rparr>) = Ok () t \<and> consoleintr 104 t = Ok () u \<and>
     cons_view (k_consoles u 5) = ([], [104])"
proof -
  let ?s = "zero_state\<lparr>k_active := 5\<rparr>"
  have "cons_ok (k_consoles ?s j)" "cons_view (k_consoles ?s j) = ([], [])" for j
    by (simp_all add: cons_ok_def cons_view_def cons_done_def cq.len_def cq.contents_def zero_state_def)
  moreover have "calm ?s" "\<And>lk. lock_free lk ?s" "\<not> k_panicked ?s" "k_active ?s = int NCONS"
    by (simp_all add: calm_def lock_free_def zero_state_def)
  ultimately show ?thesis
    using console_switch_overruns [of ?s 104] by (auto simp: edit_def)
qed

end
