(* ===== verification/Xv6_File.thy ===== *)
theory Xv6_File
  imports Xv6_Console
begin

text \<open>
  \<open>kernel/file.c\<close>, the table of open files, and \<open>pipealloc\<close> of \<open>kernel/pipe.c\<close>. A file
  pointer is an index into the table.
\<close>

section \<open>Definitions\<close>

definition fileinit :: "unit k" where
  "fileinit = initlock FtableLock ''ftable''"

definition filealloc :: "nat option k" where
  "filealloc =
     seq (acquire FtableLock) (
     bind (gets (\<lambda>s. find (\<lambda>f. f_ref (k_files s f) = 0) [0..<NFILE])) (\<lambda>r.
     case r of
       Some f \<Rightarrow>
         seq (modify (upd_file f (\<lambda>q. q\<lparr>f_ref := 1\<rparr>))) (
         seq (release FtableLock) (return (Some f)))
     | None \<Rightarrow> seq (release FtableLock) (return None)))"

definition filedup :: "nat \<Rightarrow> nat k" where
  "filedup f =
     seq (acquire FtableLock) (
     bind (gets (\<lambda>s. f_ref (k_files s f))) (\<lambda>ref.
     seq (do_when (ref < 1) (panic ''filedup'')) (
     seq (modify (upd_file f (\<lambda>q. q\<lparr>f_ref := f_ref q + 1\<rparr>))) (
     seq (release FtableLock) (return f)))))"

definition fileclose :: "nat \<Rightarrow> unit k" where
  "fileclose f =
     seq (acquire FtableLock) (
     bind (gets (\<lambda>s. f_ref (k_files s f))) (\<lambda>ref.
     seq (do_when (ref < 1) (panic ''fileclose'')) (
     seq (modify (upd_file f (\<lambda>q. q\<lparr>f_ref := f_ref q - 1\<rparr>))) (
     bind (gets (\<lambda>s. k_files s f)) (\<lambda>ff.
     if f_ref ff > 0 then release FtableLock
     else
       seq (modify (upd_file f (\<lambda>q. q\<lparr>f_ref := 0, f_type := FD_NONE\<rparr>))) (
       seq (release FtableLock) (
       if f_type ff = FD_PIPE then pipeclose (f_pipe ff) (f_writable ff)
       else if f_type ff = FD_INODE \<or> f_type ff = FD_DEVICE then
         block [begin_op, iput (f_ip ff), end_op]
       else return ())))))))"

text \<open>A \<open>struct stat\<close> in memory: 24 bytes, with padding before \<open>size\<close>.\<close>

definition stat_bytes :: "stat \<Rightarrow> bytes" where
  "stat_bytes st =
     (let d = st16 (st16 (st32 (st32 (\<lambda>_. 0) 0 (st_dev st)) 4 (st_ino st)) 8 (st_type st)) 10 (st_nlink st)
      in overwrite d 16 8 (le_byte (unat (st_size st))))"

definition filestat :: "nat \<Rightarrow> u64 \<Rightarrow> int k" where
  "filestat f addr =
     bind myproc (\<lambda>pp.
     bind (gets (\<lambda>s. k_files s f)) (\<lambda>q.
     if f_type q = FD_INODE \<or> f_type q = FD_DEVICE then
       seq (ilock (f_ip q)) (
       bind (deref_opt (f_ip q)) (\<lambda>ip.
       bind (stati ip) (\<lambda>st.
       seq (iunlock (f_ip q)) (
       bind (deref pp) (\<lambda>p.
       bind (gets (\<lambda>s. p_pagetable (k_procs s p))) (\<lambda>pt.
       bind (copyout pt addr (stat_bytes st) 24) (\<lambda>r.
       return (if r < 0 then - 1 else 0))))))))
     else return (- 1)))"

text \<open>The guard of a device call: \<open>major < 0\<close>, \<open>major >= NDEV\<close> or no routine.\<close>

definition no_device :: "u16 \<Rightarrow> kstate \<Rightarrow> bool" where
  "no_device major s = (sint major < 0 \<or> sint major \<ge> int NDEV \<or> \<not> k_devsw s (unat major))"

text \<open>
  \<open>fileread\<close> and \<open>filereadfromkernel\<close> differ in the kind of address they pass on; a pipe is
  read to a user address by both.
\<close>

definition fileread_at :: "(u64 \<Rightarrow> place) \<Rightarrow> nat \<Rightarrow> u64 \<Rightarrow> int \<Rightarrow> int k" where
  "fileread_at pl f addr n =
     bind (gets (\<lambda>s. k_files s f)) (\<lambda>q.
     if \<not> f_readable q then return (- 1)
     else case f_type q of
       FD_PIPE \<Rightarrow> piperead (f_pipe q) addr n
     | FD_DEVICE \<Rightarrow>
         bind (gets (no_device (f_major q))) (\<lambda>bad.
         if bad then return (- 1) else consoleread (sint (f_major q)) (pl addr) n)
     | FD_INODE \<Rightarrow>
         seq (ilock (f_ip q)) (
         bind (deref_opt (f_ip q)) (\<lambda>ip.
         bind (readi ip (pl addr) (f_off q) (of_int n)) (\<lambda>r.
         seq (do_when (r > 0) (modify (upd_file f (\<lambda>q. q\<lparr>f_off := f_off q + of_int r\<rparr>)))) (
         seq (iunlock (f_ip q)) (return r)))))
     | FD_NONE \<Rightarrow> panic ''fileread'')"

definition fileread :: "nat \<Rightarrow> u64 \<Rightarrow> int \<Rightarrow> int k" where
  "fileread f addr n = fileread_at UserA f addr n"

definition filereadfromkernel :: "nat \<Rightarrow> u64 \<Rightarrow> int \<Rightarrow> int k" where
  "filereadfromkernel f addr n = fileread_at KernA f addr n"

text \<open>
  An inode is written in pieces of at most 3072 bytes, each in a transaction of its own.
\<close>

definition filewrite_turn :: "(u64 \<Rightarrow> place) \<Rightarrow> nat \<Rightarrow> nat option \<Rightarrow> u64 \<Rightarrow> int \<Rightarrow> int \<Rightarrow> (int + int) k" where
  "filewrite_turn pl f ipp addr n i =
     (if i < n then
        let n1 = min (n - i) (int ((MAXOPBLOCKS - 1 - 1 - 2) div 2 * BSIZE)) in
        seq begin_op (
        seq (ilock ipp) (
        bind (deref_opt ipp) (\<lambda>ip.
        bind (gets (\<lambda>s. f_off (k_files s f))) (\<lambda>off.
        bind (writei ip (pl (addr + of_int i)) off (of_int n1)) (\<lambda>r.
        seq (do_when (r > 0) (modify (upd_file f (\<lambda>q. q\<lparr>f_off := f_off q + of_int r\<rparr>)))) (
        seq (iunlock ipp) (
        seq end_op (
        if r < 0 then return (Inr (if i = n then n else - 1))
        else if r \<noteq> n1 then panic ''short filewrite''
        else return (Inl (i + r))))))))))
      else return (Inr (if i = n then n else - 1)))"

definition filewrite_at :: "(u64 \<Rightarrow> place) \<Rightarrow> nat \<Rightarrow> u64 \<Rightarrow> int \<Rightarrow> int k" where
  "filewrite_at pl f addr n =
     bind (gets (\<lambda>s. k_files s f)) (\<lambda>q.
     if \<not> f_writable q then return (- 1)
     else case f_type q of
       FD_PIPE \<Rightarrow> pipewrite (f_pipe q) addr n
     | FD_DEVICE \<Rightarrow>
         bind (gets (no_device (f_major q))) (\<lambda>bad.
         if bad then return (- 1) else consolewrite (sint (f_major q)) (pl addr) n)
     | FD_INODE \<Rightarrow> loop (nat n + 1) (filewrite_turn pl f (f_ip q) addr n) 0
     | FD_NONE \<Rightarrow> panic ''filewrite'')"

definition filewrite :: "nat \<Rightarrow> u64 \<Rightarrow> int \<Rightarrow> int k" where
  "filewrite f addr n = filewrite_at UserA f addr n"

definition filewritefromkernel :: "nat \<Rightarrow> u64 \<Rightarrow> int \<Rightarrow> int k" where
  "filewritefromkernel f addr n = filewrite_at KernA f addr n"

section \<open>Allocating a pipe\<close>

definition close_opt :: "nat option \<Rightarrow> unit k" where
  "close_opt f = (case f of None \<Rightarrow> return () | Some f \<Rightarrow> fileclose f)"

definition pipealloc :: "(nat \<times> nat) option k" where
  "pipealloc =
     bind filealloc (\<lambda>f0.
     bind (case f0 of None \<Rightarrow> return None | Some _ \<Rightarrow> filealloc) (\<lambda>f1.
     bind (if f0 = None \<or> f1 = None then return 0 else kalloc) (\<lambda>pi.
     case (f0, f1) of
       (Some r, Some w) \<Rightarrow>
         if pi = 0 then seq (close_opt f0) (seq (close_opt f1) (return None))
         else
           seq (modify (upd_pipe pi (\<lambda>q. q\<lparr>pi_readopen := True, pi_writeopen := True,
             pi_nwrite := 0, pi_nread := 0\<rparr>))) (
           seq (initlock (PipeLock pi) ''pipe'') (
           seq (modify (upd_file r (\<lambda>q. q\<lparr>f_type := FD_PIPE, f_readable := True, f_writable := False, f_pipe := pi\<rparr>))) (
           seq (modify (upd_file w (\<lambda>q. q\<lparr>f_type := FD_PIPE, f_readable := False, f_writable := True, f_pipe := pi\<rparr>)))
           (return (Some (r, w))))))
     | _ \<Rightarrow> seq (close_opt f0) (seq (close_opt f1) (return None)))))"

end
