(* ===== verification/Xv6_Proc.thy ===== *)
theory Xv6_Proc
  imports Xv6_File
begin

text \<open>
  The rest of \<open>kernel/proc.c\<close>: creating, copying and ending processes, the process and
  container listings, suspending a process to a file and resuming it, and the container
  operations. Trapframes and the tables handed to user space lie in physical memory with the
  layout of \<open>proc.h\<close>; names and paths are C strings, given as the list of their characters.
\<close>

section \<open>Memory layouts\<close>

abbreviation TF_epc :: u64 where "TF_epc \<equiv> 24"
abbreviation TF_sp :: u64 where "TF_sp \<equiv> 48"
abbreviation TF_a0 :: u64 where "TF_a0 \<equiv> 112"
abbreviation TF_a1 :: u64 where "TF_a1 \<equiv> 120"
abbreviation TF_a7 :: u64 where "TF_a7 \<equiv> 168"
abbreviation TF_SIZE :: nat where "TF_SIZE \<equiv> 288"

text \<open>Fields of the trapframe of a process.\<close>

definition tf_get :: "nat \<Rightarrow> u64 \<Rightarrow> u64 k" where
  "tf_get p off = gets (\<lambda>s. ld64 (k_mem s) (p_tf (k_procs s p) + off))"

definition tf_set :: "nat \<Rightarrow> u64 \<Rightarrow> u64 \<Rightarrow> unit k" where
  "tf_set p off v = modify (\<lambda>s. s\<lparr>k_mem := st64 (k_mem s) (p_tf (k_procs s p) + off) v\<rparr>)"

text \<open>
  Stores through a kernel pointer that may be null, which faults: an \<open>int\<close>, and \<open>strncpy\<close>
  of at most \<open>n\<close> characters.
\<close>

definition kput :: "u64 \<Rightarrow> u64 \<Rightarrow> nat \<Rightarrow> bytes \<Rightarrow> unit k" where
  "kput base off n d =
     (if base = 0 then panic ''kerneltrap''
      else modify (\<lambda>s. s\<lparr>k_mem := mem_write (k_mem s) (base + off) n d\<rparr>))"

definition kput_int :: "u64 \<Rightarrow> u64 \<Rightarrow> int \<Rightarrow> unit k" where
  "kput_int base off v = kput base off 4 (le_byte (unat (of_int v :: u32)))"

definition kput_str :: "u64 \<Rightarrow> u64 \<Rightarrow> bytes \<Rightarrow> nat \<Rightarrow> unit k" where
  "kput_str base off str n =
     bind (gets (\<lambda>s. strncpy (mem_read (k_mem s) (base + off)) str n)) (\<lambda>d. kput base off n d)"

section \<open>Page tables of processes\<close>

definition kvminithart :: "unit k" where
  "kvminithart = modify (\<lambda>s. s\<lparr>k_csr := (k_csr s)\<lparr>cs_satp :=
     push_bit 60 8 OR drop_bit 12 (k_kpgtbl s)\<rparr>\<rparr>)"

definition procinit :: "unit k" where
  "procinit = block [
     initlock PidLock ''nextpid'',
     for_each [0..<NCONTS] (\<lambda>c. block [
       modify (upd_cont c (\<lambda>ct. ct\<lparr>ct_state := CUNUSED, ct_nextvpid := 1, ct_maxproc := 5, ct_memused := 0\<rparr>)),
       initlock (VpidLock c) ''vpid'',
       initlock (ContLock c) ''container'']),
     for_each [0..<NPROC] (\<lambda>p.
       seq (initlock (ProcLock p) ''proc'') (
       bind kalloc (\<lambda>pa.
       seq (do_when (pa = 0) (panic ''kalloc'')) (
       seq (kvmmap (KSTACK p) pa PGSIZE (PTE_R OR PTE_W))
       (modify (upd_proc p (\<lambda>q. q\<lparr>p_kstack := KSTACK p\<rparr>))))))),
     kvminithart]"

definition proc_pagetable :: "nat \<Rightarrow> u64 k" where
  "proc_pagetable p =
     bind uvmcreate (\<lambda>pagetable.
     bind (gets (\<lambda>s. sym_trampoline (k_syms s))) (\<lambda>trampoline.
     bind (mappages pagetable TRAMPOLINE PGSIZE trampoline (PTE_R OR PTE_X)) (\<lambda>_.
     bind (gets (\<lambda>s. p_tf (k_procs s p))) (\<lambda>tf.
     bind (mappages pagetable TRAPFRAME PGSIZE tf (PTE_R OR PTE_W)) (\<lambda>_.
     return pagetable)))))"

definition proc_freepagetable :: "u64 \<Rightarrow> u64 \<Rightarrow> unit k" where
  "proc_freepagetable pagetable sz = block [
     uvmunmap pagetable TRAMPOLINE PGSIZE False,
     uvmunmap pagetable TRAPFRAME PGSIZE False,
     do_when (sz > 0) (uvmfree pagetable sz)]"

definition loadseg :: "u64 \<Rightarrow> u64 \<Rightarrow> nat \<Rightarrow> u32 \<Rightarrow> u32 \<Rightarrow> int k" where
  "loadseg pagetable va ip offset sz =
     seq (do_when (va mod PGSIZE \<noteq> 0) (panic ''loadseg: va must be page aligned''))
     (loop (2 ^ 20 + 1) (\<lambda>i :: u32.
       if i < sz then
         bind (walkaddr pagetable (va + ucast i)) (\<lambda>pa.
         if pa = 0 then panic ''loadseg: address should exist''
         else
           let n = (if sz - i < 4096 then sz - i else 4096) in
           bind (readi ip (KernA pa) (offset + i) n) (\<lambda>r.
           return (if (of_int r :: u32) \<noteq> n then Inr (- 1) else Inl (i + 4096))))
       else return (Inr 0)) 0)"

section \<open>Allocating and freeing processes\<close>

definition allocproc :: "nat option k" where
  "allocproc =
     bind (for_ret [0..<NPROC] (\<lambda>p.
       seq (acquire (ProcLock p)) (
       bind (gets (\<lambda>s. p_state (k_procs s p))) (\<lambda>st.
       if st = UNUSED then return (Some p)
       else seq (release (ProcLock p)) (return None))))) (\<lambda>r.
     case r of
       None \<Rightarrow> return None
     | Some p \<Rightarrow>
         bind allocpid (\<lambda>pid.
         seq (modify (upd_proc p (\<lambda>q. q\<lparr>p_pid := pid\<rparr>))) (
         bind kalloc (\<lambda>tf.
         seq (modify (upd_proc p (\<lambda>q. q\<lparr>p_tf := tf\<rparr>))) (
         if tf = 0 then seq (release (ProcLock p)) (return None)
         else
           bind (proc_pagetable p) (\<lambda>pt.
           seq (modify (upd_proc p (\<lambda>q. q\<lparr>p_pagetable := pt\<rparr>))) (
           seq (modify (\<lambda>s. upd_proc p (\<lambda>q. q\<lparr>p_context :=
             \<lparr>cx_ra = sym_forkret (k_syms s), cx_sp = p_kstack q + PGSIZE, cx_s = (\<lambda>_. 0)\<rparr>\<rparr>) s))
           (return (Some p)))))))))"

definition freeproc :: "nat \<Rightarrow> unit k" where
  "freeproc p =
     bind (gets (\<lambda>s. p_tf (k_procs s p))) (\<lambda>tf.
     seq (do_when (tf \<noteq> 0) (kfree tf)) (
     seq (modify (upd_proc p (\<lambda>q. q\<lparr>p_tf := 0\<rparr>))) (
     bind (gets (\<lambda>s. k_procs s p)) (\<lambda>q.
     seq (do_when (p_pagetable q \<noteq> 0) (proc_freepagetable (p_pagetable q) (p_sz q)))
     (modify (upd_proc p (\<lambda>q. q\<lparr>p_pagetable := 0, p_sz := 0, p_pid := 0, p_parent := None,
        p_name := (p_name q)(0 := 0), p_chan := None, p_killed := False, p_xstate := 0,
        p_state := UNUSED\<rparr>)))))))"

text \<open>The program of the first process, which calls \<open>exec\<close> on \<open>/init\<close>.\<close>

definition initcode :: "nat list" where
  "initcode = [
     0x17, 0x05, 0x00, 0x00, 0x13, 0x05, 0x05, 0x02,
     0x97, 0x05, 0x00, 0x00, 0x93, 0x85, 0x05, 0x02,
     0x9d, 0x48, 0x73, 0x00, 0x00, 0x00, 0x89, 0x48,
     0x73, 0x00, 0x00, 0x00, 0xef, 0xf0, 0xbf, 0xff,
     0x2f, 0x69, 0x6e, 0x69, 0x74, 0x00, 0x00, 0x01,
     0x20, 0x00, 0x00, 0x00, 0x00, 0x00, 0x00, 0x00,
     0x00, 0x00, 0x00]"

section \<open>Containers\<close>

definition cinit_slot :: "nat \<Rightarrow> u8 list \<Rightarrow> u8 list \<Rightarrow> int \<Rightarrow> int \<Rightarrow> int \<Rightarrow> nat \<Rightarrow> unit k" where
  "cinit_slot p name root_dir max_proc max_page max_disk c =
     seq (modify (upd_proc p (\<lambda>q. q\<lparr>p_container := Some c\<rparr>))) (
     seq begin_op (
     bind (if c = 0 then bind (namexinit [slash] False (\<lambda>_. 0)) (\<lambda>(ip, _). return ip)
           else namei root_dir) (\<lambda>ip.
     seq (modify (upd_cont c (\<lambda>ct. ct\<lparr>ct_root := ip\<rparr>))) (
     seq end_op (
     seq (modify (upd_cont c (\<lambda>ct. ct\<lparr>ct_name := strncpy (ct_name ct) (of_bytes name) 16\<rparr>))) (
     seq (modify (\<lambda>s. upd_proc p (\<lambda>q. q\<lparr>p_cwd := ct_root (k_conts s c)\<rparr>) s)) (
     seq (modify (upd_cont c (\<lambda>ct. ct\<lparr>ct_state := CRUNNING, ct_maxproc := max_proc,
       ct_memlimit := max_page, ct_memused := 0, ct_disklimit := max_disk, ct_diskused := 0,
       ct_root_dir := strncpy (ct_root_dir ct) (of_bytes root_dir) (length root_dir)\<rparr>))) (
     bind (allocvpid c) (\<lambda>vpid.
     modify (upd_proc p (\<lambda>q. q\<lparr>p_vpid := vpid\<rparr>)))))))))))"

definition cinit :: "nat \<Rightarrow> u8 list \<Rightarrow> u8 list \<Rightarrow> int \<Rightarrow> int \<Rightarrow> int \<Rightarrow> int k" where
  "cinit p name root_dir max_proc max_page max_disk =
     bind (gets (\<lambda>s. find (\<lambda>c. ct_state (k_conts s c) = CUNUSED) [0..<NCONTS])) (\<lambda>r.
     seq (case r of None \<Rightarrow> return ()
          | Some c \<Rightarrow> cinit_slot p name root_dir max_proc max_page max_disk c) (
     seq (modify (\<lambda>s. s\<lparr>k_started := True\<rparr>)) (return 0)))"

text \<open>The first process.\<close>

definition chars :: "string \<Rightarrow> u8 list" where
  "chars str = map of_char str"

definition userinit :: "unit k" where
  "userinit =
     bind allocproc (\<lambda>pp.
     seq (modify (\<lambda>s. s\<lparr>k_initproc := pp\<rparr>)) (
     bind (deref_opt pp) (\<lambda>p.
     bind (gets (\<lambda>s. p_pagetable (k_procs s p))) (\<lambda>pt.
     seq (uvminit pt (of_bytes (map of_nat initcode)) (length initcode)) (
     seq (modify (upd_proc p (\<lambda>q. q\<lparr>p_sz := PGSIZE\<rparr>))) (
     seq (tf_set p TF_epc 0) (
     seq (tf_set p TF_sp PGSIZE) (
     seq (modify (upd_proc p (\<lambda>q. q\<lparr>p_name := safestrcpy (p_name q) (cbytes ''initcode'') 16\<rparr>))) (
     seq (modify (upd_proc p (\<lambda>q. q\<lparr>p_state := RUNNABLE\<rparr>))) (
     bind (allocvpid 0) (\<lambda>vpid.
     seq (modify (upd_proc p (\<lambda>q. q\<lparr>p_vpid := vpid\<rparr>))) (
     seq (release (ProcLock p)) (
     bind (cinit p (chars ''root'') [slash] (int NPROC) 256 256) (\<lambda>_. return ()))))))))))))))"

text \<open>\<open>strncmp(c->name, name, strlen(name)) == 0\<close>, and the search the three calls share.\<close>

definition name_matches :: "u8 list \<Rightarrow> container \<Rightarrow> bool" where
  "name_matches name c = (strncmp (ct_name c) (of_bytes name) (length name) = 0)"

definition find_cont :: "u8 list \<Rightarrow> kstate \<Rightarrow> nat option" where
  "find_cont name s = find (\<lambda>c. name_matches name (k_conts s c)) [0..<NCONTS]"

definition cpause :: "u8 list \<Rightarrow> int k" where
  "cpause name =
     bind mycont (\<lambda>cp.
     if cp \<noteq> Ptr 0 then return (- 1)
     else
       bind (gets (find_cont name)) (\<lambda>r.
       case r of
         None \<Rightarrow> return (- 1)
       | Some c \<Rightarrow> seq (modify (upd_cont c (\<lambda>ct. ct\<lparr>ct_state := CSUSPENDED\<rparr>))) (return 0)))"

definition cresume :: "u8 list \<Rightarrow> int k" where
  "cresume name =
     bind mycont (\<lambda>cp.
     if cp \<noteq> Ptr 0 then return (- 1)
     else
       bind (gets (find_cont name)) (\<lambda>r.
       case r of
         None \<Rightarrow> return (- 1)
       | Some c \<Rightarrow> seq (modify (upd_cont c (\<lambda>ct. ct\<lparr>ct_state := CRUNNING\<rparr>))) (return 0)))"

definition cstop :: "u8 list \<Rightarrow> int k" where
  "cstop name =
     bind mycont (\<lambda>cp.
     if cp \<noteq> Ptr 0 then return (- 1)
     else
       bind (gets (find_cont name)) (\<lambda>r.
       case r of
         None \<Rightarrow> return (- 1)
       | Some c \<Rightarrow>
           seq (modify (upd_cont c (\<lambda>ct. ct\<lparr>ct_state := CUNUSED\<rparr>))) (
           seq (for_each [0..<NPROC] (\<lambda>p.
             bind (gets (\<lambda>s. p_container (k_procs s p))) (\<lambda>pc.
             do_when (pc = Some c) (freeproc p))))
           (return 0))))"

section \<open>Growing and copying processes\<close>

text \<open>\<open>sz\<close> is a 32-bit variable of \<open>growproc\<close>.\<close>

definition growproc :: "int \<Rightarrow> int k" where
  "growproc n =
     bind myproc (\<lambda>pp. bind (deref pp) (\<lambda>p.
     bind (gets (\<lambda>s. k_procs s p)) (\<lambda>q.
     let sz = (ucast (p_sz q) :: u32); newsz = (ucast (sz + of_int n) :: u64) in
     if n > 0 then
       bind (uvmalloc (p_pagetable q) (ucast sz) newsz) (\<lambda>r.
       if (ucast r :: u32) = 0 then return (- 1)
       else seq (modify (upd_proc p (\<lambda>q. q\<lparr>p_sz := ucast (ucast r :: u32)\<rparr>))) (return 0))
     else if n < 0 then
       bind (uvmdealloc (p_pagetable q) (ucast sz) newsz) (\<lambda>r.
       seq (modify (upd_proc p (\<lambda>q. q\<lparr>p_sz := ucast (ucast r :: u32)\<rparr>))) (return 0))
     else seq (modify (upd_proc p (\<lambda>q. q\<lparr>p_sz := ucast sz\<rparr>))) (return 0))))"

definition fork_copy :: "nat \<Rightarrow> nat \<Rightarrow> unit k" where
  "fork_copy p np = block [
     modify (\<lambda>s. upd_proc np (\<lambda>q. q\<lparr>p_sz := p_sz (k_procs s p), p_parent := Some p\<rparr>) s),
     modify (\<lambda>s. s\<lparr>k_mem := mem_write (k_mem s) (p_tf (k_procs s np)) TF_SIZE
       (mem_read (k_mem s) (p_tf (k_procs s p)))\<rparr>),
     tf_set np TF_a0 0,
     for_each [0..<NOFILE] (\<lambda>i.
       bind (gets (\<lambda>s. p_ofile (k_procs s p) i)) (\<lambda>f.
       case f of
         None \<Rightarrow> return ()
       | Some f \<Rightarrow> bind (filedup f) (\<lambda>f'.
           modify (upd_proc np (\<lambda>q. q\<lparr>p_ofile := (p_ofile q)(i := Some f')\<rparr>))))),
     bind (gets (\<lambda>s. p_cwd (k_procs s p))) (\<lambda>cwd. bind (idup cwd) (\<lambda>cwd'.
       modify (upd_proc np (\<lambda>q. q\<lparr>p_cwd := cwd'\<rparr>)))),
     modify (\<lambda>s. upd_proc np (\<lambda>q. q\<lparr>p_name := safestrcpy (p_name q) (p_name (k_procs s p)) 16\<rparr>) s)]"

definition fork :: "int k" where
  "fork =
     bind myproc (\<lambda>pp.
     bind allocproc (\<lambda>r.
     case r of
       None \<Rightarrow> return (- 1)
     | Some np \<Rightarrow>
         bind (deref pp) (\<lambda>p.
         bind (gets (\<lambda>s. k_procs s p)) (\<lambda>q.
         bind (gets (\<lambda>s. p_pagetable (k_procs s np))) (\<lambda>npt.
         bind (uvmcopy (p_pagetable q) npt (p_sz q)) (\<lambda>r.
         if r < 0 then seq (freeproc np) (seq (release (ProcLock np)) (return (- 1)))
         else
           seq (fork_copy p np) (
           bind (gets (\<lambda>s. p_pid (k_procs s np))) (\<lambda>pid.
           seq (modify (upd_proc np (\<lambda>q. q\<lparr>p_state := RUNNABLE\<rparr>))) (
           bind (gets (\<lambda>s. p_container (k_procs s p))) (\<lambda>cc.
           bind (numproc cc) (\<lambda>n.
           bind (deref_opt cc) (\<lambda>c.
           bind (gets (\<lambda>s. k_conts s c)) (\<lambda>ct.
           if n \<ge> ct_maxproc ct then
             seq (freeproc np) (seq (release (ProcLock np)) (
             seq (printf (Some ''hit max proc for container %s\<newline>'') [VStr (Some (cstr 16 (ct_name ct)))])
             (return (- 1))))
           else
             seq (modify (upd_proc np (\<lambda>q. q\<lparr>p_container := cc\<rparr>))) (
             bind (allocvpid c) (\<lambda>vpid.
             seq (modify (upd_proc np (\<lambda>q. q\<lparr>p_vpid := vpid\<rparr>))) (
             seq (release (ProcLock np)) (return pid)))))))))))))))))"

section \<open>Ending processes\<close>

definition reparent :: "nat \<Rightarrow> unit k" where
  "reparent p =
     for_each [0..<NPROC] (\<lambda>pp.
       bind (gets (\<lambda>s. p_parent (k_procs s pp))) (\<lambda>parent.
       do_when (parent = Some p) (block [
         acquire (ProcLock pp),
         modify (\<lambda>s. upd_proc pp (\<lambda>q. q\<lparr>p_parent := k_initproc s\<rparr>) s),
         release (ProcLock pp)])))"

definition exit_files :: "nat \<Rightarrow> unit k" where
  "exit_files p =
     for_each [0..<NOFILE] (\<lambda>fd.
       bind (gets (\<lambda>s. p_ofile (k_procs s p) fd)) (\<lambda>f.
       case f of
         None \<Rightarrow> return ()
       | Some f \<Rightarrow> seq (fileclose f)
           (modify (upd_proc p (\<lambda>q. q\<lparr>p_ofile := (p_ofile q)(fd := None)\<rparr>)))))"

definition exit :: "int \<Rightarrow> 'a k" where
  "exit status =
     bind myproc (\<lambda>pp.
     bind (gets k_initproc) (\<lambda>ip.
     if pp = as_ptr ip then panic ''init exiting''
     else
       bind (deref pp) (\<lambda>p.
       seq (exit_files p) (
       seq begin_op (
       bind (gets (\<lambda>s. p_cwd (k_procs s p))) (\<lambda>cwd.
       seq (iput cwd) (
       seq end_op (
       seq (modify (upd_proc p (\<lambda>q. q\<lparr>p_cwd := None\<rparr>))) (
       bind (deref_opt ip) (\<lambda>initproc.
       seq (acquire (ProcLock initproc)) (
       seq (wakeup1 initproc) (
       seq (release (ProcLock initproc)) (
       seq (acquire (ProcLock p)) (
       bind (gets (\<lambda>s. p_parent (k_procs s p))) (\<lambda>pa.
       seq (release (ProcLock p)) (
       bind (deref_opt pa) (\<lambda>original_parent.
       seq (acquire (ProcLock original_parent)) (
       seq (acquire (ProcLock p)) (
       seq (reparent p) (
       seq (wakeup1 original_parent) (
       seq (modify (upd_proc p (\<lambda>q. q\<lparr>p_xstate := of_int status, p_state := ZOMBIE\<rparr>))) (
       seq (release (ProcLock original_parent))
       sched))))))))))))))))))))))"

text \<open>The scan of \<open>wait\<close> over its children: a result, or whether there were any.\<close>

definition wait_visit :: "nat \<Rightarrow> u64 \<Rightarrow> nat \<Rightarrow> bool \<Rightarrow> (bool + int) k" where
  "wait_visit p addr np havekids =
     bind (gets (\<lambda>s. p_parent (k_procs s np))) (\<lambda>pa.
     if pa = Some p then
       seq (acquire (ProcLock np)) (
       bind (gets (\<lambda>s. k_procs s np)) (\<lambda>q.
       if p_state q = ZOMBIE then
         bind (if addr \<noteq> 0 then
                 bind (gets (\<lambda>s. p_pagetable (k_procs s p))) (\<lambda>pt.
                 copyout pt addr (le_byte (unat (p_xstate q))) 4)
               else return 0) (\<lambda>r.
         if r < 0 then
           seq (release (ProcLock np)) (seq (release (ProcLock p)) (return (Inr (- 1))))
         else
           seq (freeproc np) (
           seq (release (ProcLock np)) (
           seq (release (ProcLock p)) (return (Inr (p_pid q))))))
       else seq (release (ProcLock np)) (return (Inl True))))
     else return (Inl havekids))"

primrec wait_scan :: "nat \<Rightarrow> u64 \<Rightarrow> nat list \<Rightarrow> bool \<Rightarrow> (bool + int) k" where
  "wait_scan p addr [] havekids = return (Inl havekids)"
| "wait_scan p addr (np # nps) havekids =
     bind (wait_visit p addr np havekids) (\<lambda>r.
     case r of Inl h \<Rightarrow> wait_scan p addr nps h | Inr v \<Rightarrow> return (Inr v))"

text \<open>A turn of the outer loop, which ends in a result or in \<open>sleep\<close>.\<close>

definition wait_loop :: "nat \<Rightarrow> u64 \<Rightarrow> int k" where
  "wait_loop p addr =
     bind (wait_scan p addr [0..<NPROC] False) (\<lambda>r.
     case r of
       Inr v \<Rightarrow> return v
     | Inl havekids \<Rightarrow>
         bind (gets (\<lambda>s. p_killed (k_procs s p))) (\<lambda>killed.
         if \<not> havekids \<or> killed then seq (release (ProcLock p)) (return (- 1))
         else sleep (ChProc p) (ProcLock p)))"

definition wait :: "u64 \<Rightarrow> int k" where
  "wait addr =
     bind myproc (\<lambda>pp. bind (deref pp) (\<lambda>p.
     seq (acquire (ProcLock p)) (wait_loop p addr)))"

definition wait_wake :: "nat \<Rightarrow> bool \<Rightarrow> u64 \<Rightarrow> int k" where
  "wait_wake p intena addr = seq (sleep_return p (ProcLock p) intena) (wait_loop p addr)"

section \<open>Listings\<close>

text \<open>
  \<open>struct proc_info\<close> takes 60 bytes: \<open>pid\<close>, \<open>vpid\<close> and \<open>mem\<close>, then three names of 16
  characters. The \<open>struct ptable\<close> of 64 of them takes 3840 bytes.
\<close>

definition ptable_entry :: "u64 \<Rightarrow> nat \<Rightarrow> nat \<Rightarrow> unit k" where
  "ptable_entry pt count p =
     (let off = of_nat (60 * count) in
      bind (gets (\<lambda>s. k_procs s p)) (\<lambda>q.
      seq (kput_int pt off (p_pid q)) (
      seq (kput_int pt (off + 4) (p_vpid q)) (
      seq (kput_int pt (off + 8) (uint (p_sz q))) (
      seq (kput_str pt (off + 12) (p_name q) 16) (
      seq (if p_pid q = 1 then kput_str pt (off + 28) (\<lambda>_. 0) 16
           else bind (deref_opt (p_parent q)) (\<lambda>pa.
             bind (gets (\<lambda>s. p_name (k_procs s pa))) (\<lambda>nm. kput_str pt (off + 28) nm 16))) (
      bind (deref_opt (p_container q)) (\<lambda>c.
      bind (gets (\<lambda>s. ct_name (k_conts s c))) (\<lambda>nm.
      kput_str pt (off + 44) nm 16)))))))))"

primrec ptable_fill :: "ptr \<Rightarrow> u64 \<Rightarrow> nat \<Rightarrow> nat list \<Rightarrow> nat k" where
  "ptable_fill c pt count [] = return count"
| "ptable_fill c pt count (p # ps) =
     seq (acquire (ProcLock p)) (
     bind (gets (\<lambda>s. k_procs s p)) (\<lambda>q.
     if p_state q \<noteq> UNUSED \<and> (c = Ptr 0 \<or> as_ptr (p_container q) = c) then
       seq (ptable_entry pt count p) (seq (release (ProcLock p)) (ptable_fill c pt (count + 1) ps))
     else seq (release (ProcLock p)) (ptable_fill c pt count ps)))"

definition ptableof :: "ptr \<Rightarrow> (u64 \<times> nat) k" where
  "ptableof c =
     bind kalloc (\<lambda>pt.
     bind (ptable_fill c pt 0 [0..<NPROC]) (\<lambda>sz. return (pt, sz)))"

definition psinfo :: "u64 \<Rightarrow> u64 \<Rightarrow> int k" where
  "psinfo ptable_pt count_pt =
     bind mycont (\<lambda>c.
     bind (ptableof c) (\<lambda>(pt, sz).
     bind myproc (\<lambda>pp. bind (deref pp) (\<lambda>p.
     bind (gets (\<lambda>s. p_pagetable (k_procs s p))) (\<lambda>upt.
     bind (copyout upt count_pt (le_byte sz) 4) (\<lambda>_.
     bind (gets (\<lambda>s. mem_read (k_mem s) pt)) (\<lambda>d.
     bind (copyout upt ptable_pt d 3840) (\<lambda>_.
     seq (kfree pt) (return 0)))))))))"

text \<open>
  \<open>struct container_info\<close> takes 4028 bytes: \<open>name\<close> at 0, \<open>state\<close> at 16, seven integers from
  32, \<open>root\<close> at 60 and the process table at 188.
\<close>

definition ctable_entry :: "u64 \<Rightarrow> nat \<Rightarrow> nat \<Rightarrow> unit k" where
  "ctable_entry ct count c =
     (let off = of_nat (4028 * count) in
      bind (gets (\<lambda>s. k_conts s c)) (\<lambda>q.
      seq (kput_str ct off (ct_name q) 16) (
      seq (kput_str ct (off + 16) (cbytes (case ct_state q of CSUSPENDED \<Rightarrow> ''SUSPENDED''
             | CRUNNING \<Rightarrow> ''RUNNING'' | CUNUSED \<Rightarrow> ''UNKNOWN'')) 16) (
      bind (ptableof (Ptr c)) (\<lambda>(pt, proc_sz).
      seq (for_each [0..<proc_sz] (\<lambda>i.
        bind (gets (\<lambda>s. mem_read (k_mem s) (pt + of_nat (60 * i)))) (\<lambda>d.
        kput ct (off + 188 + of_nat (60 * i)) 60 d))) (
      seq (kfree pt) (
      bind (numproc (Some c)) (\<lambda>n.
      seq (kput_int ct (off + 36) n) (
      bind (gets (\<lambda>s. k_conts s c)) (\<lambda>q.
      seq (kput_int ct (off + 40) (ct_maxproc q)) (
      seq (case strlen (ct_root_dir q) of None \<Rightarrow> spin
           | Some len \<Rightarrow> kput_str ct (off + 60) (ct_root_dir q) len) (
      bind mycont (\<lambda>me.
      seq (kput_int ct (off + 32) (if Ptr c = me then 1 else 0)) (
      seq (kput_int ct (off + 44) (ct_memused q)) (
      seq (kput_int ct (off + 48) (ct_memlimit q)) (
      seq (kput_int ct (off + 52) (ct_diskused q))
      (kput_int ct (off + 56) (ct_disklimit q))))))))))))))))))"

primrec ctable_fill :: "u64 \<Rightarrow> nat \<Rightarrow> nat list \<Rightarrow> nat k" where
  "ctable_fill ct count [] = return count"
| "ctable_fill ct count (c # cs) =
     seq (acquire (ContLock c)) (
     bind (gets (\<lambda>s. ct_state (k_conts s c))) (\<lambda>st.
     if st \<noteq> CUNUSED then
       seq (ctable_entry ct count c) (seq (release (ContLock c)) (ctable_fill ct (count + 1) cs))
     else seq (release (ContLock c)) (ctable_fill ct count cs)))"

definition cinfo :: "u64 \<Rightarrow> u64 \<Rightarrow> int k" where
  "cinfo ctable_pt count_pt =
     bind mycont (\<lambda>me.
     if me \<noteq> Ptr 0 then return (- 1)
     else
       bind kalloc (\<lambda>ct.
       bind (ctable_fill ct 0 [0..<NCONTS]) (\<lambda>count.
       bind myproc (\<lambda>pp. bind (deref pp) (\<lambda>p.
       bind (gets (\<lambda>s. p_pagetable (k_procs s p))) (\<lambda>upt.
       bind (copyout upt count_pt (le_byte count) 4) (\<lambda>_.
       bind (gets (\<lambda>s. mem_read (k_mem s) ct)) (\<lambda>d.
       bind (copyout upt ctable_pt d (4028 * NCONTS)) (\<lambda>_.
       seq (kfree ct) (return 0))))))))))"

end
