(* ===== verification/Xv6_Exec.thy ===== *)
theory Xv6_Exec
  imports Xv6_Proc
begin

text \<open>
  \<open>kernel/exec.c\<close>, and \<open>suspend\<close> and \<open>resume\<close> of \<open>kernel/proc.c\<close>: replacing the memory image
  of a process, from an ELF file or from one written earlier by \<open>suspend\<close>. The headers read
  from the file pass through the local buffer; their fields are read at the offsets of
  \<open>elf.h\<close> and \<open>resumable.h\<close>.
\<close>

section \<open>Exec\<close>

definition ldb64 :: "bytes \<Rightarrow> nat \<Rightarrow> u64" where
  "ldb64 d off = of_nat (le_nat 8 (at d off))"

definition exec_bad :: "u64 \<Rightarrow> u64 \<Rightarrow> nat option \<Rightarrow> int k" where
  "exec_bad pagetable sz ipp =
     seq (do_when (pagetable \<noteq> 0) (proc_freepagetable pagetable sz)) (
     seq (do_when (ipp \<noteq> None) (seq (iunlockput ipp) end_op))
     (return (- 1)))"

text \<open>
  The loop over the program headers: the size reached, and whether all of them were loaded.
  \<open>type\<close>, \<open>off\<close>, \<open>vaddr\<close>, \<open>filesz\<close> and \<open>memsz\<close> of a header are at 0, 8, 16, 32 and 40.
\<close>

definition exec_load :: "u64 \<Rightarrow> nat \<Rightarrow> bytes \<Rightarrow> (bool \<times> u64) k" where
  "exec_load pagetable ip elf =
     loop (2 ^ 16 + 1) (\<lambda>(i :: nat, off :: u32, sz :: u64).
       if i < unat (ld16 elf 56) then
         bind (readi ip (LocalA 0) off 56) (\<lambda>r.
         if r \<noteq> 56 then return (Inr (False, sz))
         else
           bind (gets k_kbuf) (\<lambda>ph.
           if ld32 ph 0 \<noteq> 1 then return (Inl (i + 1, off + 56, sz))
           else if ldb64 ph 40 < ldb64 ph 32 then return (Inr (False, sz))
           else if ldb64 ph 16 + ldb64 ph 40 < ldb64 ph 16 then return (Inr (False, sz))
           else
             bind (uvmalloc pagetable sz (ldb64 ph 16 + ldb64 ph 40)) (\<lambda>sz'.
             if sz' = 0 then return (Inr (False, 0))
             else if ldb64 ph 16 mod PGSIZE \<noteq> 0 then return (Inr (False, sz'))
             else
               bind (loadseg pagetable (ldb64 ph 16) ip (ucast (ldb64 ph 8)) (ucast (ldb64 ph 32))) (\<lambda>r.
               return (if r < 0 then Inr (False, sz') else Inl (i + 1, off + 56, sz'))))))
       else return (Inr (True, sz))) (0, ucast (ldb64 elf 32), 0)"

text \<open>Pushing the argument strings; \<open>None\<close> is a jump to \<open>bad\<close>.\<close>

abbreviation MAXARG :: nat where "MAXARG \<equiv> 32"

primrec exec_push :: "u64 \<Rightarrow> u64 \<Rightarrow> u8 list list \<Rightarrow> u64 \<Rightarrow> u64 list \<Rightarrow> (u64 \<times> u64 list) option k" where
  "exec_push pagetable stackbase [] sp ustack = return (Some (sp, ustack))"
| "exec_push pagetable stackbase (a # args) sp ustack =
     (if length ustack \<ge> MAXARG then return None
      else
        let sp1 = sp - of_nat (length a + 1); sp2 = sp1 - sp1 mod 16 in
        if sp2 < stackbase then return None
        else
          bind (copyout pagetable sp2 (of_bytes a) (length a + 1)) (\<lambda>r.
          if r < 0 then return None
          else exec_push pagetable stackbase args sp2 (ustack @ [sp2])))"

definition words_bytes :: "u64 list \<Rightarrow> bytes" where
  "words_bytes ws = (\<lambda>i. le_byte (unat (ws ! (i div 8))) (i mod 8))"

definition exec_last :: "u8 list \<Rightarrow> u8 list" where
  "exec_last path = rev (takeWhile (\<lambda>c. c \<noteq> slash) (rev path))"

text \<open>The second half of \<open>exec\<close>: the stack, the arguments and the switch to the new image.\<close>

definition exec_start :: "u8 list \<Rightarrow> u8 list list \<Rightarrow> u64 \<Rightarrow> u64 \<Rightarrow> u64 \<Rightarrow> int k" where
  "exec_start path argv pagetable entry sz0 =
     bind myproc (\<lambda>pp. bind (deref pp) (\<lambda>p.
     bind (gets (\<lambda>s. p_sz (k_procs s p))) (\<lambda>oldsz.
     bind (uvmalloc pagetable (PGROUNDUP sz0) (PGROUNDUP sz0 + 2 * PGSIZE)) (\<lambda>sz.
     if sz = 0 then exec_bad pagetable 0 None
     else
       seq (uvmclear pagetable (sz - 2 * PGSIZE)) (
       let stackbase = sz - PGSIZE in
       bind (exec_push pagetable stackbase argv sz []) (\<lambda>r.
       case r of
         None \<Rightarrow> exec_bad pagetable sz None
       | Some (sp, ustack) \<Rightarrow>
           let argc = length ustack; sp1 = sp - of_nat ((argc + 1) * 8); sp2 = sp1 - sp1 mod 16 in
           if sp2 < stackbase then exec_bad pagetable sz None
           else
             bind (copyout pagetable sp2 (words_bytes (ustack @ [0])) ((argc + 1) * 8)) (\<lambda>r.
             if r < 0 then exec_bad pagetable sz None
             else
               seq (tf_set p TF_a1 sp2) (
               seq (modify (upd_proc p (\<lambda>q. q\<lparr>p_name := safestrcpy (p_name q) (of_bytes (exec_last path)) 16\<rparr>))) (
               bind (gets (\<lambda>s. p_pagetable (k_procs s p))) (\<lambda>oldpagetable.
               seq (modify (upd_proc p (\<lambda>q. q\<lparr>p_pagetable := pagetable, p_sz := sz\<rparr>))) (
               seq (tf_set p TF_epc entry) (
               seq (tf_set p TF_sp sp2) (
               seq (proc_freepagetable oldpagetable oldsz)
               (return (int argc)))))))))))))))"

definition exec :: "u8 list \<Rightarrow> u8 list list \<Rightarrow> int k" where
  "exec path argv =
     bind myproc (\<lambda>pp.
     seq begin_op (
     bind (namei path) (\<lambda>ipp.
     case ipp of
       None \<Rightarrow> seq end_op (return (- 1))
     | Some ip \<Rightarrow>
         seq (ilock ipp) (
         bind (readi ip (LocalA 0) 0 64) (\<lambda>r.
         if r \<noteq> 64 then exec_bad 0 0 ipp
         else
           bind (gets k_kbuf) (\<lambda>elf.
           if ld32 elf 0 \<noteq> 0x464C457F then exec_bad 0 0 ipp
           else
             bind (deref pp) (\<lambda>p.
             bind (proc_pagetable p) (\<lambda>pagetable.
             if pagetable = 0 then exec_bad 0 0 ipp
             else
               bind (exec_load pagetable ip elf) (\<lambda>(ok, sz).
               if \<not> ok then exec_bad pagetable sz ipp
               else
                 seq (iunlockput ipp) (
                 seq end_op
                 (exec_start path argv pagetable (ldb64 elf 24) sz)))))))))))"

section \<open>Suspend and resume\<close>

text \<open>\<open>struct resumehdr\<close>: \<open>mem_sz\<close>, \<open>code_sz\<close>, \<open>stack_sz\<close> and \<open>strace\<close>, then the name.\<close>

definition resume_hdr :: "proc \<Rightarrow> bytes" where
  "resume_hdr q =
     overwrite (st32 (st32 (st32 (st32 (\<lambda>_. 0) 0 (ucast (p_sz q)))
       4 (ucast (p_sz q - 2 * PGSIZE))) 8 4096) 12 (ucast (p_strace q)))
       16 16 (strncpy (\<lambda>_. 0) (p_name q) 16)"

text \<open>
  Writing the image of process \<open>p\<close>. The header is a local of \<open>suspend\<close>, at some address of
  the caller's kernel stack; the user pages are written through the page table of \<open>p\<close>, which
  the caller borrows for the two calls.
\<close>

definition suspend_write :: "nat \<Rightarrow> nat \<Rightarrow> unit k" where
  "suspend_write p f =
     bind (gets (\<lambda>s. k_procs s p)) (\<lambda>q.
     bind myproc (\<lambda>pp. bind (deref pp) (\<lambda>me.
     bind (gets (\<lambda>s. k_procs s me)) (\<lambda>m.
     seq (modify (\<lambda>s. s\<lparr>k_kbuf := resume_hdr q\<rparr>)) (
     bind (filewrite_at (\<lambda>a. LocalA (unat (a - p_kstack m))) f (p_kstack m) 32) (\<lambda>_.
     bind (filewritefromkernel f (p_tf q) (int TF_SIZE)) (\<lambda>_.
     seq (modify (\<lambda>s. upd_proc me (\<lambda>m. m\<lparr>p_pagetable := p_pagetable (k_procs s p)\<rparr>) s)) (
     let code_sz = sint (ucast (p_sz q - 2 * PGSIZE) :: u32) in
     bind (filewrite f 0 code_sz) (\<lambda>_.
     bind (filewrite f (of_int (code_sz + 4096)) 4096) (\<lambda>_.
     modify (upd_proc me (\<lambda>m'. m'\<lparr>p_pagetable := p_pagetable m\<rparr>))))))))))))"

definition suspend :: "int \<Rightarrow> nat \<Rightarrow> int k" where
  "suspend pid f =
     bind (for_ret [0..<NPROC] (\<lambda>p.
       seq (acquire (ProcLock p)) (
       bind (gets (\<lambda>s. p_pid (k_procs s p))) (\<lambda>ppid.
       if ppid = pid then
         seq (modify (upd_proc p (\<lambda>q. q\<lparr>p_state := SUSPENDED\<rparr>))) (
         seq (release (ProcLock p)) (
         seq (suspend_write p f) (return (Some ()))))
       else seq (release (ProcLock p)) (return None))))) (\<lambda>r.
     return (if r = None then - 1 else 0))"

definition resume_bad :: "u64 \<Rightarrow> u64 \<Rightarrow> nat option \<Rightarrow> int k" where
  "resume_bad pagetable sz ipp =
     seq (do_when (pagetable \<noteq> 0) (proc_freepagetable pagetable sz)) (
     seq (do_when (ipp \<noteq> None) (seq (iunlockput ipp) end_op))
     (return (- 1)))"

text \<open>\<open>resume\<close> from the point where the header and the trapframe have been read.\<close>

definition resume_image :: "nat \<Rightarrow> nat \<Rightarrow> bytes \<Rightarrow> u64 \<Rightarrow> u64 \<Rightarrow> int k" where
  "resume_image p ip hdr oldpagetable oldsz =
     (let code_sz = ld32 hdr 4; offset = 32 + of_nat TF_SIZE :: u32 in
      bind (proc_pagetable p) (\<lambda>pagetable.
      if pagetable = 0 then resume_bad 0 0 (Some ip)
      else
        bind (uvmalloc pagetable 0 (scast code_sz)) (\<lambda>sz.
        if sz = 0 then resume_bad pagetable 0 (Some ip)
        else
          bind (loadseg pagetable 0 ip offset code_sz) (\<lambda>r.
          if r < 0 then resume_bad pagetable sz (Some ip)
          else
            let sz1 = PGROUNDUP sz in
            bind (uvmalloc pagetable sz1 (sz1 + 2 * PGSIZE)) (\<lambda>sz2.
            if sz2 = 0 then resume_bad pagetable 0 (Some ip)
            else
              seq (uvmclear pagetable sz1) (
              bind (loadseg pagetable (sz1 + PGSIZE) ip (offset + code_sz) (ld32 hdr 8)) (\<lambda>r.
              if r < 0 then resume_bad pagetable sz2 (Some ip)
              else
                seq (case strlen (at hdr 16) of None \<Rightarrow> spin
                     | Some len \<Rightarrow> modify (upd_proc p (\<lambda>q. q\<lparr>p_name := safestrcpy (p_name q) (at hdr 16) (len + 1)\<rparr>))) (
                seq (modify (upd_proc p (\<lambda>q. q\<lparr>p_sz := scast (ld32 hdr 0), p_strace := scast (ld32 hdr 12),
                  p_pagetable := pagetable\<rparr>))) (
                seq (proc_freepagetable oldpagetable oldsz) (
                seq (iunlockput (Some ip)) (
                seq end_op (return 1))))))))))))"

definition resume :: "u8 list \<Rightarrow> int k" where
  "resume filename =
     bind myproc (\<lambda>pp. bind (deref pp) (\<lambda>p.
     bind (gets (\<lambda>s. k_procs s p)) (\<lambda>q.
     seq begin_op (
     bind (namei filename) (\<lambda>ipp.
     case ipp of
       None \<Rightarrow> seq end_op (return (- 1))
     | Some ip \<Rightarrow>
         seq (ilock ipp) (
         bind (readi ip (LocalA 0) 0 32) (\<lambda>r.
         if r \<noteq> 32 then resume_bad 0 0 ipp
         else
           bind (gets k_kbuf) (\<lambda>hdr.
           bind (readi ip (KernA (p_tf q)) 32 (of_nat TF_SIZE)) (\<lambda>r.
           if 0 \<le> r \<and> r < int TF_SIZE then resume_bad 0 0 ipp
           else resume_image p ip hdr (p_pagetable q) (p_sz q))))))))))"

end
