(* ===== verification/Xv6_Sysproc.thy ===== *)
theory Xv6_Sysproc
  imports Xv6_Exec
begin

text \<open>
  The arguments of system calls, \<open>kernel/syscall.c\<close>, and the process system calls,
  \<open>kernel/sysproc.c\<close>. A system call takes its arguments from the registers saved in the
  trapframe and returns the value for register \<open>a0\<close>. An uninitialised local holds whatever
  \<open>k_kbuf\<close> has.
\<close>

section \<open>Fetching arguments\<close>

definition curproc :: "nat k" where
  "curproc = bind myproc deref"

definition fetchaddr :: "u64 \<Rightarrow> u64 option k" where
  "fetchaddr addr =
     bind curproc (\<lambda>p.
     bind (gets (\<lambda>s. k_procs s p)) (\<lambda>q.
     if addr \<ge> p_sz q \<or> addr + 8 > p_sz q then return None
     else
       bind (copyin (p_pagetable q) (\<lambda>_. 0) addr 8) (\<lambda>(r, d).
       return (if r \<noteq> 0 then None else Some (ldb64 d 0)))))"

definition fetchstr :: "u64 \<Rightarrow> bytes \<Rightarrow> nat \<Rightarrow> (int \<times> bytes) k" where
  "fetchstr addr buf maxlen =
     bind curproc (\<lambda>p.
     bind (gets (\<lambda>s. p_pagetable (k_procs s p))) (\<lambda>pt.
     bind (copyinstr pt buf addr maxlen) (\<lambda>(err, buf').
     if err < 0 then return (err, buf')
     else case strlen buf' of None \<Rightarrow> spin | Some n \<Rightarrow> return (int n, buf'))))"

definition argraw :: "nat \<Rightarrow> u64 k" where
  "argraw n =
     bind curproc (\<lambda>p.
     if n \<le> 5 then tf_get p (TF_a0 + 8 * of_nat n) else panic ''argraw'')"

definition argint :: "nat \<Rightarrow> int k" where
  "argint n = bind (argraw n) (\<lambda>v. return (sint (ucast v :: u32)))"

definition argaddr :: "nat \<Rightarrow> u64 k" where
  "argaddr n = argraw n"

definition argstr :: "nat \<Rightarrow> nat \<Rightarrow> (int \<times> bytes) k" where
  "argstr n maxlen =
     bind (argaddr n) (\<lambda>addr.
     bind (gets k_kbuf) (\<lambda>buf. fetchstr addr buf maxlen))"

text \<open>The line a traced process prints.\<close>

definition strace_print :: "string \<Rightarrow> varg list \<Rightarrow> unit k" where
  "strace_print fmt args =
     bind curproc (\<lambda>p.
     bind (gets (\<lambda>s. k_procs s p)) (\<lambda>q.
     do_when (p_strace q = 1) (printf (Some fmt) (VInt (of_int (p_pid q)) # args))))"

section \<open>Process system calls\<close>

definition sys_exit :: "u64 k" where
  "sys_exit =
     bind (gets (\<lambda>s. ld32 (k_kbuf s) 0)) (\<lambda>junk.
     seq (strace_print ''[%d] sys_exit(%d)\<newline>'' [VInt junk]) (
     bind (argint 0) (\<lambda>n. exit n)))"

definition sys_getpid :: "u64 k" where
  "sys_getpid =
     seq (strace_print ''[%d] sys_getpid()\<newline>'' []) (
     bind curproc (\<lambda>p. gets (\<lambda>s. of_int (p_pid (k_procs s p)))))"

definition sys_fork :: "u64 k" where
  "sys_fork =
     seq (strace_print ''[%d] sys_fork()\<newline>'' []) (
     bind fork (\<lambda>r. return (of_int r)))"

definition sys_wait :: "u64 k" where
  "sys_wait =
     seq (strace_print ''[%d] sys_wait()\<newline>'' []) (
     bind (argaddr 0) (\<lambda>p.
     bind (wait p) (\<lambda>r. return (of_int r))))"

definition sys_sbrk :: "u64 k" where
  "sys_sbrk =
     bind (argint 0) (\<lambda>n.
     seq (strace_print ''[%d] sys_sbrk(%d)\<newline>'' [VInt (of_int n)]) (
     bind curproc (\<lambda>p.
     bind (gets (\<lambda>s. ucast (p_sz (k_procs s p)) :: u32)) (\<lambda>addr.
     bind (growproc n) (\<lambda>r.
     return (if r < 0 then - 1 else scast addr))))))"

text \<open>The loop of \<open>sys_sleep\<close>, entered with \<open>tickslock\<close> held; the comparison is unsigned.\<close>

definition sys_sleep_loop :: "u32 \<Rightarrow> int \<Rightarrow> u64 k" where
  "sys_sleep_loop ticks0 n =
     bind (gets k_ticks) (\<lambda>ticks.
     if ticks - ticks0 < of_int n then
       bind curproc (\<lambda>p.
       bind (gets (\<lambda>s. p_killed (k_procs s p))) (\<lambda>killed.
       if killed then seq (release TicksLock) (return (- 1))
       else sleep ChTicks TicksLock))
     else seq (release TicksLock) (return 0))"

definition sys_sleep :: "u64 k" where
  "sys_sleep =
     bind (argint 0) (\<lambda>n.
     seq (strace_print ''[%d] sys_sleep(%d)\<newline>'' [VInt (of_int n)]) (
     seq (acquire TicksLock) (
     bind (gets k_ticks) (\<lambda>ticks0. sys_sleep_loop ticks0 n))))"

definition sys_sleep_wake :: "nat \<Rightarrow> bool \<Rightarrow> u32 \<Rightarrow> int \<Rightarrow> u64 k" where
  "sys_sleep_wake p intena ticks0 n =
     seq (sleep_return p TicksLock intena) (sys_sleep_loop ticks0 n)"

definition sys_kill :: "u64 k" where
  "sys_kill =
     bind (argint 0) (\<lambda>pid.
     seq (strace_print ''[%d] sys_kill(%d)\<newline>'' [VInt (of_int pid)]) (
     bind (kill pid) (\<lambda>r. return (of_int r))))"

definition sys_uptime :: "u64 k" where
  "sys_uptime =
     seq (strace_print ''[%d] sys_uptime()\<newline>'' []) (
     seq (acquire TicksLock) (
     bind (gets k_ticks) (\<lambda>xticks.
     seq (release TicksLock) (return (ucast xticks)))))"

definition sys_psinfo :: "u64 k" where
  "sys_psinfo =
     bind (argaddr 0) (\<lambda>ptable_pt.
     bind (argaddr 1) (\<lambda>count.
     bind (psinfo ptable_pt count) (\<lambda>_. return 0)))"

definition sys_cinfo :: "u64 k" where
  "sys_cinfo =
     bind (argaddr 0) (\<lambda>ctable_pt.
     bind (argaddr 1) (\<lambda>count.
     bind (cinfo ctable_pt count) (\<lambda>r. return (of_int r))))"

definition sys_cinit :: "u64 k" where
  "sys_cinit =
     bind (argstr 0 16) (\<lambda>(_, name).
     bind (argstr 1 MAXPATH) (\<lambda>(_, path).
     bind (argint 2) (\<lambda>max_proc.
     bind (argint 3) (\<lambda>max_page.
     bind (argint 4) (\<lambda>max_disk.
     bind curproc (\<lambda>p.
     bind (cinit p (cstr 16 name) (cstr MAXPATH path) max_proc max_page max_disk) (\<lambda>r.
     return (of_int r))))))))"

definition sys_cpause :: "u64 k" where
  "sys_cpause = bind (argstr 0 16) (\<lambda>(_, name). bind (cpause (cstr 16 name)) (\<lambda>r. return (of_int r)))"

definition sys_cresume :: "u64 k" where
  "sys_cresume = bind (argstr 0 16) (\<lambda>(_, name). bind (cresume (cstr 16 name)) (\<lambda>r. return (of_int r)))"

definition sys_cstop :: "u64 k" where
  "sys_cstop = bind (argstr 0 16) (\<lambda>(_, name). bind (cstop (cstr 16 name)) (\<lambda>r. return (of_int r)))"

end
