(* ===== verification/Xv6_Sysfile.thy ===== *)
theory Xv6_Sysfile
  imports Xv6_Sysproc
begin

text \<open>
  \<open>kernel/sysfile.c\<close>: the system calls on files, directories and programs. A path or name
  argument is the C string in the buffer \<open>argstr\<close> filled.
\<close>

section \<open>Descriptors\<close>

definition argfd :: "nat \<Rightarrow> (nat \<times> nat) option k" where
  "argfd n =
     bind (argint n) (\<lambda>fd.
     if fd < 0 \<or> fd \<ge> int NOFILE then return None
     else
       bind curproc (\<lambda>p.
       bind (gets (\<lambda>s. p_ofile (k_procs s p) (nat fd))) (\<lambda>f.
       return (case f of None \<Rightarrow> None | Some f \<Rightarrow> Some (nat fd, f)))))"

definition fdalloc :: "nat \<Rightarrow> int k" where
  "fdalloc f =
     bind curproc (\<lambda>p.
     bind (gets (\<lambda>s. find (\<lambda>fd. p_ofile (k_procs s p) fd = None) [0..<NOFILE])) (\<lambda>r.
     case r of
       None \<Rightarrow> return (- 1)
     | Some fd \<Rightarrow>
         seq (modify (upd_proc p (\<lambda>q. q\<lparr>p_ofile := (p_ofile q)(fd := Some f)\<rparr>)))
         (return (int fd))))"

text \<open>Clearing a descriptor.\<close>

definition clear_fd :: "nat \<Rightarrow> nat \<Rightarrow> unit k" where
  "clear_fd p fd = modify (upd_proc p (\<lambda>q. q\<lparr>p_ofile := (p_ofile q)(fd := None)\<rparr>))"

definition sys_dup :: "u64 k" where
  "sys_dup =
     bind (argint 0) (\<lambda>fd_id.
     seq (strace_print ''[%d] sys_dup(%d)\<newline>'' [VInt (of_int fd_id)]) (
     bind (argfd 0) (\<lambda>r.
     case r of
       None \<Rightarrow> return (- 1)
     | Some (_, f) \<Rightarrow>
         bind (fdalloc f) (\<lambda>fd.
         if fd < 0 then return (- 1)
         else bind (filedup f) (\<lambda>_. return (of_int fd))))))"

definition sys_read :: "u64 k" where
  "sys_read =
     bind (argint 0) (\<lambda>fd.
     bind (gets k_kbuf) (\<lambda>junk.
     seq (strace_print ''[%d] sys_read(%d, %p, %d)\<newline>'' [VInt (of_int fd), VLong (ldb64 junk 0), VInt (ld32 junk 8)]) (
     bind (argfd 0) (\<lambda>r.
     case r of
       None \<Rightarrow> return (- 1)
     | Some (_, f) \<Rightarrow>
         bind (argint 2) (\<lambda>n.
         bind (argaddr 1) (\<lambda>p.
         bind (fileread f p n) (\<lambda>r. return (of_int r))))))))"

text \<open>
  \<open>sys_write\<close> first copies the string at its second argument to a local array of as many
  characters as its third argument says, for the trace.
\<close>

definition sys_write :: "u64 k" where
  "sys_write =
     bind (argint 2) (\<lambda>n.
     bind (argint 0) (\<lambda>fd.
     bind (argstr 1 (unat (of_int n :: u64))) (\<lambda>(_, str).
     seq (strace_print ''[%d] sys_write(%d, \"%s\", %d)\<newline>''
       [VInt (of_int fd), VStr (Some (if str 0 = 10 then [92, 110] else cstr (nat n) str)), VInt (of_int n)]) (
     bind (argfd 0) (\<lambda>r.
     case r of
       None \<Rightarrow> return (- 1)
     | Some (_, f) \<Rightarrow>
         bind (argint 2) (\<lambda>n.
         bind (argaddr 1) (\<lambda>p.
         bind (filewrite f p n) (\<lambda>r. return (of_int r)))))))))"

definition sys_close :: "u64 k" where
  "sys_close =
     bind (argfd 0) (\<lambda>r.
     bind (gets (\<lambda>s. ld32 (k_kbuf s) 0)) (\<lambda>junk.
     seq (strace_print ''[%d] sys_close(%d)\<newline>'' [VInt (case r of None \<Rightarrow> junk | Some (fd, _) \<Rightarrow> of_nat fd)]) (
     case r of
       None \<Rightarrow> return (- 1)
     | Some (fd, f) \<Rightarrow>
         bind curproc (\<lambda>p.
         seq (clear_fd p fd) (
         seq (fileclose f) (return 0))))))"

definition sys_fstat :: "u64 k" where
  "sys_fstat =
     bind (argint 0) (\<lambda>fd.
     seq (strace_print ''[%d] sys_fstat(%d)\<newline>'' [VInt (of_int fd)]) (
     bind (argfd 0) (\<lambda>r.
     case r of
       None \<Rightarrow> return (- 1)
     | Some (_, f) \<Rightarrow>
         bind (argaddr 1) (\<lambda>st.
         bind (filestat f st) (\<lambda>r. return (of_int r))))))"

section \<open>Links\<close>

definition add_nlink :: "nat \<Rightarrow> u16 \<Rightarrow> unit k" where
  "add_nlink ip d = seq (modify (upd_inode ip (\<lambda>i. i\<lparr>i_nlink := i_nlink i + d\<rparr>))) (iupdate ip)"

definition link_bad :: "nat \<Rightarrow> u64 k" where
  "link_bad ip =
     seq (ilock (Some ip)) (
     seq (add_nlink ip (- 1)) (
     seq (iunlockput (Some ip)) (
     seq end_op (return (- 1)))))"

definition link_new :: "nat \<Rightarrow> u8 list \<Rightarrow> u64 k" where
  "link_new ip new =
     bind (gets k_kbuf) (\<lambda>junk.
     bind (nameiparent new junk) (\<lambda>(dpp, name).
     case dpp of
       None \<Rightarrow> link_bad ip
     | Some dp \<Rightarrow>
         seq (ilock dpp) (
         bind (gets (\<lambda>s. i_dev (k_inodes s dp) \<noteq> i_dev (k_inodes s ip))) (\<lambda>other.
         bind (gets (\<lambda>s. i_inum (k_inodes s ip))) (\<lambda>inum.
         bind (if other then return (- 1) else dirlink dp name inum) (\<lambda>r.
         if r < 0 then seq (iunlockput dpp) (link_bad ip)
         else
           seq (iunlockput dpp) (
           seq (iput (Some ip)) (
           seq end_op (return 0)))))))))"

definition sys_link :: "u64 k" where
  "sys_link =
     bind (argstr 0 MAXPATH) (\<lambda>(s1, old).
     bind (argstr 1 MAXPATH) (\<lambda>(s2, new).
     seq (strace_print ''[%d] sys_link(\"%s\", \"%s\")\<newline>''
       [VStr (Some (cstr MAXPATH old)), VStr (Some (cstr MAXPATH new))]) (
     if s1 < 0 \<or> s2 < 0 then return (- 1)
     else
       seq begin_op (
       bind (namei (cstr MAXPATH old)) (\<lambda>ipp.
       case ipp of
         None \<Rightarrow> seq end_op (return (- 1))
       | Some ip \<Rightarrow>
           seq (ilock ipp) (
           bind (gets (\<lambda>s. i_type (k_inodes s ip))) (\<lambda>t.
           if t = T_DIR then seq (iunlockput ipp) (seq end_op (return (- 1)))
           else
             seq (add_nlink ip 1) (
             seq (iunlock ipp)
             (link_new ip (cstr MAXPATH new))))))))))"

definition isdirempty :: "nat \<Rightarrow> bool k" where
  "isdirempty dp =
     loop (2 ^ 28 + 1) (\<lambda>off :: u32.
       bind (gets (\<lambda>s. i_size (k_inodes s dp))) (\<lambda>sz.
       if off < sz then
         bind (readi dp (LocalA 0) off 16) (\<lambda>r.
         if r \<noteq> 16 then panic ''isdirempty: readi''
         else
           bind (gets (\<lambda>s. ld16 (k_kbuf s) 0)) (\<lambda>inum.
           return (if inum \<noteq> 0 then Inr False else Inl (off + 16))))
       else return (Inr True))) 32"

definition unlink_bad :: "nat \<Rightarrow> u64 k" where
  "unlink_bad dp = seq (iunlockput (Some dp)) (seq end_op (return (- 1)))"

definition unlink_entry :: "nat \<Rightarrow> nat \<Rightarrow> u32 \<Rightarrow> u64 k" where
  "unlink_entry dp ip off =
     seq (ilock (Some ip)) (
     bind (gets (\<lambda>s. k_inodes s ip)) (\<lambda>i.
     if sint (i_nlink i) < 1 then panic ''unlink: nlink < 1''
     else
       bind (if i_type i = T_DIR then isdirempty ip else return True) (\<lambda>empty.
       if \<not> empty then seq (iunlockput (Some ip)) (unlink_bad dp)
       else
         seq (modify (\<lambda>s. s\<lparr>k_kbuf := overwrite (k_kbuf s) 0 16 (\<lambda>_. 0)\<rparr>)) (
         bind (writei dp (LocalA 0) off 16) (\<lambda>w.
         if w \<noteq> 16 then panic ''unlink: writei''
         else
           seq (do_when (i_type i = T_DIR) (add_nlink dp (- 1))) (
           seq (iunlockput (Some dp)) (
           seq (add_nlink ip (- 1)) (
           seq (iunlockput (Some ip)) (
           seq end_op (return 0))))))))))"

definition sys_unlink :: "u64 k" where
  "sys_unlink =
     bind (argstr 0 MAXPATH) (\<lambda>(status, path).
     seq (strace_print ''[%d] sys_unlink(\"%s\")\<newline>'' [VStr (Some (cstr MAXPATH path))]) (
     if status < 0 then return (- 1)
     else
       seq begin_op (
       bind (gets k_kbuf) (\<lambda>junk.
       bind (nameiparent (cstr MAXPATH path) junk) (\<lambda>(dpp, name).
       case dpp of
         None \<Rightarrow> seq end_op (return (- 1))
       | Some dp \<Rightarrow>
           seq (ilock dpp) (
           if namecmp name (cbytes ''.'') = 0 \<or> namecmp name (cbytes ''..'') = 0 then unlink_bad dp
           else
             bind (dirlookup dp name) (\<lambda>r.
             case r of
               None \<Rightarrow> unlink_bad dp
             | Some (ip, off) \<Rightarrow> unlink_entry dp ip off)))))))"

section \<open>Creating and opening files\<close>

definition create_new :: "nat \<Rightarrow> bytes \<Rightarrow> u16 \<Rightarrow> u16 \<Rightarrow> u16 \<Rightarrow> nat option k" where
  "create_new dp name type major minor =
     bind (gets (\<lambda>s. i_dev (k_inodes s dp))) (\<lambda>dev.
     bind (ialloc dev type) (\<lambda>ip.
     seq (ilock (Some ip)) (
     seq (modify (upd_inode ip (\<lambda>i. i\<lparr>i_major := major, i_minor := minor, i_nlink := 1\<rparr>))) (
     seq (iupdate ip) (
     bind (gets (\<lambda>s. (i_inum (k_inodes s ip), i_inum (k_inodes s dp)))) (\<lambda>(inum, dinum).
     seq (do_when (type = T_DIR) (
       seq (add_nlink dp 1) (
       bind (dirlink ip (cbytes ''.'') inum) (\<lambda>r1.
       bind (if r1 < 0 then return r1 else dirlink ip (cbytes ''..'') dinum) (\<lambda>r2.
       do_when (r2 < 0) (panic ''create dots'')))))) (
     bind (dirlink dp name inum) (\<lambda>r.
     seq (do_when (r < 0) (panic ''create: dirlink'')) (
     seq (iunlockput (Some dp)) (return (Some ip)))))))))))"

definition create :: "u8 list \<Rightarrow> u16 \<Rightarrow> u16 \<Rightarrow> u16 \<Rightarrow> nat option k" where
  "create path type major minor =
     bind (gets k_kbuf) (\<lambda>junk.
     bind (nameiparent path junk) (\<lambda>(dpp, name).
     case dpp of
       None \<Rightarrow> return None
     | Some dp \<Rightarrow>
         seq (ilock dpp) (
         bind (dirlookup dp name) (\<lambda>r.
         case r of
           Some (ip, _) \<Rightarrow>
             seq (iunlockput dpp) (
             seq (ilock (Some ip)) (
             bind (gets (\<lambda>s. i_type (k_inodes s ip))) (\<lambda>t.
             if type = T_FILE \<and> (t = T_FILE \<or> t = T_DEVICE) then return (Some ip)
             else seq (iunlockput (Some ip)) (return None))))
         | None \<Rightarrow> create_new dp name type major minor))))"

abbreviation O_WRONLY :: u32 where "O_WRONLY \<equiv> 1"
abbreviation O_RDWR :: u32 where "O_RDWR \<equiv> 2"
abbreviation O_CREATE :: u32 where "O_CREATE \<equiv> 0x200"

text \<open>The inode to open, locked: \<open>None\<close> when \<open>sys_open\<close> ends the transaction and fails.\<close>

definition open_inode :: "u8 list \<Rightarrow> u32 \<Rightarrow> nat option k" where
  "open_inode path omode =
     (if omode AND O_CREATE \<noteq> 0 then create path T_FILE 0 0
      else
        bind (namei path) (\<lambda>ipp.
        case ipp of
          None \<Rightarrow> return None
        | Some ip \<Rightarrow>
            seq (ilock ipp) (
            bind (gets (\<lambda>s. i_type (k_inodes s ip))) (\<lambda>t.
            if t = T_DIR \<and> omode \<noteq> 0 then seq (iunlockput ipp) (return None)
            else return ipp))))"

definition open_file :: "nat \<Rightarrow> u32 \<Rightarrow> u64 k" where
  "open_file ip omode =
     bind filealloc (\<lambda>fp.
     bind (case fp of None \<Rightarrow> return (- 1) | Some f \<Rightarrow> fdalloc f) (\<lambda>fd.
     case fp of
       None \<Rightarrow> seq (iunlockput (Some ip)) (seq end_op (return (- 1)))
     | Some f \<Rightarrow>
         if fd < 0 then
           seq (fileclose f) (seq (iunlockput (Some ip)) (seq end_op (return (- 1))))
         else
           bind (gets (\<lambda>s. k_inodes s ip)) (\<lambda>i.
           seq (if i_type i = T_DEVICE
                then modify (upd_file f (\<lambda>q. q\<lparr>f_type := FD_DEVICE, f_major := i_major i\<rparr>))
                else modify (upd_file f (\<lambda>q. q\<lparr>f_type := FD_INODE, f_off := 0\<rparr>))) (
           seq (modify (upd_file f (\<lambda>q. q\<lparr>f_ip := Some ip, f_readable := (omode AND O_WRONLY = 0),
             f_writable := (omode AND O_WRONLY \<noteq> 0 \<or> omode AND O_RDWR \<noteq> 0)\<rparr>))) (
           seq (iunlock (Some ip)) (
           seq end_op (return (of_int fd))))))))"

definition sys_open :: "u64 k" where
  "sys_open =
     bind (argstr 0 MAXPATH) (\<lambda>(n, path).
     bind (argint 1) (\<lambda>omode.
     seq (strace_print ''[%d] sys_open(\"%s\", %d)\<newline>'' [VStr (Some (cstr MAXPATH path)), VInt (of_int omode)]) (
     if n < 0 then return (- 1)
     else
       seq begin_op (
       bind (open_inode (cstr MAXPATH path) (of_int omode)) (\<lambda>ipp.
       case ipp of
         None \<Rightarrow> seq end_op (return (- 1))
       | Some ip \<Rightarrow>
           bind (gets (\<lambda>s. k_inodes s ip)) (\<lambda>i.
           if i_type i = T_DEVICE \<and> (sint (i_major i) < 0 \<or> sint (i_major i) \<ge> int NDEV) then
             seq (iunlockput ipp) (seq end_op (return (- 1)))
           else open_file ip (of_int omode)))))))"

text \<open>The end that \<open>sys_mkdir\<close> and \<open>sys_mknod\<close> share.\<close>

definition create_done :: "nat option \<Rightarrow> u64 k" where
  "create_done ipp =
     (if ipp = None then seq end_op (return (- 1))
      else seq (iunlockput ipp) (seq end_op (return 0)))"

definition sys_mkdir :: "u64 k" where
  "sys_mkdir =
     bind (argstr 0 MAXPATH) (\<lambda>(status, path).
     seq (strace_print ''[%d] sys_mkdir(\"%s\")\<newline>'' [VStr (Some (cstr MAXPATH path))]) (
     seq begin_op (
     bind (if status < 0 then return None else create (cstr MAXPATH path) T_DIR 0 0) create_done)))"

definition sys_mknod :: "u64 k" where
  "sys_mknod =
     bind (argint 1) (\<lambda>major.
     bind (argint 2) (\<lambda>minor.
     bind (argstr 0 MAXPATH) (\<lambda>(s3, path).
     seq (strace_print ''[%d] sys_mknod(\"%s\", %d, %d)\<newline>''
       [VStr (Some (cstr MAXPATH path)), VInt (of_int major), VInt (of_int minor)]) (
     seq begin_op (
     bind (if s3 < 0 then return None
           else create (cstr MAXPATH path) T_DEVICE (of_int major) (of_int minor)) create_done)))))"

definition sys_chdir :: "u64 k" where
  "sys_chdir =
     bind curproc (\<lambda>p.
     bind (argstr 0 MAXPATH) (\<lambda>(status, path).
     seq (strace_print ''[%d] sys_chdir(%s)\<newline>'' [VStr (Some (cstr MAXPATH path))]) (
     seq begin_op (
     bind (if status < 0 then return None else namei (cstr MAXPATH path)) (\<lambda>ipp.
     case ipp of
       None \<Rightarrow> seq end_op (return (- 1))
     | Some ip \<Rightarrow>
         seq (ilock ipp) (
         bind (gets (\<lambda>s. i_type (k_inodes s ip))) (\<lambda>t.
         if t \<noteq> T_DIR then seq (iunlockput ipp) (seq end_op (return (- 1)))
         else
           seq (iunlock ipp) (
           bind (gets (\<lambda>s. p_cwd (k_procs s p))) (\<lambda>cwd.
           seq (iput cwd) (
           seq end_op (
           seq (modify (upd_proc p (\<lambda>q. q\<lparr>p_cwd := ipp\<rparr>))) (return 0))))))))))))"

section \<open>Programs and pipes\<close>

text \<open>Fetching the argument vector: the pages of the strings, and whether it went well.\<close>

definition exec_args :: "u64 \<Rightarrow> (bool \<times> u64 list) k" where
  "exec_args uargv =
     loop (MAXARG + 2) (\<lambda>argv.
       if length argv \<ge> MAXARG then return (Inr (False, argv))
       else
         bind (fetchaddr (uargv + 8 * of_nat (length argv))) (\<lambda>r.
         case r of
           None \<Rightarrow> return (Inr (False, argv))
         | Some uarg \<Rightarrow>
             if uarg = 0 then return (Inr (True, argv))
             else
               bind kalloc (\<lambda>page.
               if page = 0 then panic ''sys_exec kalloc''
               else
                 bind (gets (\<lambda>s. mem_read (k_mem s) page)) (\<lambda>d.
                 bind (fetchstr uarg d 4096) (\<lambda>(n, d').
                 seq (modify (\<lambda>s. s\<lparr>k_mem := mem_write (k_mem s) page 4096 d'\<rparr>))
                 (return (if n < 0 then Inr (False, argv @ [page]) else Inl (argv @ [page])))))))) []"

definition sys_exec :: "u64 k" where
  "sys_exec =
     bind (argstr 1 MAXPATH) (\<lambda>(_, str).
     bind (argstr 0 MAXPATH) (\<lambda>(s1, path).
     bind (argaddr 1) (\<lambda>uargv.
     seq (strace_print ''[%d] sys_exec(\"%s\", \"%s\")\<newline>''
       [VStr (Some (cstr MAXPATH path)), VStr (Some (cstr MAXPATH str))]) (
     if s1 < 0 then return (- 1)
     else
       bind (exec_args uargv) (\<lambda>(ok, argv).
       bind (if ok then
               bind (gets (\<lambda>s. map (\<lambda>page. cstr 4096 (mem_read (k_mem s) page)) argv)) (\<lambda>strs.
               exec (cstr MAXPATH path) strs)
             else return (- 1)) (\<lambda>ret.
       seq (for_each argv kfree) (return (of_int ret))))))))"

definition sys_pipe :: "u64 k" where
  "sys_pipe =
     bind curproc (\<lambda>p.
     bind (argaddr 0) (\<lambda>fdarray.
     seq (strace_print ''[%d] sys_pipe(%d)\<newline>'' [VLong fdarray]) (
     bind pipealloc (\<lambda>r.
     case r of
       None \<Rightarrow> return (- 1)
     | Some (rfile, wfile) \<Rightarrow>
         bind (fdalloc rfile) (\<lambda>fd0.
         bind (if fd0 < 0 then return (- 1) else fdalloc wfile) (\<lambda>fd1.
         if fd0 < 0 \<or> fd1 < 0 then
           seq (do_when (fd0 \<ge> 0) (clear_fd p (nat fd0))) (
           seq (fileclose rfile) (seq (fileclose wfile) (return (- 1))))
         else
           bind (gets (\<lambda>s. p_pagetable (k_procs s p))) (\<lambda>pt.
           bind (copyout pt fdarray (le_byte (nat fd0)) 4) (\<lambda>r0.
           bind (if r0 < 0 then return r0 else copyout pt (fdarray + 4) (le_byte (nat fd1)) 4) (\<lambda>r1.
           if r1 < 0 then
             seq (clear_fd p (nat fd0)) (
             seq (clear_fd p (nat fd1)) (
             seq (fileclose rfile) (
             seq (fileclose wfile) (return (- 1)))))
           else return 0)))))))))"

definition sys_traceon :: "u64 k" where
  "sys_traceon =
     bind curproc (\<lambda>p.
     bind (gets (\<lambda>s. p_strace (k_procs s p))) (\<lambda>st.
     seq (do_when (st = 0) (modify (upd_proc p (\<lambda>q. q\<lparr>p_strace := 1\<rparr>)))) (return 0)))"

definition sys_suspend :: "u64 k" where
  "sys_suspend =
     bind (argint 0) (\<lambda>pid.
     bind (argfd 1) (\<lambda>r.
     case r of
       None \<Rightarrow> return (- 1)
     | Some (_, fp) \<Rightarrow> bind (suspend pid fp) (\<lambda>rv. return (of_int rv))))"

definition sys_resume :: "u64 k" where
  "sys_resume =
     bind (argstr 0 MAXPATH) (\<lambda>(n, path).
     if n < 0 then return (- 1)
     else bind (resume (cstr MAXPATH path)) (\<lambda>_. return 0))"

end
