(* ===== verification/Xv6_Virtio.thy ===== *)
theory Xv6_Virtio
  imports Xv6_Sysfile
begin

text \<open>
  \<open>kernel/virtio_disk.c\<close>: the disk driver. Requests go to the device as chains of three
  descriptors; the caller sleeps until the interrupt handler finds the chain in the used
  ring.
\<close>

section \<open>Definitions\<close>

abbreviation NUM :: nat where "NUM \<equiv> 8"
abbreviation VIRTIO0 :: u64 where "VIRTIO0 \<equiv> 0x10001000"
abbreviation VRING_DESC_F_NEXT :: u16 where "VRING_DESC_F_NEXT \<equiv> 1"
abbreviation VRING_DESC_F_WRITE :: u16 where "VRING_DESC_F_WRITE \<equiv> 2"

definition upd_vdisk :: "(vdisk \<Rightarrow> vdisk) \<Rightarrow> kstate \<Rightarrow> kstate" where
  "upd_vdisk f s = s\<lparr>k_vdisk := f (k_vdisk s)\<rparr>"

definition read_reg :: "u64 \<Rightarrow> u32 k" where
  "read_reg a = gets (\<lambda>s. k_mmio s a)"

text \<open>\<open>pages\<close> is the address of the static array \<open>disk.pages\<close>.\<close>

definition virtio_disk_init :: "u64 \<Rightarrow> unit k" where
  "virtio_disk_init pages =
     seq (initlock VdiskLock ''virtio_disk'') (
     bind (gets (\<lambda>s. k_mmio s VIRTIO0 \<noteq> 0x74726976 \<or> k_mmio s (VIRTIO0 + 4) \<noteq> 1
             \<or> k_mmio s (VIRTIO0 + 8) \<noteq> 2 \<or> k_mmio s (VIRTIO0 + 0xc) \<noteq> 0x554d4551)) (\<lambda>missing.
     if missing then panic ''could not find virtio disk''
     else
       seq (write_reg (VIRTIO0 + 0x70) 1) (
       seq (write_reg (VIRTIO0 + 0x70) 3) (
       bind (read_reg (VIRTIO0 + 0x10)) (\<lambda>features.
       seq (write_reg (VIRTIO0 + 0x20) (features AND
         NOT (2 ^ 5 OR 2 ^ 7 OR 2 ^ 11 OR 2 ^ 12 OR 2 ^ 27 OR 2 ^ 28 OR 2 ^ 29))) (
       seq (write_reg (VIRTIO0 + 0x70) 11) (
       seq (write_reg (VIRTIO0 + 0x70) 15) (
       seq (write_reg (VIRTIO0 + 0x28) 4096) (
       seq (write_reg (VIRTIO0 + 0x30) 0) (
       bind (read_reg (VIRTIO0 + 0x34)) (\<lambda>qmax.
       if qmax = 0 then panic ''virtio disk has no queue 0''
       else if qmax < of_nat NUM then panic ''virtio disk max queue too short''
       else
         seq (write_reg (VIRTIO0 + 0x38) (of_nat NUM)) (
         seq (modify (upd_vdisk (\<lambda>d. d\<lparr>vd_desc := vd_desc zero_vdisk, vd_avail_idx := 0,
           vd_avail := (\<lambda>_. 0), vd_used_id := 0, vd_used_elems := (\<lambda>_. 0)\<rparr>))) (
         seq (write_reg (VIRTIO0 + 0x40) (ucast (drop_bit 12 pages)))
         (for_each [0..<NUM] (\<lambda>i.
           modify (upd_vdisk (\<lambda>d. d\<lparr>vd_free := (vd_free d)(i := True)\<rparr>)))))))))))))))))"

definition alloc_desc :: "nat option k" where
  "alloc_desc =
     bind (gets (\<lambda>s. find (vd_free (k_vdisk s)) [0..<NUM])) (\<lambda>r.
     case r of
       None \<Rightarrow> return None
     | Some i \<Rightarrow>
         seq (modify (upd_vdisk (\<lambda>d. d\<lparr>vd_free := (vd_free d)(i := False)\<rparr>))) (return (Some i)))"

definition free_desc :: "nat \<Rightarrow> unit k" where
  "free_desc i =
     bind (gets (\<lambda>s. vd_free (k_vdisk s) i)) (\<lambda>free.
     if i \<ge> NUM then panic ''virtio_disk_intr 1''
     else if free then panic ''virtio_disk_intr 2''
     else
       seq (modify (upd_vdisk (\<lambda>d. d\<lparr>vd_desc := (vd_desc d)(i := (vd_desc d i)\<lparr>d_addr := VNull\<rparr>),
         vd_free := (vd_free d)(i := True)\<rparr>)))
       (wakeup ChDiskFree))"

text \<open>Every turn frees a descriptor that was not free, so there are at most \<open>NUM + 1\<close>.\<close>

definition free_chain_desc :: "nat \<Rightarrow> unit k" where
  "free_chain_desc i0 =
     loop (NUM + 2) (\<lambda>i.
       seq (free_desc i) (
       bind (gets (\<lambda>s. vd_desc (k_vdisk s) i)) (\<lambda>d.
       return (if d_flags d AND VRING_DESC_F_NEXT \<noteq> 0 then Inl (unat (d_next d)) else Inr ())))) i0"

definition alloc3_desc :: "(nat \<times> nat \<times> nat) option k" where
  "alloc3_desc =
     bind alloc_desc (\<lambda>r0.
     case r0 of None \<Rightarrow> return None | Some i0 \<Rightarrow>
     bind alloc_desc (\<lambda>r1.
     case r1 of None \<Rightarrow> seq (free_desc i0) (return None) | Some i1 \<Rightarrow>
     bind alloc_desc (\<lambda>r2.
     case r2 of None \<Rightarrow> seq (free_desc i0) (seq (free_desc i1) (return None))
     | Some i2 \<Rightarrow> return (Some (i0, i1, i2)))))"

text \<open>
  Formatting the descriptors of a request and telling the device. \<open>VIRTIO_BLK_T_OUT\<close> is 1,
  \<open>VIRTIO_BLK_T_IN\<close> is 0; a block is two sectors.
\<close>

definition set_desc :: "nat \<Rightarrow> dptr \<Rightarrow> u32 \<Rightarrow> u16 \<Rightarrow> nat \<Rightarrow> vdisk \<Rightarrow> vdisk" where
  "set_desc i a len flags nxt d = d\<lparr>vd_desc := (vd_desc d)(i :=
     \<lparr>d_addr = a, d_len = len, d_flags = flags, d_next = of_nat nxt\<rparr>)\<rparr>"

definition virtio_submit :: "nat \<Rightarrow> bool \<Rightarrow> nat \<times> nat \<times> nat \<Rightarrow> unit k" where
  "virtio_submit b write idx =
     (case idx of (i0, i1, i2) \<Rightarrow>
      bind (gets (\<lambda>s. ucast (b_blockno (k_bufs s b) * 2) :: u64)) (\<lambda>sector. block [
        modify (upd_vdisk (set_desc i0 (VHdr (if write then 1 else 0) sector) 16 VRING_DESC_F_NEXT i1)),
        modify (upd_vdisk (set_desc i1 (VData b) (of_nat BSIZE)
          ((if write then 0 else VRING_DESC_F_WRITE) OR VRING_DESC_F_NEXT) i2)),
        modify (upd_vdisk (\<lambda>d. d\<lparr>vd_info_status := (vd_info_status d)(i0 := 0)\<rparr>)),
        modify (upd_vdisk (set_desc i2 (VStatus i0) 1 VRING_DESC_F_WRITE 0)),
        modify (upd_buf b (\<lambda>bf. bf\<lparr>b_disk := True\<rparr>)),
        modify (upd_vdisk (\<lambda>d. d\<lparr>vd_info_b := (vd_info_b d)(i0 := Some b)\<rparr>)),
        modify (upd_vdisk (\<lambda>d. d\<lparr>vd_avail := (vd_avail d)(unat (vd_avail_idx d mod of_nat NUM) := of_nat i0)\<rparr>)),
        modify (upd_vdisk (\<lambda>d. d\<lparr>vd_avail_idx := vd_avail_idx d + 1\<rparr>)),
        write_reg (VIRTIO0 + 0x50) 0]))"

text \<open>The wait for the interrupt handler, and what follows it.\<close>

definition virtio_wait :: "nat \<Rightarrow> nat \<Rightarrow> unit k" where
  "virtio_wait b i0 =
     bind (gets (\<lambda>s. b_disk (k_bufs s b))) (\<lambda>busy.
     if busy then sleep (ChBuf b) VdiskLock
     else block [
       modify (upd_vdisk (\<lambda>d. d\<lparr>vd_info_b := (vd_info_b d)(i0 := None)\<rparr>)),
       free_chain_desc i0,
       release VdiskLock])"

definition virtio_wait_wake :: "nat \<Rightarrow> bool \<Rightarrow> nat \<Rightarrow> nat \<Rightarrow> unit k" where
  "virtio_wait_wake p intena b i0 = seq (sleep_return p VdiskLock intena) (virtio_wait b i0)"

definition virtio_rw_loop :: "nat \<Rightarrow> bool \<Rightarrow> unit k" where
  "virtio_rw_loop b write =
     bind alloc3_desc (\<lambda>r.
     case r of
       None \<Rightarrow> sleep ChDiskFree VdiskLock
     | Some idx \<Rightarrow> seq (virtio_submit b write idx) (virtio_wait b (fst idx)))"

definition virtio_disk_rw :: "nat \<Rightarrow> bool \<Rightarrow> unit k" where
  "virtio_disk_rw b write = seq (acquire VdiskLock) (virtio_rw_loop b write)"

definition virtio_rw_wake :: "nat \<Rightarrow> bool \<Rightarrow> nat \<Rightarrow> bool \<Rightarrow> unit k" where
  "virtio_rw_wake p intena b write = seq (sleep_return p VdiskLock intena) (virtio_rw_loop b write)"

definition virtio_disk_intr :: "unit k" where
  "virtio_disk_intr =
     seq (acquire VdiskLock) (
     seq (loop (NUM + 1) (\<lambda>_.
       bind (gets k_vdisk) (\<lambda>d.
       if vd_used_idx d mod of_nat NUM \<noteq> vd_used_id d mod of_nat NUM then
         let id = unat (vd_used_elems d (unat (vd_used_idx d))) in
         if vd_info_status d id \<noteq> 0 then panic ''virtio_disk_intr status''
         else
           bind (deref_opt (vd_info_b d id)) (\<lambda>b.
           seq (modify (upd_buf b (\<lambda>bf. bf\<lparr>b_disk := False\<rparr>))) (
           seq (wakeup (ChBuf b)) (
           seq (modify (upd_vdisk (\<lambda>d. d\<lparr>vd_used_idx := (vd_used_idx d + 1) mod of_nat NUM\<rparr>)))
           (return (Inl ())))))
       else return (Inr ()))) ())
     (release VdiskLock))"

end
