(* ===== verification/Xv6_Trap.thy ===== *)
theory Xv6_Trap
  imports Xv6_Virtio
begin

text \<open>
  The system-call dispatcher of \<open>kernel/syscall.c\<close>, the trap handlers of \<open>kernel/trap.c\<close>, the
  interrupt controller, \<open>kernel/plic.c\<close>, the first run of a process, \<open>forkret\<close>, and
  \<open>kernel/main.c\<close>.
\<close>

section \<open>System calls\<close>

definition syscalls :: "int \<Rightarrow> u64 k option" where
  "syscalls num = map_of [
     (1, sys_fork), (2, sys_exit), (3, sys_wait), (4, sys_pipe), (5, sys_read), (6, sys_kill),
     (7, sys_exec), (8, sys_fstat), (9, sys_chdir), (10, sys_dup), (11, sys_getpid),
     (12, sys_sbrk), (13, sys_sleep), (14, sys_uptime), (15, sys_open), (16, sys_write),
     (17, sys_mknod), (18, sys_unlink), (19, sys_link), (20, sys_mkdir), (21, sys_close),
     (22, sys_traceon), (23, sys_psinfo), (24, sys_suspend), (25, sys_resume), (27, sys_cinfo),
     (28, sys_cinit), (29, sys_cpause), (30, sys_cresume), (31, sys_cstop)] num"

definition syscall :: "unit k" where
  "syscall =
     bind curproc (\<lambda>p.
     bind (tf_get p TF_a7) (\<lambda>a7.
     let num = sint (ucast a7 :: u32) in
     case (if 0 < num \<and> num < 32 then syscalls num else None) of
       Some f \<Rightarrow> bind f (\<lambda>v. tf_set p TF_a0 v)
     | None \<Rightarrow>
         bind (gets (\<lambda>s. k_procs s p)) (\<lambda>q.
         seq (printf (Some ''%d %s: unknown sys call %d\<newline>'')
           [VInt (of_int (p_pid q)), VStr (Some (cstr 16 (p_name q))), VInt (of_int num)])
         (tf_set p TF_a0 (- 1)))))"

section \<open>The interrupt controller\<close>

abbreviation PLIC :: u64 where "PLIC \<equiv> 0x0c000000"
abbreviation UART0_IRQ :: nat where "UART0_IRQ \<equiv> 10"
abbreviation VIRTIO0_IRQ :: nat where "VIRTIO0_IRQ \<equiv> 1"

definition plicinit :: "unit k" where
  "plicinit = seq (write_reg (PLIC + of_nat UART0_IRQ * 4) 1) (write_reg (PLIC + of_nat VIRTIO0_IRQ * 4) 1)"

definition plicinithart :: "unit k" where
  "plicinithart =
     bind (gets (\<lambda>s. of_nat (k_hart s))) (\<lambda>hart.
     seq (write_reg (PLIC + 0x2080 + hart * 0x100) (push_bit UART0_IRQ 1 OR push_bit VIRTIO0_IRQ 1))
     (write_reg (PLIC + 0x201000 + hart * 0x2000) 0))"

text \<open>A claim hands out the next interrupt that waits, 0 when there is none.\<close>

definition plic_claim :: "nat k" where
  "plic_claim = (\<lambda>s. case k_irqs s of [] \<Rightarrow> Ok 0 s | i # is \<Rightarrow> Ok (unat i) (s\<lparr>k_irqs := is\<rparr>))"

definition plic_complete :: "nat \<Rightarrow> unit k" where
  "plic_complete irq =
     bind (gets (\<lambda>s. of_nat (k_hart s))) (\<lambda>hart.
     write_reg (PLIC + 0x201004 + hart * 0x2000) (of_nat irq))"

section \<open>Traps\<close>

definition upd_csr :: "(csr \<Rightarrow> csr) \<Rightarrow> kstate \<Rightarrow> kstate" where
  "upd_csr f s = s\<lparr>k_csr := f (k_csr s)\<rparr>"

definition trapinit :: "unit k" where
  "trapinit = initlock TicksLock ''time''"

definition trapinithart :: "unit k" where
  "trapinithart = modify (\<lambda>s. upd_csr (\<lambda>c. c\<lparr>cs_stvec := sym_kernelvec (k_syms s)\<rparr>) s)"

definition clockintr :: "unit k" where
  "clockintr = block [
     acquire TicksLock,
     modify (\<lambda>s. s\<lparr>k_ticks := k_ticks s + 1\<rparr>),
     wakeup ChTicks,
     release TicksLock]"

definition devintr :: "int k" where
  "devintr =
     bind (gets (\<lambda>s. cs_scause (k_csr s))) (\<lambda>scause.
     if scause AND 0x8000000000000000 \<noteq> 0 \<and> scause AND 0xff = 9 then
       bind plic_claim (\<lambda>irq.
       seq (if irq = UART0_IRQ then uartintr
            else if irq = VIRTIO0_IRQ then virtio_disk_intr
            else return ()) (
       seq (plic_complete irq) (return 1)))
     else if scause = 0x8000000000000001 then
       bind (gets k_hart) (\<lambda>h.
       seq (do_when (h = 0) clockintr) (
       seq (modify (upd_csr (\<lambda>c. c\<lparr>cs_sip := cs_sip c AND NOT 2\<rparr>))) (return 2)))
     else return 0)"

text \<open>
  \<open>usertrapret\<close> ends in a jump to the trampoline; its result is the address jumped to and the
  \<open>satp\<close> value passed along with \<open>TRAPFRAME\<close>.
\<close>

definition usertrapret :: "(u64 \<times> u64) k" where
  "usertrapret =
     bind curproc (\<lambda>p.
     seq intr_off (
     seq (modify (\<lambda>s. upd_csr (\<lambda>c. c\<lparr>cs_stvec :=
       TRAMPOLINE + (sym_uservec (k_syms s) - sym_trampoline (k_syms s))\<rparr>) s)) (
     bind (gets (\<lambda>s. s)) (\<lambda>s0.
     seq (tf_set p 0 (cs_satp (k_csr s0))) (
     seq (tf_set p 8 (p_kstack (k_procs s0 p) + PGSIZE)) (
     seq (tf_set p 16 (sym_usertrap (k_syms s0))) (
     seq (tf_set p 32 (of_nat (k_hart s0))) (
     seq (modify (upd_csr (\<lambda>c. c\<lparr>cs_spp := False, cs_spie := True\<rparr>))) (
     bind (tf_get p TF_epc) (\<lambda>epc.
     seq (modify (upd_csr (\<lambda>c. c\<lparr>cs_sepc := epc\<rparr>))) (
     return (TRAMPOLINE + (sym_userret (k_syms s0) - sym_trampoline (k_syms s0)),
       push_bit 60 8 OR drop_bit 12 (p_pagetable (k_procs s0 p))))))))))))))"

text \<open>The work of \<open>usertrap\<close> for the cause of the trap; the result is \<open>which_dev\<close>.\<close>

definition usertrap_handle :: "nat \<Rightarrow> int k" where
  "usertrap_handle p =
     bind (gets k_csr) (\<lambda>c.
     if cs_scause c = 8 then
       bind (gets (\<lambda>s. p_killed (k_procs s p))) (\<lambda>killed.
       seq (if killed then exit (- 1) else return ()) (
       bind (tf_get p TF_epc) (\<lambda>epc.
       seq (tf_set p TF_epc (epc + 4)) (
       seq intr_on (
       seq syscall (return 0))))))
     else
       bind devintr (\<lambda>which_dev.
       if which_dev \<noteq> 0 then return which_dev
       else
         bind (gets (\<lambda>s. k_procs s p)) (\<lambda>q.
         seq (printf (Some ''usertrap(): unexpected scause %p pid=%d\<newline>'')
           [VLong (cs_scause c), VInt (of_int (p_pid q))]) (
         seq (printf (Some ''            sepc=%p stval=%p\<newline>'') [VLong (cs_sepc c), VLong (cs_stval c)]) (
         seq (modify (upd_proc p (\<lambda>q. q\<lparr>p_killed := True\<rparr>)))
         (return 0))))))"

definition usertrap :: "(u64 \<times> u64) k" where
  "usertrap =
     bind (gets (\<lambda>s. cs_spp (k_csr s))) (\<lambda>spp.
     if spp then panic ''usertrap: not from user mode''
     else
       seq trapinithart (
       bind curproc (\<lambda>p.
       bind (gets (\<lambda>s. cs_sepc (k_csr s))) (\<lambda>sepc.
       seq (tf_set p TF_epc sepc) (
       bind (usertrap_handle p) (\<lambda>which_dev.
       bind (gets (\<lambda>s. p_killed (k_procs s p))) (\<lambda>killed.
       seq (if killed then exit (- 1) else return ()) (
       seq (do_when (which_dev = 2) yield)
       usertrapret))))))))"

text \<open>Going on after the \<open>yield\<close> of a timer interrupt.\<close>

definition usertrap_return :: "nat \<Rightarrow> bool \<Rightarrow> (u64 \<times> u64) k" where
  "usertrap_return p intena = seq (yield_return p intena) usertrapret"

text \<open>The trap registers \<open>kerneltrap\<close> restores.\<close>

definition trap_restore :: "csr \<Rightarrow> bool \<Rightarrow> unit k" where
  "trap_restore c sie =
     seq (modify (upd_csr (\<lambda>c'. c'\<lparr>cs_sepc := cs_sepc c, cs_spp := cs_spp c, cs_spie := cs_spie c\<rparr>)))
     (if sie then intr_on else intr_off)"

definition kerneltrap :: "unit k" where
  "kerneltrap =
     bind (gets k_csr) (\<lambda>c.
     bind intr_get (\<lambda>sie.
     if \<not> cs_spp c then panic ''kerneltrap: not from supervisor mode''
     else if sie then panic ''kerneltrap: interrupts enabled''
     else
       bind devintr (\<lambda>which_dev.
       if which_dev = 0 then
         seq (printf (Some ''scause %p\<newline>'') [VLong (cs_scause c)]) (
         bind (gets k_csr) (\<lambda>c'.
         seq (printf (Some ''sepc=%p stval=%p\<newline>'') [VLong (cs_sepc c'), VLong (cs_stval c')])
         (panic ''kerneltrap'')))
       else
         bind (if which_dev = 2 then
                 bind myproc (\<lambda>pp.
                 if pp = Null then return False
                 else bind curproc (\<lambda>p. gets (\<lambda>s. p_state (k_procs s p) = RUNNING)))
               else return False) (\<lambda>giveup.
         seq (do_when giveup yield)
         (trap_restore c sie)))))"

definition kerneltrap_return :: "nat \<Rightarrow> bool \<Rightarrow> csr \<Rightarrow> unit k" where
  "kerneltrap_return p intena c = seq (yield_return p intena) (trap_restore c False)"

section \<open>The first run of a process, and booting\<close>

definition forkret :: "(u64 \<times> u64) k" where
  "forkret =
     bind curproc (\<lambda>p.
     seq (release (ProcLock p)) (
     bind (gets k_first) (\<lambda>first.
     seq (do_when first (seq (modify (\<lambda>s. s\<lparr>k_first := False\<rparr>)) (fsinit ROOTDEV)))
     usertrapret)))"

text \<open>
  \<open>main\<close> up to the loop of the scheduler. \<open>junk\<close> is the uninitialised buffer of
  \<open>consoleinit\<close>, \<open>pages\<close> the address of \<open>disk.pages\<close>.
\<close>

definition main :: "bytes \<Rightarrow> u64 \<Rightarrow> nat k" where
  "main junk pages =
     bind (gets k_hart) (\<lambda>h.
     seq (if h = 0 then block [
            consoleinit junk,
            printfinit,
            printf (Some ''\<newline>'') [],
            printf (Some ''xv6 kernel is booting\<newline>'') [],
            printf (Some ''\<newline>'') [],
            kinit,
            kvminit,
            kvminithart,
            procinit,
            trapinit,
            trapinithart,
            plicinit,
            plicinithart,
            binit,
            iinit,
            fileinit,
            virtio_disk_init pages,
            userinit,
            modify (\<lambda>s. s\<lparr>k_booted := True\<rparr>)]
          else
            bind (gets k_booted) (\<lambda>booted.
            if \<not> booted then spin
            else block [
              printf (Some ''hart %d starting\<newline>'') [VInt (of_nat h)],
              kvminithart,
              trapinithart,
              plicinithart]))
     scheduler_start)"

end
