(* ===== verification/Xv6_Wakeup.thy ===== *)
theory Xv6_Wakeup
  imports Xv6_Sched
begin

text \<open>
  \<open>sleep\<close> against \<open>wakeup\<close>: the statements of \<open>kernel/proc.c\<close> that run on two CPUs, interleaved in
  any way. The lists \<open>sleep_steps\<close> and \<open>wakeup_steps\<close> from which \<open>sleep\<close> and \<open>wakeup\<close> are built are
  the programs of the two CPUs here. An invariant says, for every pair of positions, which CPU
  owns which lock, how deep each CPU has nested, and what is recorded of the process.
\<close>

section \<open>Two CPUs\<close>

text \<open>
  The parties of a race: process \<open>r_proc\<close> on \<open>r_cpu\<close> holds the condition lock \<open>r_lock\<close> and is
  about to sleep on \<open>r_chan\<close>; CPU \<open>r_other\<close> is about to take the lock, make the condition true by
  \<open>r_change\<close>, call \<open>wakeup\<close> and let go of the lock. \<open>r_turn\<close> is the container the scheduler of
  \<open>r_cpu\<close> is serving.
\<close>

record party =
  r_cpu :: nat
  r_other :: nat
  r_proc :: nat
  r_lock :: lockid
  r_chan :: chan
  r_turn :: nat
  r_change :: "kstate \<Rightarrow> kstate"

text \<open>
  What each CPU has to run, statement by statement: the sleeper up to the switch into the
  scheduler, and then what the scheduler does when it gets the CPU back.
\<close>

definition sleeper_code :: "party \<Rightarrow> unit k list" where
  "sleeper_code r = sleep_steps (r_chan r) (r_lock r) (r_proc r) @
     [sched, bind (scheduler_back (r_turn r) (r_proc r)) (\<lambda>_. return ())]"

definition scan_code :: "party \<Rightarrow> nat \<Rightarrow> unit k list" where
  "scan_code r q = concat (map (wakeup_steps (r_chan r)) [q..<NPROC]) @ [release (r_lock r)]"

definition waker_code :: "party \<Rightarrow> unit k list" where
  "waker_code r = acquire (r_lock r) # modify (r_change r) # scan_code r 0"

text \<open>
  A step of one CPU runs its next statement to the end, or to the switch; a statement that spins
  is retried later. Steps of the two CPUs alternate in any way.
\<close>

inductive cpu_step :: "nat \<Rightarrow> kstate \<Rightarrow> unit k list \<Rightarrow> kstate \<Rightarrow> unit k list \<Rightarrow> bool" where
  returns: "m (on_cpu h s) = Ok () t \<Longrightarrow> cpu_step h s (m # ms) t ms"
| switches: "m (on_cpu h s) = Switch t \<Longrightarrow> cpu_step h s (m # ms) t ms"

type_synonym race_state = "kstate \<times> unit k list \<times> unit k list"

inductive race :: "party \<Rightarrow> race_state \<Rightarrow> race_state \<Rightarrow> bool" for r where
  sleeper: "cpu_step (r_cpu r) s ms t ms' \<Longrightarrow> race r (s, ms, ns) (t, ms', ns)"
| waker: "cpu_step (r_other r) s ns t ns' \<Longrightarrow> race r (s, ms, ns) (t, ms, ns')"

inductive_cases cpu_stepE: "cpu_step h s ms t ms'"
inductive_cases raceE: "race r (s, ms, ns) c"

text \<open>The situation at the start.\<close>

definition race_ready :: "party \<Rightarrow> kstate \<Rightarrow> bool" where
  "race_ready r s \<longleftrightarrow>
     r_cpu r \<noteq> r_other r \<and> r_proc r < NPROC \<and> (\<forall>q. r_lock r \<noteq> ProcLock q) \<and> k_started s \<and>
     c_proc (k_cpus s (r_cpu r)) = Some (r_proc r) \<and> lock_held (r_lock r) (on_cpu (r_cpu r) s) \<and>
     c_noff (k_cpus s (r_cpu r)) = 1 \<and> cpu_ok (on_cpu (r_cpu r) s) \<and> cpu_ok (on_cpu (r_other r) s) \<and>
     (\<forall>q<NPROC. lock_free (ProcLock q) s) \<and> (\<exists>j<NCONTS. ct_state (k_conts s j) = CRUNNING) \<and>
     off_lock (r_change r) \<and>
     (\<forall>s. k_procs (r_change r s) = k_procs s \<and> k_conts (r_change r s) = k_conts s \<and> k_started (r_change r s) = k_started s)"

section \<open>Lock operations among other CPUs\<close>

definition owned :: "kstate \<Rightarrow> lockid \<Rightarrow> nat option \<Rightarrow> bool" where
  "owned s l who \<longleftrightarrow> (lk_locked (k_locks s l) \<longleftrightarrow> who \<noteq> None) \<and> lk_cpu (k_locks s l) = who"

definition depth :: "kstate \<Rightarrow> nat \<Rightarrow> int \<Rightarrow> bool" where
  "depth s h n \<longleftrightarrow> c_noff (k_cpus s h) = n \<and> 0 \<le> n \<and> (0 < n \<longrightarrow> \<not> c_intr (k_cpus s h))"

text \<open>The state \<open>t\<close> is \<open>s\<close> after CPU \<open>h\<close> changed the owner of one lock and its own nesting depth.\<close>

definition relocked :: "nat \<Rightarrow> lockid \<Rightarrow> nat option \<Rightarrow> int \<Rightarrow> kstate \<Rightarrow> kstate \<Rightarrow> bool" where
  "relocked h l who n s t \<longleftrightarrow> owned t l who \<and> (\<forall>l'. l' \<noteq> l \<longrightarrow> k_locks t l' = k_locks s l') \<and> depth t h n \<and>
     (\<forall>h'. h' \<noteq> h \<longrightarrow> k_cpus t h' = k_cpus s h') \<and> c_proc (k_cpus t h) = c_proc (k_cpus s h) \<and>
     k_procs t = k_procs s \<and> k_conts t = k_conts s \<and> k_started t = k_started s"

lemma on_cpu_globals [simp]:
  "k_hart (on_cpu h s) = h" "k_cpus (on_cpu h s) = k_cpus s" "k_locks (on_cpu h s) = k_locks s"
  "k_procs (on_cpu h s) = k_procs s" "k_conts (on_cpu h s) = k_conts s" "k_started (on_cpu h s) = k_started s"
  by (simp_all add: on_cpu_def)

lemma depth_cpu_ok: "depth s h n \<Longrightarrow> cpu_ok (on_cpu h s)"
  by (simp add: depth_def cpu_ok_def Let_def)

lemma depth_calm: "depth s h n \<Longrightarrow> 0 < n \<Longrightarrow> calm (on_cpu h s)"
  by (simp add: depth_def calm_def Let_def)

lemma acquire_owned:
  assumes "depth s h n" and "owned s l None"
  shows "\<exists>t. acquire l (on_cpu h s) = Ok () t \<and> relocked h l (Some h) (n + 1) s t"
proof -
  have "acquire l (on_cpu h s) = Ok () (locked_state l (on_cpu h s))"
    using assms depth_cpu_ok [OF assms(1)] by (intro acquire_free) (simp_all add: owned_def lock_free_def)
  moreover have "relocked h l (Some h) (n + 1) s (locked_state l (on_cpu h s))"
    using assms by (auto simp: relocked_def owned_def depth_def)
      (auto simp: locked_state_def irq_pushed_def upd_defs)
  ultimately show ?thesis by blast
qed

lemma acquire_spins: "depth s h n \<Longrightarrow> owned s l (Some h') \<Longrightarrow> h' \<noteq> h \<Longrightarrow> acquire l (on_cpu h s) = Spin"
  using depth_cpu_ok [of s h n] by (simp add: acquire_apply lock_held_def owned_def)

lemma release_owned:
  assumes "depth s h n" and "0 < n" and "owned s l (Some h)"
  shows "\<exists>t. release l (on_cpu h s) = Ok () t \<and> relocked h l None (n - 1) s t"
proof -
  let ?t = "upd_cpu (\<lambda>c. c\<lparr>c_noff := c_noff c - 1, c_intr := (c_noff c = 1 \<and> c_intena c)\<rparr>)
            (upd_lock l (\<lambda>l. l\<lparr>lk_cpu := None, lk_locked := False\<rparr>) (on_cpu h s))"
  have "release l (on_cpu h s) = Ok () ?t"
    using assms depth_cpu_ok [OF assms(1)] by (subst release_apply) (simp_all add: depth_def lock_held_def owned_def)
  moreover have "relocked h l None (n - 1) s ?t"
    using assms by (auto simp: relocked_def owned_def depth_def upd_defs)
  ultimately show ?thesis by blast
qed

section \<open>The positions of the waker\<close>

datatype wpos = Start | Locked | Scan nat | Holding nat | Checked nat | Done

fun waker_at :: "party \<Rightarrow> wpos \<Rightarrow> unit k list" where
  "waker_at r Start = waker_code r"
| "waker_at r Locked = modify (r_change r) # scan_code r 0"
| "waker_at r (Scan q) = scan_code r q"
| "waker_at r (Holding q) = tl (wakeup_steps (r_chan r) q) @ scan_code r (Suc q)"
| "waker_at r (Checked q) = release (ProcLock q) # scan_code r (Suc q)"
| "waker_at r Done = []"

fun waker_next :: "wpos \<Rightarrow> wpos" where
  "waker_next Start = Locked"
| "waker_next Locked = Scan 0"
| "waker_next (Scan q) = (if q < NPROC then Holding q else Done)"
| "waker_next (Holding q) = Checked q"
| "waker_next (Checked q) = Scan (Suc q)"
| "waker_next Done = Done"

fun waker_ok :: "wpos \<Rightarrow> bool" where
  "waker_ok (Scan q) = (q \<le> NPROC)"
| "waker_ok (Holding q) = (q < NPROC)"
| "waker_ok (Checked q) = (q < NPROC)"
| "waker_ok _ = True"

text \<open>The waker has taken the lock of process \<open>p\<close>; it has looked at \<open>p\<close>; how many locks it holds.\<close>

fun reached :: "nat \<Rightarrow> wpos \<Rightarrow> bool" where
  "reached p (Scan q) = (p < q)"
| "reached p (Holding q) = (p \<le> q)"
| "reached p (Checked q) = (p \<le> q)"
| "reached p Done = True"
| "reached p _ = False"

fun passed :: "nat \<Rightarrow> wpos \<Rightarrow> bool" where
  "passed p (Scan q) = (p < q)"
| "passed p (Holding q) = (p < q)"
| "passed p (Checked q) = (p \<le> q)"
| "passed p Done = True"
| "passed p _ = False"

fun waker_locks :: "wpos \<Rightarrow> int" where
  "waker_locks Start = 0"
| "waker_locks Locked = 1"
| "waker_locks (Scan q) = 1"
| "waker_locks (Holding q) = 2"
| "waker_locks (Checked q) = 2"
| "waker_locks Done = 0"

text \<open>Who owns the locks, and how deep the sleeper's CPU is, after \<open>i\<close> steps of the sleeper.\<close>

definition lock_owner :: "party \<Rightarrow> nat \<Rightarrow> wpos \<Rightarrow> nat option" where
  "lock_owner r i w = (if i \<le> 1 then Some (r_cpu r) else if waker_locks w = 0 then None else Some (r_other r))"

definition proc_owner :: "party \<Rightarrow> nat \<Rightarrow> wpos \<Rightarrow> nat \<Rightarrow> nat option" where
  "proc_owner r i w q = (if q = r_proc r \<and> 1 \<le> i \<and> i \<le> 5 then Some (r_cpu r)
     else if w = Holding q \<or> w = Checked q then Some (r_other r) else None)"

definition sleeper_depth :: "nat \<Rightarrow> int" where
  "sleeper_depth i = (if i = 1 then 2 else if i \<le> 5 then 1 else 0)"

definition race_inv :: "party \<Rightarrow> int \<Rightarrow> nat \<Rightarrow> wpos \<Rightarrow> kstate \<Rightarrow> bool" where
  "race_inv r d i w s \<longleftrightarrow> i \<le> 6 \<and> waker_ok w \<and> (i \<le> 1 \<longrightarrow> w = Start) \<and> (i \<le> 5 \<longrightarrow> \<not> reached (r_proc r) w) \<and>
     k_started s \<and> (\<exists>j<NCONTS. ct_state (k_conts s j) = CRUNNING) \<and>
     owned s (r_lock r) (lock_owner r i w) \<and> (\<forall>q<NPROC. owned s (ProcLock q) (proc_owner r i w q)) \<and>
     depth s (r_cpu r) (sleeper_depth i) \<and> 0 \<le> d \<and> depth s (r_other r) (d + waker_locks w) \<and>
     (i \<le> 5 \<longrightarrow> c_proc (k_cpus s (r_cpu r)) = Some (r_proc r)) \<and>
     (3 \<le> i \<longrightarrow> p_chan (k_procs s (r_proc r)) = Some (r_chan r)) \<and>
     (4 \<le> i \<longrightarrow> p_state (k_procs s (r_proc r)) = (if passed (r_proc r) w then RUNNABLE else SLEEPING))"

definition race_parties :: "party \<Rightarrow> bool" where
  "race_parties r \<longleftrightarrow> r_cpu r \<noteq> r_other r \<and> r_proc r < NPROC \<and> (\<forall>q. r_lock r \<noteq> ProcLock q) \<and> off_lock (r_change r) \<and>
     (\<forall>s. k_procs (r_change r s) = k_procs s \<and> k_conts (r_change r s) = k_conts s \<and> k_started (r_change r s) = k_started s)"

lemma race_inv_start:
  assumes "race_ready r s"
  shows "race_parties r" and "race_inv r (c_noff (k_cpus s (r_other r))) 0 Start s"
  using assms
  by (auto simp: race_ready_def race_parties_def race_inv_def owned_def depth_def lock_owner_def proc_owner_def sleeper_depth_def
      lock_held_def lock_free_def cpu_ok_def Let_def)

lemma scan_code_Suc: "q < NPROC \<Longrightarrow> scan_code r q = acquire (ProcLock q) # tl (wakeup_steps (r_chan r) q) @ scan_code r (Suc q)"
  by (simp add: scan_code_def upt_conv_Cons wakeup_steps_def)

lemma scan_code_end: "scan_code r NPROC = [release (r_lock r)]"
  by (simp add: scan_code_def)

lemma relocked_owned:
  "relocked h l who n s t \<Longrightarrow> owned t l' who' = (if l' = l then who' = who else owned s l' who')"
  by (auto simp: relocked_def owned_def)

lemma relocked_depth:
  "relocked h l who n s t \<Longrightarrow> depth t h' m = (if h' = h then m = n \<and> 0 \<le> n else depth s h' m)"
  by (auto simp: relocked_def depth_def)

lemma relocked_fields:
  assumes "relocked h l who n s t"
  shows "k_procs t = k_procs s" "k_conts t = k_conts s" "k_started t = k_started s" "c_proc (k_cpus t h') = c_proc (k_cpus s h')"
  using assms by (auto simp: relocked_def)

section \<open>The steps keep the invariant\<close>

lemma sleeper_list:
  assumes "race_parties r"
  shows "sleeper_code r = [acquire (ProcLock (r_proc r)), release (r_lock r),
    modify (upd_proc (r_proc r) (\<lambda>q. q\<lparr>p_chan := Some (r_chan r)\<rparr>)), modify (upd_proc (r_proc r) (\<lambda>q. q\<lparr>p_state := SLEEPING\<rparr>)),
    sched, bind (scheduler_back (r_turn r) (r_proc r)) (\<lambda>_. return ())]"
  using assms by (simp add: sleeper_code_def sleep_steps_def race_parties_def)

text \<open>The scheduler, back from the process: it drops the process's lock.\<close>

lemma scheduler_back_owned:
  assumes "depth s h 1" and "owned s (ProcLock p) (Some h)" and "\<exists>j<NCONTS. ct_state (k_conts s j) = CRUNNING"
  shows "\<exists>t c. scheduler_back cindex p (on_cpu h s) = Ok c t \<and>
    relocked h (ProcLock p) None 0 (upd_cpu (\<lambda>c. c\<lparr>c_proc := None\<rparr>) (on_cpu h s)) t"
proof -
  let ?u = "upd_cpu (\<lambda>c. c\<lparr>c_proc := None\<rparr>) (on_cpu h s)"
  have "next_active (k_conts s) cindex \<noteq> None"
    using assms(3) by (simp add: next_active_None_iff)
  then obtain c where c: "next_active (k_conts s) cindex = Some c"
    by blast
  have "on_cpu h ?u = ?u" and "depth ?u h 1" and "owned ?u (ProcLock p) (Some h)"
    using assms by (simp_all add: on_cpu_def upd_cpu_def depth_def owned_def)
  then obtain t where t: "release (ProcLock p) ?u = Ok () t" "relocked h (ProcLock p) None 0 ?u t"
    using release_owned [of ?u h 1 "ProcLock p"] by auto
  have "k_conts ?u = k_conts s"
    by (simp add: upd_cpu_def)
  then have "scheduler_back cindex p (on_cpu h s) = Ok c t"
    using t(1) c by (simp add: scheduler_back_def get_next_active_container_def run_simps)
  with t(2) show ?thesis by blast
qed

text \<open>The sleeper's CPU can take its step \<open>i\<close>, and the invariant holds afterwards.\<close>

definition sleeper_moves :: "party \<Rightarrow> int \<Rightarrow> nat \<Rightarrow> wpos \<Rightarrow> kstate \<Rightarrow> unit k \<Rightarrow> bool" where
  "sleeper_moves r d i w s m \<longleftrightarrow>
     (\<exists>t. (m (on_cpu (r_cpu r) s) = Ok () t \<or> m (on_cpu (r_cpu r) s) = Switch t) \<and> race_inv r d (Suc i) w t)"

lemma sleeper_movesI:
  "m (on_cpu (r_cpu r) s) = Ok () t \<Longrightarrow> race_inv r d (Suc i) w t \<Longrightarrow> sleeper_moves r d i w s m"
  "m (on_cpu (r_cpu r) s) = Switch t \<Longrightarrow> race_inv r d (Suc i) w t \<Longrightarrow> sleeper_moves r d i w s m"
  by (auto simp: sleeper_moves_def)

lemma race_invD:
  assumes "race_inv r d i w s"
  shows "owned s (r_lock r) (lock_owner r i w)" and "q < NPROC \<Longrightarrow> owned s (ProcLock q) (proc_owner r i w q)"
    and "depth s (r_cpu r) (sleeper_depth i)" and "depth s (r_other r) (d + waker_locks w)" and "0 \<le> d"
    and "\<exists>j<NCONTS. ct_state (k_conts s j) = CRUNNING" and "waker_ok w"
  using assms unfolding race_inv_def by blast+

lemmas race_defs = race_inv_def lock_owner_def proc_owner_def sleeper_depth_def

lemma sleeper_takes_proc_lock:
  assumes "race_parties r" and "race_inv r d 0 w s"
  shows "sleeper_moves r d 0 w s (acquire (ProcLock (r_proc r)))"
proof -
  obtain t where t: "acquire (ProcLock (r_proc r)) (on_cpu (r_cpu r) s) = Ok () t"
      "relocked (r_cpu r) (ProcLock (r_proc r)) (Some (r_cpu r)) 2 s t"
    using acquire_owned [of s "r_cpu r" 1 "ProcLock (r_proc r)"] assms by (auto simp: race_defs race_parties_def)
  then show ?thesis
    using assms by (intro sleeper_movesI(1) [of _ r s t])
      (auto simp: race_defs race_parties_def t(1) relocked_owned [OF t(2)] relocked_depth [OF t(2)] relocked_fields [OF t(2)])
qed

lemma sleeper_drops_lock:
  assumes "race_parties r" and "race_inv r d 1 w s"
  shows "sleeper_moves r d 1 w s (release (r_lock r))"
proof -
  have other: "ProcLock q \<noteq> r_lock r" for q
    using assms(1) by (metis race_parties_def)
  obtain t where t: "release (r_lock r) (on_cpu (r_cpu r) s) = Ok () t" "relocked (r_cpu r) (r_lock r) None 1 s t"
    using release_owned [of s "r_cpu r" 2 "r_lock r"] assms by (auto simp: race_defs)
  then show ?thesis
    using assms other by (intro sleeper_movesI(1) [of _ r s t])
      (auto simp: race_defs race_parties_def t(1) relocked_owned [OF t(2)] relocked_depth [OF t(2)] relocked_fields [OF t(2)])
qed

lemma not_passed: "\<not> reached p w \<Longrightarrow> \<not> passed p w"
  by (cases w) auto

lemma sleeper_marks:
  assumes "race_inv r d i w s"
  shows "i = 2 \<Longrightarrow> sleeper_moves r d i w s (modify (upd_proc (r_proc r) (\<lambda>q. q\<lparr>p_chan := Some (r_chan r)\<rparr>)))"
    and "i = 3 \<Longrightarrow> sleeper_moves r d i w s (modify (upd_proc (r_proc r) (\<lambda>q. q\<lparr>p_state := SLEEPING\<rparr>)))"
  using assms not_passed [of "r_proc r" w]
  by (auto intro!: sleeper_movesI(1) [OF modify_apply] simp: race_defs upd_proc_def owned_def depth_def)

lemma sleeper_switches:
  assumes "race_parties r" and "race_inv r d 4 w s"
  shows "sleeper_moves r d 4 w s sched"
proof (rule sleeper_movesI(2))
  show "sched (on_cpu (r_cpu r) s) = Switch (on_cpu (r_cpu r) s)"
    using assms depth_calm [of s "r_cpu r" 1] not_passed [of "r_proc r" w]
    by (intro sched_apply [of _ "r_proc r"])
      (auto simp: race_defs race_parties_def running_def lock_held_def owned_def depth_def)
  show "race_inv r d (Suc 4) w (on_cpu (r_cpu r) s)"
    using assms by (auto simp: race_defs owned_def depth_def)
qed

lemma scheduler_drops_proc_lock:
  assumes "race_parties r" and "race_inv r d 5 w s"
  shows "sleeper_moves r d 5 w s (bind (scheduler_back (r_turn r) (r_proc r)) (\<lambda>_. return ()))"
proof -
  obtain t c where t: "scheduler_back (r_turn r) (r_proc r) (on_cpu (r_cpu r) s) = Ok c t"
      "relocked (r_cpu r) (ProcLock (r_proc r)) None 0 (upd_cpu (\<lambda>c. c\<lparr>c_proc := None\<rparr>) (on_cpu (r_cpu r) s)) t"
  proof -
    have "owned s (ProcLock (r_proc r)) (Some (r_cpu r))" and "depth s (r_cpu r) 1"
      using race_invD(2) [OF assms(2), of "r_proc r"] race_invD(3) [OF assms(2)] assms(1)
      by (auto simp: proc_owner_def sleeper_depth_def race_parties_def)
    then show thesis
      using scheduler_back_owned [of s "r_cpu r" "r_proc r" "r_turn r"] race_invD(6) [OF assms(2)] that by blast
  qed
  have u: "owned (upd_cpu f (on_cpu h s)) l who = owned s l who" "h' \<noteq> h \<Longrightarrow> depth (upd_cpu f (on_cpu h s)) h' n = depth s h' n"
      "k_procs (upd_cpu f (on_cpu h s)) = k_procs s" "k_conts (upd_cpu f (on_cpu h s)) = k_conts s"
      "k_started (upd_cpu f (on_cpu h s)) = k_started s" for f h h' l who n
    by (simp_all add: upd_cpu_def owned_def depth_def)
  have other: "r_lock r \<noteq> ProcLock (r_proc r)" and cpus: "r_other r \<noteq> r_cpu r" and "\<not> reached (r_proc r) w"
    using assms by (auto simp: race_parties_def race_inv_def)
  then have free: "proc_owner r 6 w (r_proc r) = None"
    by (auto simp: proc_owner_def)
  have "owned t (ProcLock q) (proc_owner r 6 w q)" if "q < NPROC" for q
    using race_invD(2) [OF assms(2) that] free by (auto simp: relocked_owned [OF t(2)] u proc_owner_def)
  moreover have "owned t (r_lock r) (lock_owner r 6 w)"
    using race_invD(1) [OF assms(2)] other by (simp add: relocked_owned [OF t(2)] u lock_owner_def)
  ultimately have "race_inv r d (Suc 5) w t"
    using assms(2) cpus unfolding race_inv_def
    by (simp add: relocked_depth [OF t(2)] relocked_fields [OF t(2)] u sleeper_depth_def)
  then show ?thesis
    using t(1) by (intro sleeper_movesI(1) [of _ r s t]) (simp_all add: run_simps)
qed

lemma sleeper_can_move:
  assumes "race_parties r" and "race_inv r d i w s" and "i < 6"
  shows "sleeper_moves r d i w s (sleeper_code r ! i)"
proof -
  have "i = 0 \<or> i = 1 \<or> i = 2 \<or> i = 3 \<or> i = 4 \<or> i = 5"
    using assms(3) by linarith
  then show ?thesis
    using assms(2) sleeper_takes_proc_lock [OF assms(1)] sleeper_drops_lock [OF assms(1)] sleeper_marks
      sleeper_switches [OF assms(1)] scheduler_drops_proc_lock [OF assms(1)]
    by (elim disjE) (simp_all add: sleeper_list [OF assms(1)])
qed

text \<open>The waker's CPU can take its step, or it waits for a lock that the sleeper's CPU will drop.\<close>

definition waker_moves :: "party \<Rightarrow> int \<Rightarrow> nat \<Rightarrow> wpos \<Rightarrow> kstate \<Rightarrow> unit k \<Rightarrow> bool" where
  "waker_moves r d i w s m \<longleftrightarrow> m (on_cpu (r_other r) s) = Spin \<and> i < 6 \<or>
     (\<exists>t. m (on_cpu (r_other r) s) = Ok () t \<and> race_inv r d i (waker_next w) t)"

lemma waker_relocks:
  assumes "race_parties r" and "race_inv r d i w s" and "relocked (r_other r) l who (d + waker_locks w') s t"
    and "waker_ok w'" and "2 \<le> i" and "i \<le> 5 \<Longrightarrow> \<not> reached (r_proc r) w'" and "passed (r_proc r) w' = passed (r_proc r) w"
    and "owned t (r_lock r) (lock_owner r i w')" and "\<And>q. q < NPROC \<Longrightarrow> owned t (ProcLock q) (proc_owner r i w' q)"
  shows "race_inv r d i w' t"
proof -
  have "depth t (r_other r) (d + waker_locks w')" "depth t (r_cpu r) (sleeper_depth i)"
    using assms(1-3) race_invD(3) [OF assms(2)] by (auto simp: relocked_def race_parties_def depth_def)
  then show ?thesis
    using assms(2,4-9) relocked_fields [OF assms(3)] unfolding race_inv_def by simp
qed

lemma waker_takes_lock:
  assumes "race_parties r" and "race_inv r d i Start s"
  shows "waker_moves r d i Start s (acquire (r_lock r))"
proof (cases "i \<le> 1")
  case True
  then show ?thesis
    using assms acquire_spins [of s "r_other r" d "r_lock r" "r_cpu r"] by (auto simp: waker_moves_def race_defs race_parties_def)
next
  case False
  have other: "ProcLock q \<noteq> r_lock r" for q
    using assms(1) by (metis race_parties_def)
  obtain t where t: "acquire (r_lock r) (on_cpu (r_other r) s) = Ok () t" "relocked (r_other r) (r_lock r) (Some (r_other r)) (d + 1) s t"
    using acquire_owned [of s "r_other r" d "r_lock r"] assms False by (auto simp: race_defs)
  then have "race_inv r d i Locked t"
    using assms False other
    by (auto simp: race_defs race_parties_def relocked_owned [OF t(2)] relocked_depth [OF t(2)] relocked_fields [OF t(2)])
  then show ?thesis
    using t(1) by (simp add: waker_moves_def)
qed

lemma waker_changes:
  assumes "race_parties r" and "race_inv r d i Locked s"
  shows "waker_moves r d i Locked s (modify (r_change r))"
proof -
  have "off_lock (r_change r)"
    using assms(1) by (simp add: race_parties_def)
  note same = off_lock_same [OF this]
  show ?thesis
    using assms by (auto simp: waker_moves_def modify_apply race_defs race_parties_def owned_def depth_def same)
qed

lemma waker_scans:
  assumes "race_parties r" and "race_inv r d i (Scan q) s" and "q < NPROC"
  shows "waker_moves r d i (Scan q) s (acquire (ProcLock q))"
proof (cases "q = r_proc r \<and> i \<le> 5")
  case True
  then show ?thesis
    using assms acquire_spins [of s "r_other r" "d + 1" "ProcLock q" "r_cpu r"] by (auto simp: waker_moves_def race_defs race_parties_def)
next
  case False
  obtain t where t: "acquire (ProcLock q) (on_cpu (r_other r) s) = Ok () t"
      "relocked (r_other r) (ProcLock q) (Some (r_other r)) (d + 1 + 1) s t"
  proof -
    have "owned s (ProcLock q) None" and "depth s (r_other r) (d + 1)"
      using race_invD(2) [OF assms(2,3)] race_invD(4) [OF assms(2)] False by (auto simp: proc_owner_def)
    then show thesis
      using acquire_owned that by blast
  qed
  have i: "2 \<le> i" "i \<le> 5 \<Longrightarrow> \<not> reached (r_proc r) (Scan q)"
    using assms(2) by (auto simp: race_inv_def)
  have other: "r_lock r \<noteq> ProcLock q"
    using assms(1) by (simp add: race_parties_def)
  have "race_inv r d i (Holding q) t"
  proof (rule waker_relocks [OF assms(1,2)])
    show "relocked (r_other r) (ProcLock q) (Some (r_other r)) (d + waker_locks (Holding q)) s t"
      using t(2) by (simp add: algebra_simps)
    show "owned t (r_lock r) (lock_owner r i (Holding q))"
      using race_invD(1) [OF assms(2)] other i(1) by (simp add: relocked_owned [OF t(2)] lock_owner_def)
    show "owned t (ProcLock q') (proc_owner r i (Holding q) q')" if "q' < NPROC" for q'
      using race_invD(2) [OF assms(2) that] False by (auto simp: relocked_owned [OF t(2)] proc_owner_def)
  qed (use i assms(3) False in auto)
  then show ?thesis
    using t(1) assms(3) by (simp add: waker_moves_def)
qed

lemma race_inv_procs:
  assumes "race_inv r d i w s" and "k_locks t = k_locks s" and "k_cpus t = k_cpus s" and "k_conts t = k_conts s" and "k_started t = k_started s"
    and "waker_ok w'" and "waker_locks w' = waker_locks w" and "2 \<le> i" and "i \<le> 5 \<Longrightarrow> \<not> reached (r_proc r) w'"
    and "\<And>q. proc_owner r i w' q = proc_owner r i w q"
    and "3 \<le> i \<Longrightarrow> p_chan (k_procs t (r_proc r)) = Some (r_chan r)"
    and "4 \<le> i \<Longrightarrow> p_state (k_procs t (r_proc r)) = (if passed (r_proc r) w' then RUNNABLE else SLEEPING)"
  shows "race_inv r d i w' t"
proof -
  have "owned t = owned s" and "depth t = depth s"
    using assms(2,3) by (simp_all add: fun_eq_iff owned_def depth_def)
  then show ?thesis
    using assms(1,3-12) unfolding race_inv_def by (simp add: lock_owner_def)
qed

lemma waker_checks:
  assumes "race_parties r" and "race_inv r d i (Holding q) s"
  shows "waker_moves r d i (Holding q) s (wakeup_steps (r_chan r) q ! 1)"
proof -
  have run: "(wakeup_steps (r_chan r) q ! 1) (on_cpu (r_other r) s) = Ok () (upd_proc q (woken (r_chan r)) (on_cpu (r_other r) s))"
    by (auto simp: wakeup_steps_def woken_def run_simps upd_proc_def)
  have "race_inv r d i (Checked q) (upd_proc q (woken (r_chan r)) (on_cpu (r_other r) s))"
  proof (rule race_inv_procs [OF assms(2)])
    show "p_chan (k_procs (upd_proc q (woken (r_chan r)) (on_cpu (r_other r) s)) (r_proc r)) = Some (r_chan r)" if "3 \<le> i"
      using assms(2) that by (auto simp: race_inv_def upd_proc_def woken_def)
    show "p_state (k_procs (upd_proc q (woken (r_chan r)) (on_cpu (r_other r) s)) (r_proc r)) =
        (if passed (r_proc r) (Checked q) then RUNNABLE else SLEEPING)" if "4 \<le> i"
      using assms(2) that by (auto simp: race_inv_def upd_proc_def woken_def)
  qed (use assms(2) in \<open>auto simp: race_inv_def proc_owner_def upd_proc_def\<close>)
  then show ?thesis
    unfolding waker_moves_def run by simp
qed

lemma waker_releases:
  assumes "race_parties r" and "race_inv r d i (Checked q) s"
  shows "waker_moves r d i (Checked q) s (release (ProcLock q))"
proof -
  have "owned s (ProcLock q) (Some (r_other r))" and "depth s (r_other r) (d + 2)" and "0 < d + 2"
    using race_invD(2) [OF assms(2), of q] race_invD(4,5,7) [OF assms(2)] assms(2) by (auto simp: proc_owner_def race_inv_def)
  then obtain t where t: "release (ProcLock q) (on_cpu (r_other r) s) = Ok () t" "relocked (r_other r) (ProcLock q) None (d + 2 - 1) s t"
    using release_owned by blast
  have i: "2 \<le> i" "i \<le> 5 \<Longrightarrow> \<not> reached (r_proc r) (Checked q)" "q < NPROC"
    using assms(2) by (auto simp: race_inv_def)
  have other: "r_lock r \<noteq> ProcLock q"
    using assms(1) by (simp add: race_parties_def)
  have "race_inv r d i (Scan (Suc q)) t"
  proof (rule waker_relocks [OF assms(1,2)])
    show "relocked (r_other r) (ProcLock q) None (d + waker_locks (Scan (Suc q))) s t"
      using t(2) by (simp add: algebra_simps)
    show "owned t (r_lock r) (lock_owner r i (Scan (Suc q)))"
      using race_invD(1) [OF assms(2)] other i(1) by (simp add: relocked_owned [OF t(2)] lock_owner_def)
    show "owned t (ProcLock q') (proc_owner r i (Scan (Suc q)) q')" if "q' < NPROC" for q'
      using race_invD(2) [OF assms(2) that] i(2) by (auto simp: relocked_owned [OF t(2)] proc_owner_def)
  qed (use i in auto)
  then show ?thesis
    using t(1) by (simp add: waker_moves_def)
qed

lemma waker_ends:
  assumes "race_parties r" and "race_inv r d i (Scan NPROC) s"
  shows "waker_moves r d i (Scan NPROC) s (release (r_lock r))"
proof -
  have other: "ProcLock q \<noteq> r_lock r" for q
    using assms(1) by (metis race_parties_def)
  have "owned s (r_lock r) (Some (r_other r))" and "depth s (r_other r) (d + 1)" and "0 < d + 1"
    using race_invD(1,4,5) [OF assms(2)] assms(2) by (auto simp: lock_owner_def race_inv_def)
  then obtain t where t: "release (r_lock r) (on_cpu (r_other r) s) = Ok () t" "relocked (r_other r) (r_lock r) None (d + 1 - 1) s t"
    using release_owned by blast
  have "race_inv r d i Done t"
    using assms other
    by (auto simp: race_defs race_parties_def relocked_owned [OF t(2)] relocked_depth [OF t(2)] relocked_fields [OF t(2)])
  then show ?thesis
    using t(1) by (simp add: waker_moves_def)
qed

lemma waker_can_move:
  assumes "race_parties r" and "race_inv r d i w s" and "w \<noteq> Done"
  shows "\<exists>m. waker_at r w = m # waker_at r (waker_next w) \<and> waker_moves r d i w s m"
proof (cases w)
  case Start
  then show ?thesis
    using waker_takes_lock [OF assms(1)] assms(2) by (simp add: waker_code_def)
next
  case Locked
  then show ?thesis
    using waker_changes [OF assms(1)] assms(2) by simp
next
  case (Scan q)
  show ?thesis
  proof (cases "q < NPROC")
    case True
    then show ?thesis
      using Scan waker_scans [OF assms(1)] assms(2) by (simp add: scan_code_Suc)
  next
    case False
    then have "q = NPROC"
      using Scan race_invD(7) [OF assms(2)] by simp
    then show ?thesis
      using Scan waker_ends [OF assms(1)] assms(2) by (simp add: scan_code_end)
  qed
next
  case (Holding q)
  then show ?thesis
    using waker_checks [OF assms(1)] assms(2) by (simp add: wakeup_steps_def)
next
  case (Checked q)
  then show ?thesis
    using waker_releases [OF assms(1)] assms(2) by simp
qed (use assms(3) in simp)

section \<open>Every interleaving\<close>

text \<open>The shape of every state of the race.\<close>

definition race_at :: "party \<Rightarrow> race_state \<Rightarrow> bool" where
  "race_at r c \<longleftrightarrow> (\<exists>d i w s. c = (s, drop i (sleeper_code r), waker_at r w) \<and> race_inv r d i w s)"

lemma race_at_step:
  assumes "race_parties r" and "race_at r c" and "race r c c'"
  shows "race_at r c'"
proof -
  obtain d i w s where c: "c = (s, drop i (sleeper_code r), waker_at r w)" and inv: "race_inv r d i w s"
    using assms(2) by (auto simp: race_at_def)
  have len: "length (sleeper_code r) = 6"
    by (simp add: sleeper_list [OF assms(1)])
  consider (sleeper) t ms' where "cpu_step (r_cpu r) s (drop i (sleeper_code r)) t ms'" "c' = (t, ms', waker_at r w)"
    | (waker) t ns' where "cpu_step (r_other r) s (waker_at r w) t ns'" "c' = (t, drop i (sleeper_code r), ns')"
    using assms(3) unfolding c by (auto elim: raceE)
  then show ?thesis
  proof cases
    case (sleeper t ms')
    then have "drop i (sleeper_code r) \<noteq> []"
      by (auto elim: cpu_stepE)
    then have i: "i < 6" and "drop i (sleeper_code r) = sleeper_code r ! i # drop (Suc i) (sleeper_code r)"
      using len Cons_nth_drop_Suc [of i "sleeper_code r"] by simp_all
    with sleeper(1) have "ms' = drop (Suc i) (sleeper_code r)"
        "(sleeper_code r ! i) (on_cpu (r_cpu r) s) = Ok () t \<or> (sleeper_code r ! i) (on_cpu (r_cpu r) s) = Switch t"
      by (auto elim!: cpu_stepE)
    moreover have "race_inv r d (Suc i) w t"
      using sleeper_can_move [OF assms(1) inv i] calculation(2) by (auto simp: sleeper_moves_def)
    ultimately show ?thesis
      using sleeper(2) unfolding race_at_def by blast
  next
    case (waker t ns')
    then have "w \<noteq> Done"
      by (auto elim!: cpu_stepE)
    then obtain m where m: "waker_at r w = m # waker_at r (waker_next w)" "waker_moves r d i w s m"
      using waker_can_move [OF assms(1) inv] by blast
    then have "ns' = waker_at r (waker_next w)" "race_inv r d i (waker_next w) t"
      using waker(1) by (auto elim!: cpu_stepE simp: waker_moves_def)
    then show ?thesis
      using waker(2) unfolding race_at_def by blast
  qed
qed

lemma race_progress:
  assumes "race_parties r" and "race_at r (s, ms, ns)" and "ms \<noteq> [] \<or> ns \<noteq> []"
  shows "\<exists>c. race r (s, ms, ns) c"
proof -
  obtain d i w where at: "ms = drop i (sleeper_code r)" "ns = waker_at r w" and inv: "race_inv r d i w s"
    using assms(2) by (auto simp: race_at_def)
  have len: "length (sleeper_code r) = 6"
    by (simp add: sleeper_list [OF assms(1)])
  show ?thesis
  proof (cases "i < 6")
    case True
    then have "ms = sleeper_code r ! i # drop (Suc i) (sleeper_code r)"
      using at(1) len Cons_nth_drop_Suc [of i "sleeper_code r"] by simp
    then show ?thesis
      using sleeper_can_move [OF assms(1) inv True] unfolding sleeper_moves_def by (blast intro: race.intros cpu_step.intros)
  next
    case False
    then have "w \<noteq> Done"
      using at len assms(3) by auto
    then show ?thesis
      using waker_can_move [OF assms(1) inv] False at(2) unfolding waker_moves_def by (force intro: race.intros cpu_step.intros)
  qed
qed

text \<open>The next statement of neither CPU panics, whichever of the two is to run.\<close>

lemma race_no_panic:
  assumes "race_parties r" and "race_at r (s, ms, ns)"
  shows "ms \<noteq> [] \<Longrightarrow> hd ms (on_cpu (r_cpu r) s) \<noteq> Panic e" and "ns \<noteq> [] \<Longrightarrow> hd ns (on_cpu (r_other r) s) \<noteq> Panic e"
proof -
  obtain d i w where at: "ms = drop i (sleeper_code r)" "ns = waker_at r w" and inv: "race_inv r d i w s"
    using assms(2) by (auto simp: race_at_def)
  show "hd ms (on_cpu (r_cpu r) s) \<noteq> Panic e" if "ms \<noteq> []"
  proof -
    have i: "i < length (sleeper_code r)"
      using that at(1) by simp
    moreover from this have "i < 6"
      by (simp add: sleeper_list [OF assms(1)])
    ultimately show ?thesis
      using sleeper_can_move [OF assms(1) inv] at(1) by (auto simp: sleeper_moves_def hd_drop_conv_nth)
  qed
  show "hd ns (on_cpu (r_other r) s) \<noteq> Panic e" if "ns \<noteq> []"
  proof -
    have "w \<noteq> Done"
      using that at(2) by auto
    then show ?thesis
      using waker_can_move [OF assms(1) inv] at(2) by (auto simp: waker_moves_def)
  qed
qed

lemma waker_at_Nil: "waker_at r w = [] \<longleftrightarrow> w = Done"
  by (cases w) (simp_all add: waker_code_def scan_code_def wakeup_steps_def)

lemma race_finished:
  assumes "race_parties r" and "race_at r (s, ms, [])"
  shows "ms = []" and "p_state (k_procs s (r_proc r)) = RUNNABLE"
proof -
  obtain d i w where at: "ms = drop i (sleeper_code r)" "w = Done" and inv: "race_inv r d i w s"
    using assms(2) by (auto simp: race_at_def waker_at_Nil dest!: sym [of "[]"])
  then have "i = 6"
    by (auto simp: race_inv_def)
  then show "ms = []" and "p_state (k_procs s (r_proc r)) = RUNNABLE"
    using at inv by (auto simp: race_inv_def sleeper_list [OF assms(1)])
qed

text \<open>Every race can be run to its end, since each step shortens what is left to run.\<close>

lemma race_completes:
  assumes "race_parties r" and "race_at r (s, ms, ns)"
  shows "\<exists>t. (race r)\<^sup>*\<^sup>* (s, ms, ns) (t, [], [])"
  using assms(2)
proof (induction "length ms + length ns" arbitrary: s ms ns rule: less_induct)
  case less
  show ?case
  proof (cases "ms = [] \<and> ns = []")
    case False
    then obtain t ms' ns' where c: "race r (s, ms, ns) (t, ms', ns')"
      using race_progress [OF assms(1) less.prems] by (metis prod_cases3)
    then have "length ms' + length ns' < length ms + length ns"
      by (auto elim!: raceE cpu_stepE)
    then show ?thesis
      using less.hyps race_at_step [OF assms(1) less.prems c] c by (meson converse_rtranclp_into_rtranclp)
  qed auto
qed

section \<open>A race for the witness\<close>

text \<open>A process waiting for the clock on CPU 0, and the timer interrupt on CPU 1.\<close>

definition demo_party :: party where
  "demo_party = \<lparr>r_cpu = 0, r_other = 1, r_proc = 2, r_lock = TicksLock, r_chan = ChTicks, r_turn = 0,
     r_change = (\<lambda>s. s\<lparr>k_ticks := k_ticks s + 1\<rparr>)\<rparr>"

definition demo_race :: kstate where
  "demo_race = locked_state TicksLock (demo_running\<lparr>k_conts := (k_conts zero_state)(3 := (k_conts zero_state 3)\<lparr>ct_state := CRUNNING\<rparr>)\<rparr>)"

lemma demo_race_ready: "race_ready demo_party demo_race"
  by (auto simp: race_ready_def demo_party_def demo_race_def demo_running_def zero_state_def off_lock_def lock_free_def
      lock_held_def cpu_ok_def Let_def locked_state_def irq_pushed_def upd_defs intro!: exI [of _ 3])

section \<open>Properties\<close>

text \<open>C2 (no lost wake-up). One CPU runs a process that holds the condition lock and calls \<open>sleep\<close>;
  another takes the condition lock, makes the condition true, calls \<open>wakeup\<close> and drops the lock.
  The statements of the two interleave in any way. Wherever the interleaving stands, the machine
  is not stuck: one of the two CPUs has a step to take, which neither panics nor spins; and the
  next statement of either CPU, taken there, would not panic. When the waker is through, the sleeper has given up the CPU and is runnable again: its wake-up
  was not lost. (The lock operations and the scan of one process are single steps; the CPUs
  beside these two do not take part.)\<close>

theorem sleep_no_lost_wakeup:
  assumes "race_ready r s" and "(race r)\<^sup>*\<^sup>* (s, sleeper_code r, waker_code r) (t, ms, ns)"
  shows "(ms \<noteq> [] \<or> ns \<noteq> [] \<longrightarrow> (\<exists>c. race r (t, ms, ns) c)) \<and>
    (ms \<noteq> [] \<longrightarrow> (\<forall>e. hd ms (on_cpu (r_cpu r) t) \<noteq> Panic e)) \<and>
    (ns \<noteq> [] \<longrightarrow> (\<forall>e. hd ns (on_cpu (r_other r) t) \<noteq> Panic e)) \<and>
    (ns = [] \<longrightarrow> ms = [] \<and> p_state (k_procs t (r_proc r)) = RUNNABLE)"
proof -
  note start = race_inv_start [OF assms(1)]
  have "race_at r (s, sleeper_code r, waker_code r)"
    unfolding race_at_def using start(2) by (metis drop0 waker_at.simps(1))
  with assms(2) have "race_at r (t, ms, ns)"
    by (induction rule: rtranclp_induct) (auto intro: race_at_step [OF start(1)])
  then show ?thesis
    using race_progress [OF start(1)] race_no_panic [OF start(1)] race_finished [OF start(1)] by blast
qed

theorem sleep_no_lost_wakeup_witness:
  "\<exists>t. (race demo_party)\<^sup>*\<^sup>* (demo_race, sleeper_code demo_party, waker_code demo_party) (t, [], []) \<and>
     p_state (k_procs t 2) = RUNNABLE"
proof -
  note start = race_inv_start [OF demo_race_ready]
  have "race_at demo_party (demo_race, sleeper_code demo_party, waker_code demo_party)"
    unfolding race_at_def using start(2) by (metis drop0 waker_at.simps(1))
  then obtain t where "(race demo_party)\<^sup>*\<^sup>* (demo_race, sleeper_code demo_party, waker_code demo_party) (t, [], [])"
    using race_completes [OF start(1)] by blast
  moreover from this have "p_state (k_procs t 2) = RUNNABLE"
    using sleep_no_lost_wakeup [OF demo_race_ready] by (simp add: demo_party_def)
  ultimately show ?thesis by blast
qed

end
