(* ===== verification/Xv6_User.thy ===== *)
theory Xv6_User
  imports Xv6_Printf
begin

text \<open>
  The world of a user program, and the part of \<open>user/ulib.c\<close> and \<open>user/printf.c\<close> that makes
  system calls. A program is an action over a \<open>ustate\<close>: it issues calls, each of which takes
  the next reply of a script, the script being whatever the kernel and the rest of the system
  answer. A theorem for all scripts therefore holds for every behaviour of the kernel that the
  replies can express. A program that waits for a reply beyond the end of the script, or has
  exited, ends in the outcome \<open>Switch\<close> with the call it left in as the pending one.
\<close>

section \<open>System calls and replies\<close>

text \<open>The calls of \<open>user/user.h\<close>, with the values the stubs of \<open>user/usys.pl\<close> pass on.\<close>

datatype ucall =
    UFork | UExit int | UWait | UPipe
  | UWrite int "u8 list" | URead int nat | UClose int | UKill int
  | UExec "u8 list" "u8 list list" | UOpen "u8 list" nat | UMknod "u8 list" int int
  | UUnlink "u8 list" | UFstat int | ULink "u8 list" "u8 list" | UMkdir "u8 list"
  | UChdir "u8 list" | UDup int | UGetpid | USbrk int | USleep int | UUptime
  | UTraceon | UPsinfo | USuspend int int | UResume "u8 list"
  | UCinfo | UCinit "u8 list" "u8 list" int int int | UCpause "u8 list" | UCresume "u8 list"
  | UCstop "u8 list"

text \<open>
  A reply: the value returned, the bytes stored through a pointer argument (by \<open>read\<close>,
  \<open>fstat\<close> and the table calls), and the integers stored through pointers to \<open>int\<close>: two
  descriptors by \<open>pipe\<close>, the number of entries by the table calls.
\<close>

record ureply =
  r_val :: int
  r_data :: "u8 list"
  r_ints :: "int \<times> int"

type_synonym utrace = "(ucall \<times> ureply) list"

text \<open>
  The state of the program: the replies to come, the calls made so far with their replies, the
  call it waits in, and the heap of \<open>user/umalloc.c\<close>: the header at every address (the static
  \<open>base\<close> included) and the pointer \<open>freep\<close>.
\<close>

record uheader =
  h_ptr :: u64
  h_size :: u32

record ustate =
  u_script :: "ureply list"
  u_trace :: utrace
  u_pending :: "ucall option"
  u_hdr :: "u64 \<Rightarrow> uheader"
  u_freep :: u64

definition ustart :: "ureply list \<Rightarrow> ustate" where
  "ustart rs = \<lparr>u_script = rs, u_trace = [], u_pending = None,
     u_hdr = (\<lambda>_. \<lparr>h_ptr = 0, h_size = 0\<rparr>), u_freep = 0\<rparr>"

type_synonym 'a u = "(ustate, 'a) kernel"

definition issue :: "ucall \<Rightarrow> ureply u" where
  "issue c = (\<lambda>s. case u_script s of
      [] \<Rightarrow> Switch (s\<lparr>u_pending := Some c\<rparr>)
    | r # rs \<Rightarrow> Ok r (s\<lparr>u_script := rs, u_trace := u_trace s @ [(c, r)]\<rparr>))"

definition uexit :: "int \<Rightarrow> 'a u" where
  "uexit n = (\<lambda>s. Switch (s\<lparr>u_pending := Some (UExit n)\<rparr>))"

definition usys :: "ucall \<Rightarrow> int u" where
  "usys c = bind (issue c) (\<lambda>r. return (r_val r))"

text \<open>
  \<open>read\<close> gives the bytes stored in the buffer, whose number is the value returned, or \<open>None\<close>
  for a negative value. The kernel stores at most the number of bytes asked for.
\<close>

definition read_result :: "nat \<Rightarrow> ureply \<Rightarrow> u8 list option" where
  "read_result n r = (if r_val r < 0 then None else Some (take n (r_data r)))"

definition uread :: "int \<Rightarrow> nat \<Rightarrow> u8 list option u" where
  "uread fd n = bind (issue (URead fd n)) (\<lambda>r. return (read_result n r))"

definition uwrite :: "int \<Rightarrow> u8 list \<Rightarrow> int u" where
  "uwrite fd b = usys (UWrite fd b)"

text \<open>A loop whose rounds make at least one call has at most as many rounds as there are replies.\<close>

definition uloop :: "('a \<Rightarrow> ('a + 'r) u) \<Rightarrow> 'a \<Rightarrow> 'r u" where
  "uloop body x = (\<lambda>s. loop (Suc (length (u_script s))) body x s)"

abbreviation ignore :: "'a u \<Rightarrow> unit u" where
  "ignore m \<equiv> bind m (\<lambda>_. return ())"

text \<open>The bytes of a string literal.\<close>

abbreviation lit :: "string \<Rightarrow> u8 list" where
  "lit s \<equiv> map of_char s"

section \<open>Library routines\<close>

text \<open>
  \<open>gets\<close> reads one character at a time, \<open>n\<close> at most (\<open>max - 1\<close> at the call); what it leaves in the
  buffer in front of the final NUL.
\<close>

primrec gets_loop :: "nat \<Rightarrow> u8 list \<Rightarrow> u8 list u" where
  "gets_loop 0 acc = return acc"
| "gets_loop (Suc n) acc =
     bind (uread 0 1) (\<lambda>cc. case cc of
       Some (c # _) \<Rightarrow> if c = 10 \<or> c = 13 then return (acc @ [c]) else gets_loop n (acc @ [c])
     | _ \<Rightarrow> return acc)"

definition ugets :: "nat \<Rightarrow> u8 list u" where
  "ugets max_n = gets_loop (max_n - 1) []"

definition ustat :: "u8 list \<Rightarrow> (int \<times> u8 list) u" where
  "ustat n =
     bind (usys (UOpen n 0)) (\<lambda>fd.
     if fd < 0 then return (- 1, [])
     else bind (issue (UFstat fd)) (\<lambda>r.
          seq (usys (UClose fd)) (return (r_val r, r_data r))))"

section \<open>Formatted output\<close>

definition udigits :: "nat \<Rightarrow> u8" where
  "udigits i = lit ''0123456789ABCDEF'' ! i"

definition putc :: "int \<Rightarrow> u8 \<Rightarrow> unit u" where
  "putc fd c = ignore (uwrite fd [c])"

function uprintint_digits :: "nat \<Rightarrow> nat \<Rightarrow> u8 list" where
  "uprintint_digits base x =
     udigits (x mod base) #
     (if base < 2 \<or> x div base = 0 then [] else uprintint_digits base (x div base))"
  by auto
termination
  by (relation "measure snd") (auto intro!: div_less_dividend simp: div_greater_zero_iff)

declare uprintint_digits.simps [simp del]

definition uprintint_text :: "u32 \<Rightarrow> nat \<Rightarrow> bool \<Rightarrow> u8 list" where
  "uprintint_text xx base sign =
     (let neg = (sign \<and> sint xx < 0);
          x = (if neg then - xx else xx)
      in rev (uprintint_digits base (unat x) @ (if neg then [45] else [])))"

definition uprintint :: "int \<Rightarrow> u32 \<Rightarrow> nat \<Rightarrow> bool \<Rightarrow> unit u" where
  "uprintint fd xx base sign = for_each (uprintint_text xx base sign) (putc fd)"

definition uprintptr :: "int \<Rightarrow> u64 \<Rightarrow> unit u" where
  "uprintptr fd x =
     seq (putc fd 48) (seq (putc fd 120)
     (for_each [0..<16] (\<lambda>i. putc fd (udigits (unat (drop_bit 60 (push_bit (4 * i) x)))))))"

text \<open>One conversion: what is printed, and the arguments left.\<close>

definition vprintf_conv :: "int \<Rightarrow> char \<Rightarrow> varg list \<Rightarrow> unit u \<times> varg list" where
  "vprintf_conv fd c ap =
     (if c = CHR ''d'' then (uprintint fd (va_int ap) 10 True, tl ap)
      else if c = CHR ''l'' then (uprintint fd (ucast (va_long ap)) 10 False, tl ap)
      else if c = CHR ''x'' then (uprintint fd (va_int ap) 16 False, tl ap)
      else if c = CHR ''p'' then (uprintptr fd (va_long ap), tl ap)
      else if c = CHR ''s'' then (for_each (va_str ap) (putc fd), tl ap)
      else if c = CHR ''c'' then (putc fd (ucast (va_int ap)), tl ap)
      else if c = CHR ''%'' then (putc fd 37, ap)
      else (seq (putc fd 37) (putc fd (of_char c)), ap))"

text \<open>\<open>pct\<close> is the variable \<open>state\<close>: whether the last character was a percent sign.\<close>

fun vprintf_loop :: "int \<Rightarrow> bool \<Rightarrow> string \<Rightarrow> varg list \<Rightarrow> unit u" where
  "vprintf_loop fd pct [] ap = return ()"
| "vprintf_loop fd False (c # fmt) ap =
     (if c = CHR ''%'' then vprintf_loop fd True fmt ap
      else seq (putc fd (of_char c)) (vprintf_loop fd False fmt ap))"
| "vprintf_loop fd True (c # fmt) ap =
     seq (fst (vprintf_conv fd c ap)) (vprintf_loop fd False fmt (snd (vprintf_conv fd c ap)))"

definition vprintf :: "int \<Rightarrow> string \<Rightarrow> varg list \<Rightarrow> unit u" where
  "vprintf fd fmt ap = vprintf_loop fd False fmt ap"

definition fprintf :: "int \<Rightarrow> string \<Rightarrow> varg list \<Rightarrow> unit u" where
  "fprintf fd fmt ap = vprintf fd fmt ap"

definition uprintf :: "string \<Rightarrow> varg list \<Rightarrow> unit u" where
  "uprintf fmt ap = vprintf 1 fmt ap"

section \<open>How a program ends\<close>

text \<open>
  The judgement on runs: the program returns and \<open>Q\<close> holds, or it waits or has exited and \<open>R\<close>
  holds; it neither panics nor loops for ever.
\<close>

definition ends :: "'a u \<Rightarrow> ('a \<Rightarrow> ustate \<Rightarrow> bool) \<Rightarrow> (ustate \<Rightarrow> bool) \<Rightarrow> ustate \<Rightarrow> bool" where
  "ends m Q R s \<longleftrightarrow>
     (case m s of Ok a t \<Rightarrow> Q a t | Switch t \<Rightarrow> R t | Panic e \<Rightarrow> False | Spin \<Rightarrow> False)"

text \<open>What a trace says was read from and written to a descriptor.\<close>

definition read_of :: "int \<Rightarrow> ucall \<times> ureply \<Rightarrow> u8 list" where
  "read_of fd = (\<lambda>(c, r). case c of
      URead fd' n \<Rightarrow> if fd' = fd then (case read_result n r of Some b \<Rightarrow> b | None \<Rightarrow> []) else []
    | _ \<Rightarrow> [])"

definition written_of :: "int \<Rightarrow> ucall \<times> ureply \<Rightarrow> u8 list" where
  "written_of fd = (\<lambda>(c, r). case c of UWrite fd' b \<Rightarrow> if fd' = fd then b else [] | _ \<Rightarrow> [])"

definition received :: "int \<Rightarrow> utrace \<Rightarrow> u8 list" where
  "received fd t = concat (map (read_of fd) t)"

definition uwritten :: "int \<Rightarrow> utrace \<Rightarrow> u8 list" where
  "uwritten fd t = concat (map (written_of fd) t)"

lemma received_simps [simp]:
  "received fd [] = []" "received fd (t @ t') = received fd t @ received fd t'"
  "received fd ((c, r) # t) = read_of fd (c, r) @ received fd t"
  by (simp_all add: received_def)

lemma written_simps [simp]:
  "uwritten fd [] = []" "uwritten fd (t @ t') = uwritten fd t @ uwritten fd t'"
  "uwritten fd ((c, r) # t) = written_of fd (c, r) @ uwritten fd t"
  by (simp_all add: uwritten_def)

lemma event_simps [simp]:
  "written_of fd (UWrite fd' b, r) = (if fd' = fd then b else [])"
  "written_of fd (URead fd' n, r) = []"
  "read_of fd (UWrite fd' b, r) = []"
  "read_of fd (URead fd' n, r) = (if fd' = fd then (case read_result n r of Some b \<Rightarrow> b | None \<Rightarrow> []) else [])"
  by (simp_all add: written_of_def read_of_def)

lemma ends_return [simp]: "ends (return a) Q R = Q a"
  by (simp add: ends_def return_apply fun_eq_iff)

lemma ends_bind [simp]: "ends (bind m f) Q R s = ends m (\<lambda>a. ends (f a) Q R) R s"
  by (auto simp: ends_def bind_def split: outcome.split)

lemma ends_seq [simp]: "ends (seq m m') Q R s = ends m (\<lambda>_. ends m' Q R) R s"
  by (simp add: seq_def)

lemma ends_exit [simp]: "ends (uexit n) Q R s = R (s\<lparr>u_pending := Some (UExit n)\<rparr>)"
  by (simp add: ends_def uexit_def)

lemma ends_mono:
  "ends m Q R s \<Longrightarrow> (\<And>a t. Q a t \<Longrightarrow> Q' a t) \<Longrightarrow> (\<And>t. R t \<Longrightarrow> R' t) \<Longrightarrow> ends m Q' R' s"
  by (auto simp: ends_def split: outcome.splits)

lemma ends_conj: "ends m Q R s \<Longrightarrow> ends m Q' R' s \<Longrightarrow> ends m (\<lambda>a t. Q a t \<and> Q' a t) (\<lambda>t. R t \<and> R' t) s"
  by (auto simp: ends_def split: outcome.splits)

lemma ends_issue:
  assumes "\<And>r rs. u_script s = r # rs \<Longrightarrow> Q r (s\<lparr>u_script := rs, u_trace := u_trace s @ [(c, r)]\<rparr>)"
    and "u_script s = [] \<Longrightarrow> R (s\<lparr>u_pending := Some c\<rparr>)"
  shows "ends (issue c) Q R s"
  using assms by (auto simp: ends_def issue_def split: list.split)

lemma ends_uloop:
  assumes "I x s"
    and step: "\<And>x s. I x s \<Longrightarrow> ends (body x) (\<lambda>r t. case r of
        Inl y \<Rightarrow> I y t \<and> length (u_script t) < length (u_script s) | Inr v \<Rightarrow> Q v t) R s"
  shows "ends (uloop body x) Q R s"
proof -
  have "length (u_script s) < n \<Longrightarrow> I x s \<Longrightarrow> ends (loop n body x) Q R s" for n
  proof (induction n arbitrary: x s)
    case 0
    then show ?case by simp
  next
    case (Suc n)
    have "ends (body x) (\<lambda>r. ends (case r of Inl y \<Rightarrow> loop n body y | Inr v \<Rightarrow> return v) Q R) R s"
      using step [OF Suc.prems(2)]
    proof (rule ends_mono)
      fix r t
      assume "case r of Inl y \<Rightarrow> I y t \<and> length (u_script t) < length (u_script s) | Inr v \<Rightarrow> Q v t"
      then show "ends (case r of Inl y \<Rightarrow> loop n body y | Inr v \<Rightarrow> return v) Q R t"
        using Suc.IH [of t] Suc.prems(1) by (auto split: sum.splits)
    qed
    then show ?case
      by (subst loop.simps) simp
  qed
  from this [of "Suc (length (u_script s))"] assms(1) show ?thesis
    by (simp add: uloop_def ends_def)
qed

lemma ends_uwrite:
  assumes "\<And>r t. u_trace t = u_trace s @ [(UWrite fd b, r)] \<Longrightarrow> length (u_script t) < length (u_script s) \<Longrightarrow> Q (r_val r) t"
    and "\<And>t. u_trace t = u_trace s \<Longrightarrow> u_pending t = Some (UWrite fd b) \<Longrightarrow> R t"
  shows "ends (uwrite fd b) Q R s"
  unfolding uwrite_def usys_def ends_bind by (rule ends_issue) (simp_all add: assms)

lemma ends_uread:
  assumes "\<And>r t. u_trace t = u_trace s @ [(URead fd n, r)] \<Longrightarrow> length (u_script t) < length (u_script s) \<Longrightarrow> Q (read_result n r) t"
    and "\<And>t. u_trace t = u_trace s \<Longrightarrow> u_pending t = Some (URead fd n) \<Longrightarrow> R t"
  shows "ends (uread fd n) Q R s"
  unfolding uread_def ends_bind by (rule ends_issue) (simp_all add: assms)

text \<open>Waiting for a read of \<open>fd\<close> or for a write to the standard output.\<close>

definition busy :: "int \<Rightarrow> ustate \<Rightarrow> bool" where
  "busy fd t \<longleftrightarrow> (\<exists>n. u_pending t = Some (URead fd n)) \<or> (\<exists>b. u_pending t = Some (UWrite 1 b))"

section \<open>Printing\<close>

text \<open>A program that writes a text to a descriptor, in however many calls, and makes no other call.\<close>

definition writes :: "int \<Rightarrow> u8 list \<Rightarrow> 'a u \<Rightarrow> bool" where
  "writes fd b m \<longleftrightarrow> (\<forall>s. ends m
     (\<lambda>_ t. \<exists>evs. u_trace t = u_trace s @ evs \<and> map fst evs = map (\<lambda>c. UWrite fd [c]) b \<and>
        length (u_script t) + length b = length (u_script s))
     (\<lambda>t. \<exists>c. u_pending t = Some (UWrite fd [c])) s)"

lemma writes_return: "writes fd [] (return a)"
  by (simp add: writes_def)

lemma writes_seq:
  assumes "writes fd b m" and "writes fd b' m'"
  shows "writes fd (b @ b') (seq m m')"
  unfolding writes_def ends_seq
proof
  fix s :: ustate
  show "ends m (\<lambda>_. ends m'
       (\<lambda>_ t. \<exists>evs. u_trace t = u_trace s @ evs \<and> map fst evs = map (\<lambda>c. UWrite fd [c]) (b @ b') \<and>
          length (u_script t) + length (b @ b') = length (u_script s))
       (\<lambda>t. \<exists>c. u_pending t = Some (UWrite fd [c]))) (\<lambda>t. \<exists>c. u_pending t = Some (UWrite fd [c])) s"
    using assms(1) [unfolded writes_def, rule_format, of s]
  proof (rule ends_mono)
    fix a and t :: ustate
    assume "\<exists>evs. u_trace t = u_trace s @ evs \<and> map fst evs = map (\<lambda>c. UWrite fd [c]) b \<and>
        length (u_script t) + length b = length (u_script s)"
    then obtain evs where evs: "u_trace t = u_trace s @ evs" "map fst evs = map (\<lambda>c. UWrite fd [c]) b"
        "length (u_script t) + length b = length (u_script s)" by blast
    show "ends m'
       (\<lambda>_ t. \<exists>evs. u_trace t = u_trace s @ evs \<and> map fst evs = map (\<lambda>c. UWrite fd [c]) (b @ b') \<and>
          length (u_script t) + length (b @ b') = length (u_script s))
       (\<lambda>t. \<exists>c. u_pending t = Some (UWrite fd [c])) t"
      using assms(2) [unfolded writes_def, rule_format, of t]
      by (rule ends_mono) (use evs in auto)
  qed simp
qed

lemma writes_putc: "writes fd [c] (putc fd c)"
  unfolding writes_def putc_def uwrite_def usys_def ends_bind by (auto intro!: ends_issue)

lemma writes_for_each: "writes fd b (for_each b (putc fd))"
  by (induction b) (use writes_seq [OF writes_putc] in \<open>auto simp: writes_return\<close>)

text \<open>The text a format and its arguments stand for.\<close>

definition conv_text :: "char \<Rightarrow> varg list \<Rightarrow> u8 list \<times> varg list" where
  "conv_text c ap =
     (if c = CHR ''d'' then (uprintint_text (va_int ap) 10 True, tl ap)
      else if c = CHR ''l'' then (uprintint_text (ucast (va_long ap)) 10 False, tl ap)
      else if c = CHR ''x'' then (uprintint_text (va_int ap) 16 False, tl ap)
      else if c = CHR ''p''
        then (48 # 120 # map (\<lambda>i. udigits (unat (drop_bit 60 (push_bit (4 * i) (va_long ap))))) [0..<16], tl ap)
      else if c = CHR ''s'' then (va_str ap, tl ap)
      else if c = CHR ''c'' then ([ucast (va_int ap)], tl ap)
      else if c = CHR ''%'' then ([37], ap)
      else ([37, of_char c], ap))"

fun fmt_text :: "bool \<Rightarrow> string \<Rightarrow> varg list \<Rightarrow> u8 list" where
  "fmt_text pct [] ap = []"
| "fmt_text False (c # fmt) ap =
     (if c = CHR ''%'' then fmt_text True fmt ap else of_char c # fmt_text False fmt ap)"
| "fmt_text True (c # fmt) ap = fst (conv_text c ap) @ fmt_text False fmt (snd (conv_text c ap))"

lemma writes_printptr:
  "writes fd (48 # 120 # map (\<lambda>i. udigits (unat (drop_bit 60 (push_bit (4 * i) x)))) [0..<16]) (uprintptr fd x)"
proof -
  have "for_each is (\<lambda>i. putc fd (f i)) = for_each (map f is) (putc fd)" for "is" :: "nat list" and f
    by (induction "is") simp_all
  then show ?thesis
    unfolding uprintptr_def
    using writes_seq [OF writes_putc writes_seq [OF writes_putc writes_for_each]] by simp
qed

lemma writes_conv: "writes fd (fst (conv_text c ap)) (fst (vprintf_conv fd c ap))"
  using writes_seq [OF writes_putc [of fd 37] writes_putc [of fd "of_char c"]]
  by (simp add: conv_text_def vprintf_conv_def uprintint_def writes_for_each writes_printptr writes_putc)

lemma conv_rest: "snd (vprintf_conv fd c ap) = snd (conv_text c ap)"
  by (simp add: conv_text_def vprintf_conv_def)

lemma writes_vprintf_loop: "writes fd (fmt_text pct fmt ap) (vprintf_loop fd pct fmt ap)"
proof (induction pct fmt ap rule: fmt_text.induct)
  case (2 c fmt ap)
  then show ?case
    using writes_seq [OF writes_putc [of fd "of_char c"]] by auto
next
  case (3 c fmt ap)
  then show ?case
    by (simp add: writes_seq writes_conv conv_rest)
qed (simp add: writes_return)

lemma writes_vprintf: "writes fd (fmt_text False fmt ap) (vprintf fd fmt ap)"
  by (simp add: vprintf_def writes_vprintf_loop)

lemma writes_uprintf: "writes 1 (fmt_text False fmt ap) (uprintf fmt ap)"
  by (simp add: uprintf_def writes_vprintf)

lemma writes_fprintf: "writes fd (fmt_text False fmt ap) (fprintf fd fmt ap)"
  by (simp add: fprintf_def writes_vprintf)

lemma written_events:
  "map fst evs = map (\<lambda>c. UWrite fd [c]) b \<Longrightarrow> uwritten fd' evs = (if fd' = fd then b else []) \<and> received fd' evs = []"
proof (induction b arbitrary: evs)
  case (Cons c b)
  then obtain r evs' where "evs = (UWrite fd [c], r) # evs'" "map fst evs' = map (\<lambda>c. UWrite fd [c]) b"
    by (cases evs) auto
  then show ?case
    using Cons.IH by auto
qed simp

text \<open>What a printing program does to the rest of a run.\<close>

lemma ends_writes:
  assumes "writes fd b m"
    and "\<And>a t. (\<And>fd'. uwritten fd' (u_trace t) = uwritten fd' (u_trace s) @ (if fd' = fd then b else []) \<and>
          received fd' (u_trace t) = received fd' (u_trace s)) \<Longrightarrow>
        length (u_script t) + length b = length (u_script s) \<Longrightarrow> Q a t"
    and "\<And>t c. u_pending t = Some (UWrite fd [c]) \<Longrightarrow> R t"
  shows "ends m Q R s"
  using assms(1) [unfolded writes_def, rule_format, of s]
proof (rule ends_mono)
  fix a and t :: ustate
  assume "\<exists>evs. u_trace t = u_trace s @ evs \<and> map fst evs = map (\<lambda>c. UWrite fd [c]) b \<and>
        length (u_script t) + length b = length (u_script s)"
  then obtain evs where "u_trace t = u_trace s @ evs" "map fst evs = map (\<lambda>c. UWrite fd [c]) b"
      "length (u_script t) + length b = length (u_script s)" by blast
  then show "Q a t"
    using written_events [of evs fd b] by (intro assms(2)) simp_all
qed (use assms(3) in blast)

end
