(* ===== verification/Xv6_Grep.thy ===== *)
theory Xv6_Grep
  imports Xv6_User
begin

text \<open>
  \<open>user/grep.c\<close>: the pattern matcher and the program around it. A pointer to a C string is the
  list of characters from there to the terminator, so \<open>re[0] == '\0'\<close> is the empty list and
  \<open>re+1\<close> its tail. The matcher is proved to decide the language of the pattern, which
  \<open>lang\<close> gives without reference to the code, and the program to print exactly the matching
  lines of its input, however the kernel cuts the input into pieces.
\<close>

section \<open>Definitions\<close>

text \<open>The characters with a meaning in a pattern, and the newline.\<close>

abbreviation STAR :: u8 where "STAR \<equiv> 42"
abbreviation DOT :: u8 where "DOT \<equiv> 46"
abbreviation CARET :: u8 where "CARET \<equiv> 94"
abbreviation DOLLAR :: u8 where "DOLLAR \<equiv> 36"
abbreviation NL :: u8 where "NL \<equiv> 10"

function matchhere :: "u8 list \<Rightarrow> u8 list \<Rightarrow> bool"
  and matchstar :: "u8 \<Rightarrow> u8 list \<Rightarrow> u8 list \<Rightarrow> bool" where
  "matchhere re cs =
     (if re = [] then True
      else if tl re \<noteq> [] \<and> hd (tl re) = STAR then matchstar (hd re) (tl (tl re)) cs
      else if hd re = DOLLAR \<and> tl re = [] then cs = []
      else if cs \<noteq> [] \<and> (hd re = DOT \<or> hd re = hd cs) then matchhere (tl re) (tl cs)
      else False)"
| "matchstar c re cs =
     (if matchhere re cs then True
      else if cs \<noteq> [] \<and> (hd cs = c \<or> c = DOT) then matchstar c re (tl cs)
      else False)"
  by pat_completeness auto
termination
  by (relation "measure (\<lambda>x. case x of
        Inl (re, cs) \<Rightarrow> 2 * (length re + length cs)
      | Inr (c, re, cs) \<Rightarrow> 2 * (length re + length cs) + 1)")
    (auto simp: neq_Nil_conv)

declare matchhere.simps [simp del] matchstar.simps [simp del]

text \<open>The do-while loop of \<open>match\<close> tries every suffix of the text, the empty one included.\<close>

fun match_from :: "u8 list \<Rightarrow> u8 list \<Rightarrow> bool" where
  "match_from re cs = (if matchhere re cs then True else if cs = [] then False else match_from re (tl cs))"

declare match_from.simps [simp del]

definition match_re :: "u8 list \<Rightarrow> u8 list \<Rightarrow> bool" where
  "match_re re cs =
     (if re \<noteq> [] \<and> hd re = CARET then matchhere (tl re) cs else match_from re cs)"

text \<open>
  One pass over the buffer: every line up to a newline, as \<open>strchr\<close> finds it in front of the
  first NUL, is matched and written; what is left is the start of the next line.
\<close>

function grep_scan :: "u8 list \<Rightarrow> u8 list \<Rightarrow> u8 list u" where
  "grep_scan re p =
     (if NL \<in> set (takeWhile (\<lambda>c. c \<noteq> 0) p)
      then seq (do_when (match_re re (takeWhile (\<lambda>c. c \<noteq> NL) p))
                  (ignore (uwrite 1 (takeWhile (\<lambda>c. c \<noteq> NL) p @ [NL]))))
             (grep_scan re (tl (dropWhile (\<lambda>c. c \<noteq> NL) p)))
      else return p)"
  by auto
termination
proof (relation "measure (length \<circ> snd)")
  fix re p :: "u8 list"
  assume "NL \<in> set (takeWhile (\<lambda>c. c \<noteq> 0) p)"
  then have "p \<noteq> []" by auto
  then show "((re, tl (dropWhile (\<lambda>c. c \<noteq> NL) p)), re, p) \<in> measure (length \<circ> snd)"
    using length_dropWhile_le [of "\<lambda>c. c \<noteq> NL" p] by (cases p) (auto simp: le_imp_less_Suc)
qed simp

declare grep_scan.simps [simp del]

text \<open>
  The buffer of 1024 bytes holds the \<open>m\<close> bytes of the unfinished line in front; one byte is
  kept for the terminator. The loop ends at the end of the input and at an error alike.
\<close>

definition grep_turn :: "u8 list \<Rightarrow> int \<Rightarrow> u8 list \<Rightarrow> (u8 list + unit) u" where
  "grep_turn re fd buf =
     bind (uread fd (1024 - length buf - 1)) (\<lambda>n. case n of
       None \<Rightarrow> return (Inr ())
     | Some b \<Rightarrow>
         if b = [] then return (Inr ())
         else bind (grep_scan re (buf @ b)) (\<lambda>buf'. return (Inl buf')))"

definition grep :: "u8 list \<Rightarrow> int \<Rightarrow> unit u" where
  "grep re fd = uloop (grep_turn re fd) []"

definition grep_file :: "u8 list \<Rightarrow> u8 list \<Rightarrow> unit u" where
  "grep_file re f =
     bind (usys (UOpen f 0)) (\<lambda>fd.
     if fd < 0 then seq (uprintf ''grep: cannot open %s\<newline>'' [VStr (Some f)]) (uexit 1)
     else seq (grep re fd) (ignore (usys (UClose fd))))"

definition grep_main :: "u8 list list \<Rightarrow> unit u" where
  "grep_main argv =
     (if length argv \<le> 1
      then seq (fprintf 2 ''usage: grep pattern [file ...]\<newline>'' []) (uexit 1)
      else if length argv \<le> 2 then seq (grep (argv ! 1) 0) (uexit 0)
      else seq (for_each (drop 2 argv) (grep_file (argv ! 1))) (uexit 0))"

section \<open>The language of a pattern\<close>

text \<open>A pattern as a list of items and whether it is anchored at the end.\<close>

datatype item = One u8 | Many u8

fun items :: "u8 list \<Rightarrow> item list \<times> bool" where
  "items [] = ([], False)"
| "items [c] = (if c = DOLLAR then ([], True) else ([One c], False))"
| "items (c # d # re) =
     (if d = STAR then let (is, e) = items re in (Many c # is, e)
      else let (is, e) = items (d # re) in (One c # is, e))"

definition admits :: "u8 \<Rightarrow> u8 \<Rightarrow> bool" where
  "admits c x \<longleftrightarrow> c = DOT \<or> x = c"

primrec lang_item :: "item \<Rightarrow> u8 list set" where
  "lang_item (One c) = {[x] | x. admits c x}"
| "lang_item (Many c) = {w. \<forall>x \<in> set w. admits c x}"

primrec lang :: "item list \<Rightarrow> u8 list set" where
  "lang [] = {[]}"
| "lang (i # is) = {u @ v | u v. u \<in> lang_item i \<and> v \<in> lang is}"

text \<open>A pattern matches where some part of the text is in its language.\<close>

definition matches_at :: "item list \<times> bool \<Rightarrow> u8 list \<Rightarrow> bool" where
  "matches_at p cs \<longleftrightarrow> (\<exists>w post. cs = w @ post \<and> w \<in> lang (fst p) \<and> (snd p \<longrightarrow> post = []))"

definition re_spec :: "u8 list \<Rightarrow> u8 list \<Rightarrow> bool" where
  "re_spec re cs \<longleftrightarrow>
     (if re \<noteq> [] \<and> hd re = CARET then matches_at (items (tl re)) cs
      else \<exists>pre cs'. cs = pre @ cs' \<and> matches_at (items re) cs')"

lemma matches_at_Nil [simp]: "matches_at ([], False) cs"
  by (simp add: matches_at_def)

lemma matches_at_end [simp]: "matches_at ([], True) cs \<longleftrightarrow> cs = []"
  by (simp add: matches_at_def)

lemma matches_at_Cons:
  "matches_at (i # is, e) cs \<longleftrightarrow> (\<exists>u cs'. cs = u @ cs' \<and> u \<in> lang_item i \<and> matches_at (is, e) cs')"
proof
  assume "matches_at (i # is, e) cs"
  then obtain w post where w: "cs = w @ post" "w \<in> lang (i # is)" "e \<longrightarrow> post = []"
    unfolding matches_at_def fst_conv snd_conv by blast
  then obtain u v where "w = u @ v" "u \<in> lang_item i" "v \<in> lang is"
    by auto
  with w have "cs = u @ (v @ post)" "u \<in> lang_item i" "v \<in> lang is" "e \<longrightarrow> post = []"
    by simp_all
  then show "\<exists>u cs'. cs = u @ cs' \<and> u \<in> lang_item i \<and> matches_at (is, e) cs'"
    unfolding matches_at_def fst_conv snd_conv by blast
next
  assume "\<exists>u cs'. cs = u @ cs' \<and> u \<in> lang_item i \<and> matches_at (is, e) cs'"
  then obtain u v post where "cs = (u @ v) @ post" "u \<in> lang_item i" "v \<in> lang is" "e \<longrightarrow> post = []"
    unfolding matches_at_def fst_conv snd_conv by auto
  then show "matches_at (i # is, e) cs"
    unfolding matches_at_def fst_conv snd_conv lang.simps by blast
qed

lemma matches_at_One: "matches_at (One c # is, e) cs \<longleftrightarrow> cs \<noteq> [] \<and> admits c (hd cs) \<and> matches_at (is, e) (tl cs)"
  by (cases cs) (auto simp: matches_at_Cons, metis append_Cons append_Nil)

lemma matches_at_Many:
  "matches_at (Many c # is, e) cs \<longleftrightarrow>
     matches_at (is, e) cs \<or> (cs \<noteq> [] \<and> admits c (hd cs) \<and> matches_at (Many c # is, e) (tl cs))"
  (is "?m \<longleftrightarrow> ?r")
proof
  assume ?m
  then obtain u cs' where u: "cs = u @ cs'" "\<forall>x \<in> set u. admits c x" "matches_at (is, e) cs'"
    by (auto simp: matches_at_Cons)
  show ?r
  proof (cases u)
    case Nil
    then show ?thesis using u by simp
  next
    case (Cons x u')
    then have "matches_at (Many c # is, e) (tl cs)"
      using u by (auto simp: matches_at_Cons)
    then show ?thesis
      using Cons u by simp
  qed
next
  assume ?r
  then show ?m
  proof
    assume "matches_at (is, e) cs"
    then show ?m
      unfolding matches_at_Cons by (intro exI [of _ "[]"] exI [of _ cs]) simp
  next
    assume *: "cs \<noteq> [] \<and> admits c (hd cs) \<and> matches_at (Many c # is, e) (tl cs)"
    then obtain u cs' where "tl cs = u @ cs'" "\<forall>x \<in> set u. admits c x" "matches_at (is, e) cs'"
      by (auto simp: matches_at_Cons)
    then show ?m
      unfolding matches_at_Cons using * by (intro exI [of _ "hd cs # u"] exI [of _ cs']) (cases cs, simp_all)
  qed
qed

lemma matchhere_simps [simp]:
  "matchhere [] cs"
  "matchhere [c] cs \<longleftrightarrow> (if c = DOLLAR then cs = [] else cs \<noteq> [] \<and> admits c (hd cs))"
  "matchhere (c # d # re) cs \<longleftrightarrow>
     (if d = STAR then matchstar c re cs
      else cs \<noteq> [] \<and> admits c (hd cs) \<and> matchhere (d # re) (tl cs))"
    apply (subst matchhere.simps, simp)
   apply (subst matchhere.simps, subst matchhere.simps, auto simp: admits_def)[1]
  apply (subst matchhere.simps, auto simp: admits_def)[1]
  done

lemma matcher_correct:
  "matchhere re cs \<longleftrightarrow> matches_at (items re) cs"
  "matchstar c re cs \<longleftrightarrow> matches_at (Many c # fst (items re), snd (items re)) cs"
proof (induction re cs and c re cs rule: matchhere_matchstar.induct)
  case (1 re cs)
  show ?case
  proof (cases re rule: items.cases)
    case (3 c d re')
    then show ?thesis
      using 1 by (cases "d = STAR") (auto simp: matches_at_One admits_def case_prod_beta)
  qed (simp_all add: matches_at_One)
next
  case (2 c re cs)
  show ?case
    using 2 matches_at_Many [of c "fst (items re)" "snd (items re)" cs]
    by (subst matchstar.simps) (auto simp: admits_def)
qed

lemma match_from_correct: "match_from re cs \<longleftrightarrow> (\<exists>pre cs'. cs = pre @ cs' \<and> matches_at (items re) cs')"
proof (induction cs)
  case Nil
  then show ?case
    by (subst match_from.simps) (simp add: matcher_correct(1))
next
  case (Cons x cs)
  have "(\<exists>pre cs'. x # cs = pre @ cs' \<and> matches_at (items re) cs') \<longleftrightarrow>
    matches_at (items re) (x # cs) \<or> (\<exists>pre cs'. cs = pre @ cs' \<and> matches_at (items re) cs')"
    by (auto simp: Cons_eq_append_conv)
  then show ?case
    using Cons by (subst match_from.simps) (simp add: matcher_correct(1))
qed

lemma match_re_spec: "match_re re cs = re_spec re cs"
  by (simp add: match_re_def re_spec_def matcher_correct(1) match_from_correct)

section \<open>Lines\<close>

text \<open>The finished lines of a stream, and the unfinished one at its end.\<close>

primrec lines :: "u8 list \<Rightarrow> u8 list \<Rightarrow> u8 list list" where
  "lines acc [] = []"
| "lines acc (x # xs) = (if x = NL then acc # lines [] xs else lines (acc @ [x]) xs)"

primrec unfinished :: "u8 list \<Rightarrow> u8 list \<Rightarrow> u8 list" where
  "unfinished acc [] = acc"
| "unfinished acc (x # xs) = (if x = NL then unfinished [] xs else unfinished (acc @ [x]) xs)"

definition selected :: "u8 list \<Rightarrow> u8 list list \<Rightarrow> u8 list" where
  "selected re ls = concat (map (\<lambda>l. l @ [NL]) (filter (re_spec re) ls))"

lemma lines_append: "lines acc (xs @ ys) = lines acc xs @ lines (unfinished acc xs) ys"
  by (induction xs arbitrary: acc) simp_all

lemma unfinished_append: "unfinished acc (xs @ ys) = unfinished (unfinished acc xs) ys"
  by (induction xs arbitrary: acc) simp_all

lemma lines_line: "NL \<notin> set xs \<Longrightarrow> lines acc xs = []"
  by (induction xs arbitrary: acc) auto

lemma unfinished_line: "NL \<notin> set xs \<Longrightarrow> unfinished acc xs = acc @ xs"
  by (induction xs arbitrary: acc) auto

lemma unfinished_no_NL: "NL \<notin> set acc \<Longrightarrow> NL \<notin> set (unfinished acc xs)"
  by (induction xs arbitrary: acc) auto

lemma unfinished_set: "set (unfinished acc xs) \<subseteq> set acc \<union> set xs"
proof (induction xs arbitrary: acc)
  case (Cons x xs)
  then show ?case
    using Cons.IH [of "[]"] Cons.IH [of "acc @ [x]"] by auto
qed simp

lemma selected_append [simp]: "selected re (ls @ ls') = selected re ls @ selected re ls'"
  by (simp add: selected_def)

lemma lines_resume: "NL \<notin> set buf \<Longrightarrow> lines [] (buf @ xs) = lines buf xs \<and> unfinished [] (buf @ xs) = unfinished buf xs"
  by (simp add: lines_append unfinished_append lines_line unfinished_line)

lemma split_at_NL:
  assumes "NL \<in> set p"
  shows "lines [] p = takeWhile (\<lambda>c. c \<noteq> NL) p # lines [] (tl (dropWhile (\<lambda>c. c \<noteq> NL) p))"
    and "unfinished [] p = unfinished [] (tl (dropWhile (\<lambda>c. c \<noteq> NL) p))"
proof -
  let ?l = "takeWhile (\<lambda>c. c \<noteq> NL) p" and ?r = "tl (dropWhile (\<lambda>c. c \<noteq> NL) p)"
  obtain q qs where q: "dropWhile (\<lambda>c. c \<noteq> NL) p = q # qs"
    using assms by (cases "dropWhile (\<lambda>c. c \<noteq> NL) p") (auto simp: dropWhile_eq_Nil_conv)
  then have "q = NL"
    using hd_dropWhile [of "\<lambda>c. c \<noteq> NL" p] by simp
  with q have p: "p = ?l @ NL # ?r"
    using takeWhile_dropWhile_id [of "\<lambda>c. c \<noteq> NL" p] by simp
  have n: "NL \<notin> set ?l"
    by (auto dest: set_takeWhileD)
  show "lines [] p = ?l # lines [] ?r"
    by (subst p) (simp add: lines_append lines_line [OF n] unfinished_line [OF n])
  show "unfinished [] p = unfinished [] ?r"
    by (subst p) (simp add: unfinished_append unfinished_line [OF n])
qed

section \<open>The program\<close>

lemma grep_scan_runs:
  "ends (grep_scan re p)
     (\<lambda>b t. (0 \<notin> set p \<longrightarrow> b = unfinished [] p \<and>
          uwritten 1 (u_trace t) = uwritten 1 (u_trace s) @ selected re (lines [] p)) \<and>
        received fd (u_trace t) = received fd (u_trace s) \<and> length (u_script t) \<le> length (u_script s))
     (busy fd) s"
proof (induction re p arbitrary: s rule: grep_scan.induct)
  case (1 re p)
  let ?Q = "\<lambda>b t. (0 \<notin> set p \<longrightarrow> b = unfinished [] p \<and>
          uwritten 1 (u_trace t) = uwritten 1 (u_trace s) @ selected re (lines [] p)) \<and>
        received fd (u_trace t) = received fd (u_trace s) \<and> length (u_script t) \<le> length (u_script s)"
  have tw: "0 \<notin> set p \<Longrightarrow> takeWhile (\<lambda>c. c \<noteq> 0) p = p"
    by auto
  show ?case
  proof (cases "NL \<in> set (takeWhile (\<lambda>c. c \<noteq> 0) p)")
    case False
    with tw have "0 \<notin> set p \<Longrightarrow> NL \<notin> set p"
      by metis
    then show ?thesis
      using False by (subst grep_scan.simps) (simp add: lines_line unfinished_line selected_def)
  next
    case True
    then have NL: "NL \<in> set p"
      by (auto dest: set_takeWhileD)
    let ?l = "takeWhile (\<lambda>c. c \<noteq> NL) p" and ?r = "tl (dropWhile (\<lambda>c. c \<noteq> NL) p)"
    have r: "0 \<notin> set p \<Longrightarrow> 0 \<notin> set ?r"
      by (metis list.set_sel(2) set_dropWhileD tl_Nil)
    show ?thesis
    proof (cases "match_re re ?l")
      case match: True
      have "ends (uwrite 1 (?l @ [NL])) (\<lambda>_. ends (grep_scan re ?r) ?Q (busy fd)) (busy fd) s"
      proof (rule ends_uwrite)
        fix r' and t :: ustate
        assume "u_trace t = u_trace s @ [(UWrite 1 (?l @ [NL]), r')]" "length (u_script t) < length (u_script s)"
        then show "ends (grep_scan re ?r) ?Q (busy fd) t"
          using "1.IH" [OF True, of t] match r
          by (elim ends_mono) (auto simp: split_at_NL [OF NL] selected_def match_re_spec)
      qed (simp add: busy_def)
      then show ?thesis
        using match True by (subst grep_scan.simps) simp
    next
      case False
      have "ends (grep_scan re ?r) ?Q (busy fd) s"
        using "1.IH" [OF True, of s] False r
        by (elim ends_mono) (auto simp: split_at_NL [OF NL] selected_def match_re_spec)
      then show ?thesis
        using True False by (subst grep_scan.simps) simp
    qed
  qed
qed

text \<open>The invariant of the outer loop: the buffer holds the unfinished line.\<close>

definition grep_inv :: "u8 list \<Rightarrow> int \<Rightarrow> u8 list \<Rightarrow> ustate \<Rightarrow> bool" where
  "grep_inv re fd buf t \<longleftrightarrow> 0 \<notin> set (received fd (u_trace t)) \<longrightarrow>
     buf = unfinished [] (received fd (u_trace t)) \<and>
     uwritten 1 (u_trace t) = selected re (lines [] (received fd (u_trace t)))"

definition grep_done :: "u8 list \<Rightarrow> int \<Rightarrow> ustate \<Rightarrow> bool" where
  "grep_done re fd t \<longleftrightarrow> (\<exists>buf n r. grep_inv re fd buf t \<and> last (u_trace t) = (URead fd n, r) \<and>
     read_result n r \<in> {None, Some []} \<and> n = 1023 - length buf)"

lemma grep_turn_runs:
  assumes "grep_inv re fd buf s"
  shows "ends (grep_turn re fd buf) (\<lambda>x t. case x of
      Inl buf' \<Rightarrow> grep_inv re fd buf' t \<and> length (u_script t) < length (u_script s)
    | Inr _ \<Rightarrow> grep_done re fd t) (busy fd) s"
proof -
  let ?Q = "\<lambda>x t. case x of
      Inl buf' \<Rightarrow> grep_inv re fd buf' t \<and> length (u_script t) < length (u_script s)
    | Inr _ \<Rightarrow> grep_done re fd t"
  let ?n = "1024 - length buf - 1"
  have scan: "ends (grep_scan re (buf @ b)) (\<lambda>buf'. ?Q (Inl buf')) (busy fd) t"
    if t: "u_trace t = u_trace s @ [(URead fd ?n, r)]" "length (u_script t) < length (u_script s)"
      and b: "read_result ?n r = Some b" for b r and t :: ustate
    using grep_scan_runs [of re "buf @ b" t fd]
  proof (rule ends_mono)
    fix buf' and t' :: ustate
    assume q: "(0 \<notin> set (buf @ b) \<longrightarrow> buf' = unfinished [] (buf @ b) \<and>
          uwritten 1 (u_trace t') = uwritten 1 (u_trace t) @ selected re (lines [] (buf @ b))) \<and>
        received fd (u_trace t') = received fd (u_trace t) \<and> length (u_script t') \<le> length (u_script t)"
    have "grep_inv re fd buf' t'"
    proof -
      {
        assume "0 \<notin> set (received fd (u_trace t'))"
        then have 0: "0 \<notin> set (received fd (u_trace s))" "0 \<notin> set b"
          using q t(1) b by auto
        define inp where "inp = received fd (u_trace s)"
        have buf: "buf = unfinished [] inp" "uwritten 1 (u_trace s) = selected re (lines [] inp)"
          using assms 0(1) by (simp_all add: grep_inv_def inp_def)
        have "set buf \<subseteq> set inp"
          unfolding buf(1) using unfinished_set by force
        then have "0 \<notin> set (buf @ b)"
          using 0 by (auto simp: inp_def)
        moreover have "received fd (u_trace t') = inp @ b"
          using q t(1) b by (simp add: inp_def)
        moreover have "NL \<notin> set buf"
          unfolding buf(1) by (rule unfinished_no_NL) simp
        moreover from this have "lines [] (inp @ b) = lines [] inp @ lines [] (buf @ b)"
            "unfinished [] (inp @ b) = unfinished [] (buf @ b)"
          by (simp_all only: lines_append [of "[]" inp] unfinished_append [of "[]" inp] lines_resume simp_thms
              flip: buf(1))
        moreover have "uwritten 1 (u_trace t) = uwritten 1 (u_trace s)"
          by (simp add: t(1))
        ultimately have "buf' = unfinished [] (received fd (u_trace t')) \<and>
            uwritten 1 (u_trace t') = selected re (lines [] (received fd (u_trace t')))"
          using q buf(2) by (simp only: selected_append simp_thms)
      }
      then show ?thesis
        by (simp add: grep_inv_def)
    qed
    then show "?Q (Inl buf') t'"
      using q t(2) by simp
  qed
  have stop: "grep_done re fd t"
    if "u_trace t = u_trace s @ [(URead fd ?n, r)]" "read_result ?n r = None \<or> read_result ?n r = Some []" for r and t :: ustate
    unfolding grep_done_def
    using that assms by (intro exI [of _ buf] exI [of _ ?n] exI [of _ r]) (auto simp: grep_inv_def)
  show ?thesis
    unfolding grep_turn_def ends_bind
    by (rule ends_uread) (auto simp: busy_def stop scan [simplified] split: option.split)
qed

section \<open>Properties\<close>

text \<open>C29 (equivalence). \<open>match\<close> decides the language of the pattern: a text matches exactly when
  one of its parts, from the start after a caret and to the end before a final dollar, is a
  word of the items of the pattern, a dot standing for any character and a star for any number
  of repetitions.\<close>

theorem match_decides_language: "match_re re cs = re_spec re cs"
  by (rule match_re_spec)

text \<open>C30 (functional). Whatever pieces the kernel delivers the input in, \<open>grep\<close> ends, or waits
  for a reply to a read or a write; when it ends, it has written exactly the finished lines of
  what it received that match the pattern, provided there was no NUL among them. It stops when
  a read gives nothing, which happens at the end of the input, at an error, and when a line
  does not fit the buffer: then it asks for zero bytes.\<close>

theorem grep_selects_lines:
  assumes "u_trace s = []"
  shows "ends (grep re fd)
    (\<lambda>_ t. \<exists>n r. last (u_trace t) = (URead fd n, r) \<and> read_result n r \<in> {None, Some []} \<and>
      (0 \<notin> set (received fd (u_trace t)) \<longrightarrow>
        n = 1023 - length (unfinished [] (received fd (u_trace t))) \<and>
        uwritten 1 (u_trace t) = selected re (lines [] (received fd (u_trace t)))))
    (busy fd) s"
proof -
  have "grep_inv re fd [] s"
    by (simp add: grep_inv_def assms selected_def)
  then have "ends (grep re fd) (\<lambda>_. grep_done re fd) (busy fd) s"
    unfolding grep_def by (rule ends_uloop) (rule grep_turn_runs)
  then show ?thesis
    by (rule ends_mono) (auto simp: grep_done_def grep_inv_def)
qed

definition demo_script :: "ureply list" where
  "demo_script = [
     \<lparr>r_val = 6, r_data = lit ''ab\<newline>xb'', r_ints = (0, 0)\<rparr>,
     \<lparr>r_val = 3, r_data = [], r_ints = (0, 0)\<rparr>,
     \<lparr>r_val = 2, r_data = lit ''y\<newline>'', r_ints = (0, 0)\<rparr>,
     \<lparr>r_val = 0, r_data = [], r_ints = (0, 0)\<rparr>]"

definition demo_start :: ustate where
  "demo_start = ustart demo_script"

lemma demo_run:
  "(case grep (lit ''^a'') 0 demo_start of
      Ok _ t \<Rightarrow> received 0 (u_trace t) = lit ''ab\<newline>xby\<newline>'' | _ \<Rightarrow> False)"
  by code_simp

lemma demo_lines: "match_re (lit ''^a'') (lit ''ab'') \<and> \<not> match_re (lit ''^a'') (lit ''xby'')"
  by code_simp

theorem grep_selects_lines_witness:
  "\<exists>t. grep (lit ''^a'') 0 demo_start = Ok () t \<and> uwritten 1 (u_trace t) = lit ''ab\<newline>''"
proof -
  obtain t where t: "grep (lit ''^a'') 0 demo_start = Ok () t" "received 0 (u_trace t) = lit ''ab\<newline>xby\<newline>''"
    using demo_run by (auto split: outcome.splits)
  have "0 \<notin> set (received 0 (u_trace t))"
    unfolding t(2) by simp
  moreover have "u_trace demo_start = []"
    by (simp add: demo_start_def ustart_def)
  ultimately have "uwritten 1 (u_trace t) = selected (lit ''^a'') (lines [] (lit ''ab\<newline>xby\<newline>''))"
    using grep_selects_lines [of demo_start "lit ''^a''" 0] t by (auto simp: ends_def)
  also have "\<dots> = lit ''ab\<newline>''"
    using demo_lines by (simp add: selected_def flip: match_re_spec)
  finally show ?thesis
    using t(1) by blast
qed

end
