(* ===== verification/Xv6_Utils.thy ===== *)
theory Xv6_Utils
  imports Xv6_Grep
begin

text \<open>
  The small programs under \<open>user/\<close>, each as the system calls it makes: \<open>cat\<close>, \<open>wc\<close>, \<open>ls\<close>, the
  one-call tools, the tools for containers and for suspended processes, \<open>init\<close>, and the
  programs that exhaust a resource. \<open>argv\<close> is the list of arguments with the program's name
  first. Programs that use an argument without a look at \<open>argc\<close> take it as an argument of the
  definition. \<open>main\<close> of each program is named after the program.
\<close>

section \<open>Copying and counting\<close>

definition cat_turn :: "int \<Rightarrow> unit \<Rightarrow> (unit + unit) u" where
  "cat_turn fd _ =
     bind (uread fd 512) (\<lambda>n. case n of
       None \<Rightarrow> seq (uprintf ''cat: read error\<newline>'' []) (uexit 1)
     | Some b \<Rightarrow>
         if b = [] then return (Inr ())
         else bind (uwrite 1 b) (\<lambda>w.
              if w \<noteq> int (length b) then seq (uprintf ''cat: write error\<newline>'' []) (uexit 1)
              else return (Inl ())))"

definition cat :: "int \<Rightarrow> unit u" where
  "cat fd = uloop (cat_turn fd) ()"

definition cat_main :: "u8 list list \<Rightarrow> unit u" where
  "cat_main argv =
     (if length argv \<le> 1 then seq (cat 0) (uexit 1)
      else seq (for_each (tl argv) (\<lambda>f.
        bind (usys (UOpen f 0)) (\<lambda>fd.
        if fd < 0 then seq (uprintf ''cat: cannot open %s\<newline>'' [VStr (Some f)]) (uexit 1)
        else seq (cat fd) (ignore (usys (UClose fd)))))) (uexit 0))"

record wcount =
  wc_l :: u32
  wc_w :: u32
  wc_c :: u32
  wc_inword :: bool

definition wc_space :: "u8 \<Rightarrow> bool" where
  "wc_space c \<longleftrightarrow> c \<in> set [32, 13, 9, 10, 11]"

definition wc_char :: "u8 \<Rightarrow> wcount \<Rightarrow> wcount" where
  "wc_char b v =
     (let v = v\<lparr>wc_c := wc_c v + 1\<rparr>;
          v = (if b = NL then v\<lparr>wc_l := wc_l v + 1\<rparr> else v)
      in if wc_space b then v\<lparr>wc_inword := False\<rparr>
         else if \<not> wc_inword v then v\<lparr>wc_w := wc_w v + 1, wc_inword := True\<rparr>
         else v)"

definition wc_turn :: "int \<Rightarrow> wcount \<Rightarrow> (wcount + wcount) u" where
  "wc_turn fd v =
     bind (uread fd 512) (\<lambda>n. case n of
       None \<Rightarrow> seq (uprintf ''wc: read error\<newline>'' []) (uexit 1)
     | Some b \<Rightarrow> if b = [] then return (Inr v) else return (Inl (fold wc_char b v)))"

definition wc_zero :: wcount where
  "wc_zero = \<lparr>wc_l = 0, wc_w = 0, wc_c = 0, wc_inword = False\<rparr>"

definition wc :: "int \<Rightarrow> u8 list \<Rightarrow> unit u" where
  "wc fd name =
     bind (uloop (wc_turn fd) wc_zero) (\<lambda>v.
     uprintf ''%d %d %d %s\<newline>'' [VInt (wc_l v), VInt (wc_w v), VInt (wc_c v), VStr (Some name)])"

definition wc_main :: "u8 list list \<Rightarrow> unit u" where
  "wc_main argv =
     (if length argv \<le> 1 then seq (wc 0 []) (uexit 0)
      else seq (for_each (tl argv) (\<lambda>f.
        bind (usys (UOpen f 0)) (\<lambda>fd.
        if fd < 0 then seq (uprintf ''wc: cannot open %s\<newline>'' [VStr (Some f)]) (uexit 1)
        else seq (wc fd f) (ignore (usys (UClose fd)))))) (uexit 0))"

section \<open>Listing directories\<close>

definition fmtname :: "u8 list \<Rightarrow> u8 list" where
  "fmtname path =
     (let p = rev (takeWhile (\<lambda>c. c \<noteq> 47) (rev path))
      in if length p \<ge> 14 then p else p @ replicate (14 - length p) 32)"

text \<open>The fields of a \<open>struct stat\<close> and of a directory entry in the bytes the kernel stores.\<close>

definition st_args :: "u8 list \<Rightarrow> varg list" where
  "st_args d = [VInt (scast (ld16 (of_bytes d) 8)), VInt (ld32 (of_bytes d) 4),
                VLong (ld64 (\<lambda>a. of_bytes d (unat a)) 16)]"

definition cstr_at :: "u8 list \<Rightarrow> nat \<Rightarrow> u8 list" where
  "cstr_at d off = takeWhile (\<lambda>c. c \<noteq> 0) (drop off d)"

definition ls_entry :: "u8 list \<Rightarrow> u8 list \<Rightarrow> unit u" where
  "ls_entry path de =
     (if ld16 (of_bytes de) 0 = 0 then return ()
      else let buf = path @ [47] @ cstr_at de 2 in
        bind (ustat buf) (\<lambda>(r, st).
        if r < 0 then uprintf ''ls: cannot stat %s\<newline>'' [VStr (Some buf)]
        else uprintf ''%s %d %d %d\<newline>'' (VStr (Some (fmtname buf)) # st_args st)))"

definition ls_dir :: "int \<Rightarrow> u8 list \<Rightarrow> unit u" where
  "ls_dir fd path =
     uloop (\<lambda>_.
       bind (uread fd 16) (\<lambda>n. case n of
         Some de \<Rightarrow> if length de = 16 then seq (ls_entry path de) (return (Inl ())) else return (Inr ())
       | None \<Rightarrow> return (Inr ()))) ()"

definition ls :: "u8 list \<Rightarrow> unit u" where
  "ls path =
     bind (usys (UOpen path 0)) (\<lambda>fd.
     if fd < 0 then fprintf 2 ''ls: cannot open %s\<newline>'' [VStr (Some path)]
     else bind (issue (UFstat fd)) (\<lambda>r.
       if r_val r < 0
       then seq (fprintf 2 ''ls: cannot stat %s\<newline>'' [VStr (Some path)]) (ignore (usys (UClose fd)))
       else let ty = ld16 (of_bytes (r_data r)) 8 in
         seq (if ty = 2 then uprintf ''%s %d %d %l\<newline>'' (VStr (Some (fmtname path)) # st_args (r_data r))
              else if ty = 1 then
                (if length path + 1 + 14 + 1 > 512 then uprintf ''ls: path too long\<newline>'' []
                 else ls_dir fd path)
              else return ())
         (ignore (usys (UClose fd)))))"

definition ls_main :: "u8 list list \<Rightarrow> unit u" where
  "ls_main argv =
     (if length argv < 2 then seq (ls (lit ''.'')) (uexit 0) else seq (for_each (tl argv) ls) (uexit 0))"

section \<open>Tools around one call\<close>

fun echo_args :: "u8 list list \<Rightarrow> unit u" where
  "echo_args [] = return ()"
| "echo_args [a] = seq (uwrite 1 a) (ignore (uwrite 1 [NL]))"
| "echo_args (a # b # as) = seq (uwrite 1 a) (seq (uwrite 1 [32]) (echo_args (b # as)))"

definition echo_main :: "u8 list list \<Rightarrow> unit u" where
  "echo_main argv = seq (echo_args (tl argv)) (uexit 0)"

definition atoi_int :: "u8 list \<Rightarrow> int" where
  "atoi_int a = (case uatoi (of_bytes a) of Some n \<Rightarrow> sint n | None \<Rightarrow> 0)"

definition kill_main :: "u8 list list \<Rightarrow> unit u" where
  "kill_main argv =
     (if length argv < 2 then seq (fprintf 2 ''usage: kill pid...\<newline>'' []) (uexit 1)
      else seq (for_each (tl argv) (\<lambda>a. ignore (usys (UKill (atoi_int a))))) (uexit 0))"

text \<open>\<open>mkdir\<close> and \<open>rm\<close> stop at the first failure, and exit with 0 all the same.\<close>

primrec each_or_stop :: "string \<Rightarrow> (u8 list \<Rightarrow> ucall) \<Rightarrow> u8 list list \<Rightarrow> unit u" where
  "each_or_stop msg c [] = return ()"
| "each_or_stop msg c (a # as) =
     bind (usys (c a)) (\<lambda>r.
     if r < 0 then fprintf 2 msg [VStr (Some a)] else each_or_stop msg c as)"

definition mkdir_main :: "u8 list list \<Rightarrow> unit u" where
  "mkdir_main argv =
     (if length argv < 2 then seq (fprintf 2 ''Usage: mkdir files...\<newline>'' []) (uexit 1)
      else seq (each_or_stop ''mkdir: %s failed to create\<newline>'' UMkdir (tl argv)) (uexit 0))"

definition rm_main :: "u8 list list \<Rightarrow> unit u" where
  "rm_main argv =
     (if length argv < 2 then seq (fprintf 2 ''Usage: rm files...\<newline>'' []) (uexit 1)
      else seq (each_or_stop ''rm: %s failed to delete\<newline>'' UUnlink (tl argv)) (uexit 0))"

definition ln_main :: "u8 list list \<Rightarrow> unit u" where
  "ln_main argv =
     (if length argv \<noteq> 3 then seq (fprintf 2 ''Usage: ln old new\<newline>'' []) (uexit 1)
      else bind (usys (ULink (argv ! 1) (argv ! 2))) (\<lambda>r.
           seq (do_when (r < 0) (fprintf 2 ''link %s %s: failed\<newline>'' [VStr (Some (argv ! 1)), VStr (Some (argv ! 2))]))
           (uexit 0)))"

definition helloworld_main :: "unit u" where
  "helloworld_main = seq (uprintf ''HelloWorld!\<newline>'' []) (uexit 0)"

definition zombie_main :: "unit u" where
  "zombie_main = bind (usys UFork) (\<lambda>pid. seq (do_when (pid > 0) (ignore (usys (USleep 5)))) (uexit 0))"

definition strace_main :: "u8 list \<Rightarrow> u8 list list \<Rightarrow> unit u" where
  "strace_main progname args =
     bind (usys UFork) (\<lambda>i.
     if i = 0 then seq (usys UTraceon) (seq (usys (UExec progname (progname # args))) (uexit 0))
     else seq (usys UWait) (uexit 0))"

section \<open>Containers\<close>

definition cpause_main :: "u8 list list \<Rightarrow> unit u" where
  "cpause_main argv =
     (if length argv \<noteq> 2 then seq (uprintf ''usage: cpause <name>\<newline>'' []) (uexit (- 1))
      else seq (usys (UCpause (argv ! 1))) (uexit 0))"

definition cresume_main :: "u8 list list \<Rightarrow> unit u" where
  "cresume_main argv =
     (if length argv \<noteq> 2 then seq (uprintf ''usage: cresume <name>\<newline>'' []) (uexit (- 1))
      else seq (usys (UCresume (argv ! 1))) (uexit 0))"

definition cstop_main :: "u8 list list \<Rightarrow> unit u" where
  "cstop_main argv =
     (if length argv \<noteq> 2 then seq (uprintf ''usage: cstop <name>\<newline>'' []) (uexit (- 1))
      else seq (usys (UCstop (argv ! 1))) (uexit 0))"

text \<open>The child of \<open>cstart\<close> and of \<open>vctest\<close> moves its three standard descriptors to the console.\<close>

definition on_console :: "int \<Rightarrow> unit u" where
  "on_console fd = block (map (\<lambda>c. ignore (usys c)) [UClose 0, UClose 1, UClose 2, UDup fd, UDup fd, UDup fd])"

definition cstart_main :: "u8 list list \<Rightarrow> unit u" where
  "cstart_main argv =
     (if length argv \<noteq> 7
      then seq (uprintf ''usage: cstart <root_dir> <vc> <max_proc> <max_page> <max_disk> <cmd> [<arg> ...]\<newline>'' [])
             (uexit (- 1))
      else
        bind (usys (UOpen (argv ! 2) 2)) (\<lambda>fd.
        seq (uprintf ''fd = %d\<newline>'' [VInt (of_int fd)]) (
        bind (usys UFork) (\<lambda>i.
        if i = 0 then
          seq (on_console fd) (
          seq (usys (UCinit (argv ! 1) (argv ! 1) (atoi_int (argv ! 3)) (atoi_int (argv ! 4)) (atoi_int (argv ! 5)))) (
          seq (usys (UExec (argv ! 6) (drop 6 argv))) (uexit 0)))
        else seq (uprintf ''%s started on %s\<newline>'' [VStr (Some (argv ! 2)), VStr (Some (argv ! 3))]) (uexit 0)))))"

definition vctest_main :: "u8 list list \<Rightarrow> unit u" where
  "vctest_main argv =
     (if length argv < 3 then seq (uprintf ''usage: vctest <vc> <cmd> [<arg> ...]\<newline>'' []) (uexit (- 1))
      else
        bind (usys (UOpen (argv ! 1) 2)) (\<lambda>fd.
        seq (uprintf ''fd = %d\<newline>'' [VInt (of_int fd)]) (
        bind (usys UFork) (\<lambda>i.
        if i = 0 then seq (on_console fd) (seq (usys (UExec (argv ! 2) (drop 2 argv))) (uexit 0))
        else seq (uprintf ''%s started on %s\<newline>'' [VStr (Some (argv ! 2)), VStr (Some (argv ! 1))]) (uexit 0)))))"

text \<open>\<open>ccreate\<close> makes the directory and copies each program into it; the path it builds is assumed
  to fit \<open>filepath\<close>.\<close>

definition copy_turn :: "int \<Rightarrow> int \<Rightarrow> unit \<Rightarrow> (unit + unit) u" where
  "copy_turn srcfd dstfd _ =
     bind (uread srcfd 1000) (\<lambda>n. case n of
       None \<Rightarrow> seq (uprintf ''cat: read error\<newline>'' []) (uexit 1)
     | Some b \<Rightarrow>
         if b = [] then return (Inr ())
         else bind (uwrite dstfd b) (\<lambda>w.
              if w \<noteq> int (length b) then seq (uprintf ''cat: write error\<newline>'' []) (uexit 1)
              else return (Inl ())))"

definition ccreate_one :: "u8 list \<Rightarrow> u8 list \<Rightarrow> unit u" where
  "ccreate_one path prog =
     seq (uprintf ''%s\<newline>'' [VStr (Some prog)]) (
     bind (usys (UOpen prog 0)) (\<lambda>srcfd.
     if srcfd < 0 then seq (uprintf ''ccreate: cannot open %s\<newline>'' [VStr (Some prog)]) (uexit 1)
     else bind (usys (UOpen (path @ [47] @ prog) 0x202)) (\<lambda>dstfd.
       if dstfd < 0 then seq (uprintf ''ccreate: cannot open %s\<newline>'' [VStr (Some prog)]) (uexit 1)
       else uloop (copy_turn srcfd dstfd) ())))"

definition ccreate_main :: "u8 list \<Rightarrow> u8 list list \<Rightarrow> int u" where
  "ccreate_main path progs =
     bind (usys (UMkdir path)) (\<lambda>r.
     if r < 0 then seq (uprintf ''mkdir: %s failed to create\<newline>'' [VStr (Some path)]) (return (- 1))
     else seq (for_each progs (ccreate_one path)) (uexit 0))"

text \<open>The rows of the process table as \<open>psinfo\<close> stores them, 60 bytes each.\<close>

definition div1000 :: "u32 \<Rightarrow> u32" where
  "div1000 m = of_int (if sint m < 0 then - (- sint m div 1000) else sint m div 1000)"

definition proc_row :: "u8 list \<Rightarrow> unit u" where
  "proc_row p = (let tab = [CHR 0x09] in
     uprintf (concat [tab, ''%d'', tab, ''%d'', tab, ''%dK'', tab, ''%s'', tab, ''%s'', tab, ''%s\<newline>''])
       [VInt (ld32 (of_bytes p) 0), VInt (ld32 (of_bytes p) 4), VInt (div1000 (ld32 (of_bytes p) 8)),
        VStr (Some (cstr_at p 12)), VStr (Some (cstr_at p 44)), VStr (Some (cstr_at p 28))])"

section \<open>Suspended processes\<close>

definition suspend_main :: "u8 list \<Rightarrow> u8 list \<Rightarrow> u32 \<Rightarrow> unit u" where
  "suspend_main pidarg fname fname_ptr =
     (let pid = atoi_int pidarg in
      bind (usys (UOpen fname 0x201)) (\<lambda>fd.
      if fd < 0 then seq (uprintf ''cannot open %d'' [VInt fname_ptr]) (uexit (- 1))
      else
        bind (usys (USuspend pid fd)) (\<lambda>rv.
        seq (usys (UClose fd)) (
        seq (if rv < 0
             then seq (uprintf ''suspend(%d, %s) failed\<newline>'' [VInt (of_int pid), VStr (Some fname)]) (ignore (usys (UUnlink fname)))
             else seq (uprintf ''suspend(%d, %s) success\<newline>'' [VInt (of_int pid), VStr (Some fname)]) (ignore (usys (UKill pid))))
        (uexit 0)))))"

definition resume_main :: "u8 list \<Rightarrow> unit u" where
  "resume_main fname =
     bind (usys (UOpen fname 0)) (\<lambda>fd.
     if fd < 0 then seq (uprintf ''cannot open %s'' [VStr (Some fname)]) (uexit (- 1))
     else
       bind (usys UFork) (\<lambda>pid.
       if pid \<noteq> 0
       then seq (uprintf ''resumed process %d from %s\<newline>'' [VInt (of_int pid), VStr (Some fname)]) (uexit 0)
       else
         bind (usys (UResume fname)) (\<lambda>rv.
         seq (usys (UClose fd)) (
         seq (if rv < 0 then uprintf ''resume(%s) failed\<newline>'' [VStr (Some fname)]
              else uprintf ''resume(%s) success\<newline>'' [VStr (Some fname)])
         (uexit 0)))))"

section \<open>The first process\<close>

definition create_vcs :: "unit u" where
  "create_vcs = for_each [0..<5] (\<lambda>i.
     let dname = lit ''vc'' @ [50 + of_nat i] in
     bind (usys (UOpen dname 2)) (\<lambda>fd.
     if fd < 0 then ignore (usys (UMknod dname (2 + int i) 0)) else ignore (usys (UClose fd))))"

definition init_wait :: "int \<Rightarrow> unit u" where
  "init_wait pid = uloop (\<lambda>_.
     bind (usys UWait) (\<lambda>wpid. return (if wpid \<ge> 0 \<and> wpid \<noteq> pid then Inl () else Inr ()))) ()"

definition init_turn :: "unit \<Rightarrow> (unit + unit) u" where
  "init_turn _ =
     seq (uprintf ''init: starting sh\<newline>'' []) (
     bind (usys UFork) (\<lambda>pid.
     if pid < 0 then seq (uprintf ''init: fork failed\<newline>'' []) (uexit 1)
     else if pid = 0 then
       seq (usys (UExec (lit ''sh'') [lit ''sh''])) (seq (uprintf ''init: exec sh failed\<newline>'' []) (uexit 1))
     else seq (init_wait pid) (return (Inl ()))))"

definition init_main :: "unit u" where
  "init_main =
     bind (usys (UOpen (lit ''console'') 2)) (\<lambda>fd.
     seq (do_when (fd < 0)
            (seq (usys (UMknod (lit ''console'') 1 1)) (ignore (usys (UOpen (lit ''console'') 2))))) (
     seq (usys (UDup 0)) (seq (usys (UDup 0)) (
     seq create_vcs (uloop init_turn ())))))"

section \<open>Programs that exhaust a resource\<close>

definition counter_main :: "u8 list list \<Rightarrow> unit u" where
  "counter_main argv = uloop (\<lambda>i.
     seq (if length argv = 2 then uprintf ''[%s] i = %d\<newline>'' [VStr (Some (argv ! 1)), VInt i]
          else uprintf ''i = %d\<newline>'' [VInt i])
     (seq (usys (USleep 30)) (return (Inl (i + 1))))) 0"

definition forkbomb_main :: "unit u" where
  "forkbomb_main =
     seq (uprintf ''forkbomb: started\<newline>'' []) (
     uloop (\<lambda>i.
       bind (usys UFork) (\<lambda>pid.
       if pid < 0 then seq (uprintf ''forkbomb: fork() failed, exiting'' []) (uexit (- 1))
       else if pid = 0 then uloop (\<lambda>_. seq (usys (USleep 10)) (return (Inl ()))) ()
       else seq (uprintf ''forkbomb: fork count = %d\<newline>'' [VInt (i + 1)]) (return (Inl (i + 1))))) 0)"

definition createfile :: "u8 list \<Rightarrow> u8 list \<Rightarrow> nat \<Rightarrow> u32 \<Rightarrow> u32 u" where
  "createfile filename buf count totalblocks =
     bind (usys (UOpen filename 0x201)) (\<lambda>fd.
     if fd < 0 then seq (uprintf ''diskbomb: open() failed, exiting.\<newline>'' []) (uexit 0)
     else seq (for_each [0..<count] (\<lambda>i.
       bind (uwrite fd buf) (\<lambda>rv.
       if rv < 0 then seq (uprintf ''diskbomb: write() failed, exiting.\<newline>'' []) (uexit 0)
       else uprintf ''diskbomb: total blocks written: %d\<newline>'' [VInt (totalblocks + 512 * of_nat (Suc i))])))
     (seq (usys (UClose fd)) (return (totalblocks + 512 * of_nat count))))"

text \<open>\<open>junk\<close> is what the uninitialised rest of \<open>filename\<close> holds up to a NUL.\<close>

definition diskbomb_main :: "u8 list \<Rightarrow> unit u" where
  "diskbomb_main junk = uloop (\<lambda>(totalfiles, totalblocks).
     let filename = lit ''DB'' @ [48 + of_nat totalfiles] @ junk in
     seq (uprintf ''diskbomb: creating %s\<newline>'' [VStr (Some filename)]) (
     bind (createfile filename (replicate 512 97) 140 totalblocks) (\<lambda>total.
     seq (uprintf ''diskbomb: total files created: %d\<newline>'' [VInt (of_nat (Suc totalfiles))])
     (return (Inl (Suc totalfiles, total)))))) (0, 0)"

definition print_str :: "string \<Rightarrow> unit u" where
  "print_str s = ignore (uwrite 1 (lit s))"

primrec forktest_forks :: "nat \<Rightarrow> nat \<Rightarrow> nat u" where
  "forktest_forks 0 n = return n"
| "forktest_forks (Suc k) n =
     bind (usys UFork) (\<lambda>pid.
     seq (print_str ''fork\<newline>'') (
     if pid < 0 then return n
     else if pid = 0 then uexit 0
     else forktest_forks k (Suc n)))"

definition forktest :: "unit u" where
  "forktest =
     seq (print_str ''fork test\<newline>'') (
     bind (forktest_forks 1000 0) (\<lambda>n.
     if n = 1000 then seq (print_str ''fork claimed to work N times!\<newline>'') (uexit 1)
     else
       seq (for_each [0..<n] (\<lambda>_.
         bind (usys UWait) (\<lambda>r.
         do_when (r < 0) (seq (print_str ''wait stopped early\<newline>'') (uexit 1))))) (
       bind (usys UWait) (\<lambda>r.
       if r \<noteq> - 1 then seq (print_str ''wait got too many\<newline>'') (uexit 1)
       else print_str ''fork test OK\<newline>''))))"

definition forktest_main :: "unit u" where
  "forktest_main = seq forktest (uexit 0)"

primrec stressfs_forks :: "nat \<Rightarrow> nat \<Rightarrow> nat u" where
  "stressfs_forks 0 i = return i"
| "stressfs_forks (Suc k) i =
     bind (usys UFork) (\<lambda>pid. if pid > 0 then return i else stressfs_forks k (Suc i))"

definition stressfs_main :: "unit u" where
  "stressfs_main =
     seq (uprintf ''stressfs starting\<newline>'' []) (
     bind (stressfs_forks 4 0) (\<lambda>i.
     seq (uprintf ''write %d\<newline>'' [VInt (of_nat i)]) (
     let path = lit ''stressfs'' @ [48 + of_nat i] in
     bind (usys (UOpen path 0x202)) (\<lambda>fd.
     seq (for_each [0..<20] (\<lambda>_. ignore (uwrite fd (replicate 512 97)))) (
     seq (usys (UClose fd)) (
     seq (uprintf ''read\<newline>'' []) (
     bind (usys (UOpen path 0)) (\<lambda>fd.
     seq (for_each [0..<20] (\<lambda>_. ignore (uread fd 512))) (
     seq (usys (UClose fd)) (seq (usys UWait) (uexit 0)))))))))))"

section \<open>What copying and counting give\<close>

text \<open>The number of words of a text: the positions where one starts.\<close>

definition word_starts :: "u8 list \<Rightarrow> nat set" where
  "word_starts xs = {i. i < length xs \<and> \<not> wc_space (xs ! i) \<and> (i = 0 \<or> wc_space (xs ! (i - 1)))}"

definition wc_inv :: "u8 list \<Rightarrow> wcount \<Rightarrow> bool" where
  "wc_inv xs v \<longleftrightarrow>
     wc_l v = of_nat (length (filter (\<lambda>c. c = NL) xs)) \<and>
     wc_w v = of_nat (card (word_starts xs)) \<and>
     wc_c v = of_nat (length xs) \<and>
     wc_inword v = (xs \<noteq> [] \<and> \<not> wc_space (last xs))"

lemma finite_word_starts: "finite (word_starts xs)"
  by (simp add: word_starts_def)

lemma word_starts_snoc:
  "word_starts (xs @ [b]) =
     (if \<not> wc_space b \<and> (xs = [] \<or> wc_space (last xs)) then insert (length xs) (word_starts xs) else word_starts xs)"
  by (cases "xs = []") (auto simp: word_starts_def nth_append last_conv_nth less_Suc_eq)

lemma wc_char_inv: "wc_inv xs v \<Longrightarrow> wc_inv (xs @ [b]) (wc_char b v)"
proof -
  have "length xs \<notin> word_starts xs"
    by (simp add: word_starts_def)
  then show "wc_inv xs v \<Longrightarrow> wc_inv (xs @ [b]) (wc_char b v)"
    by (auto simp: wc_inv_def wc_char_def Let_def word_starts_snoc finite_word_starts add_ac)
qed

lemma wc_fold_inv: "wc_inv xs v \<Longrightarrow> wc_inv (xs @ bs) (fold wc_char bs v)"
proof (induction bs arbitrary: xs v)
  case (Cons b bs)
  show ?case
    using Cons.IH [OF wc_char_inv [OF Cons.prems, of b]] by simp
qed simp

lemma wc_loop_counts:
  assumes "received fd (u_trace s) = []" and "uwritten 1 (u_trace s) = []"
  shows "ends (uloop (wc_turn fd) wc_zero)
    (\<lambda>v t. wc_inv (received fd (u_trace t)) v \<and> uwritten 1 (u_trace t) = [])
    (\<lambda>t. busy fd t \<or> u_pending t = Some (UExit 1)) s"
proof (rule ends_uloop [where I = "\<lambda>v t. wc_inv (received fd (u_trace t)) v \<and> uwritten 1 (u_trace t) = []"])
  show "wc_inv (received fd (u_trace s)) wc_zero \<and> uwritten 1 (u_trace s) = []"
    using assms by (simp add: wc_inv_def wc_zero_def word_starts_def)
next
  fix v and s :: ustate
  assume "wc_inv (received fd (u_trace s)) v \<and> uwritten 1 (u_trace s) = []"
  then show "ends (wc_turn fd v) (\<lambda>r t. case r of
      Inl y \<Rightarrow> (wc_inv (received fd (u_trace t)) y \<and> uwritten 1 (u_trace t) = []) \<and> length (u_script t) < length (u_script s)
    | Inr y \<Rightarrow> wc_inv (received fd (u_trace t)) y \<and> uwritten 1 (u_trace t) = [])
    (\<lambda>t. busy fd t \<or> u_pending t = Some (UExit 1)) s"
    unfolding wc_turn_def ends_bind
    by (intro ends_uread)
      (auto simp: busy_def wc_fold_inv split: option.split intro!: ends_writes [OF writes_uprintf])
qed

text \<open>Whatever pieces the input comes in, \<open>cat\<close> ends, waits for the kernel, or
  exits after an error; when it ends it has written exactly what it read.\<close>

lemma cat_copies:
  assumes "u_trace s = []"
  shows "ends (cat fd) (\<lambda>_ t. uwritten 1 (u_trace t) = received fd (u_trace t))
    (\<lambda>t. busy fd t \<or> u_pending t = Some (UExit 1)) s"
  unfolding cat_def
proof (rule ends_uloop [where I = "\<lambda>_ t. uwritten 1 (u_trace t) = received fd (u_trace t)"])
  fix x and s :: ustate
  assume "uwritten 1 (u_trace s) = received fd (u_trace s)"
  then show "ends (cat_turn fd x) (\<lambda>r t. case r of
      Inl y \<Rightarrow> uwritten 1 (u_trace t) = received fd (u_trace t) \<and> length (u_script t) < length (u_script s)
    | Inr v \<Rightarrow> uwritten 1 (u_trace t) = received fd (u_trace t))
    (\<lambda>t. busy fd t \<or> u_pending t = Some (UExit 1)) s"
    unfolding cat_turn_def ends_bind
    by (intro ends_uread)
      (auto simp: busy_def split: option.split intro!: ends_writes [OF writes_uprintf] ends_uwrite)
qed (simp add: assms)

section \<open>Properties\<close>

text \<open>C34 (functional). Whatever pieces the input comes in, \<open>wc\<close> ends, waits for the kernel, or exits
  after a read error; when it ends it has printed the number of newlines, of words and of
  characters of what it read, in the 32 bits of an \<open>int\<close>.\<close>

theorem wc_counts:
  assumes "u_trace s = []"
  shows "ends (wc fd name)
    (\<lambda>_ t. let xs = received fd (u_trace t) in
       uwritten 1 (u_trace t) = fmt_text False ''%d %d %d %s\<newline>''
         [VInt (of_nat (length (filter (\<lambda>c. c = NL) xs))), VInt (of_nat (card (word_starts xs))),
          VInt (of_nat (length xs)), VStr (Some name)])
    (\<lambda>t. busy fd t \<or> u_pending t = Some (UExit 1)) s"
  unfolding wc_def ends_bind
  using wc_loop_counts [of fd s]
proof (rule ends_mono)
  fix v and t :: ustate
  assume "wc_inv (received fd (u_trace t)) v \<and> uwritten 1 (u_trace t) = []"
  then show "ends (uprintf ''%d %d %d %s\<newline>'' [VInt (wc_l v), VInt (wc_w v), VInt (wc_c v), VStr (Some name)])
    (\<lambda>_ t. let xs = received fd (u_trace t) in
       uwritten 1 (u_trace t) = fmt_text False ''%d %d %d %s\<newline>''
         [VInt (of_nat (length (filter (\<lambda>c. c = NL) xs))), VInt (of_nat (card (word_starts xs))),
          VInt (of_nat (length xs)), VStr (Some name)])
    (\<lambda>t. busy fd t \<or> u_pending t = Some (UExit 1)) t"
    by (intro ends_writes [OF writes_uprintf]) (auto simp: wc_inv_def busy_def Let_def)
qed (use assms in simp_all)

definition wc_script :: "ureply list" where
  "wc_script =
     \<lparr>r_val = 4, r_data = lit ''ab c'', r_ints = (0, 0)\<rparr> #
     \<lparr>r_val = 3, r_data = lit ''d\<newline>e'', r_ints = (0, 0)\<rparr> #
     replicate 20 \<lparr>r_val = 0, r_data = [], r_ints = (0, 0)\<rparr>"

lemma wc_run:
  "(case wc 3 (lit ''f'') (ustart wc_script) of
      Ok _ t \<Rightarrow> received 3 (u_trace t) = lit ''ab cd\<newline>e'' | _ \<Rightarrow> False)"
  by code_simp

lemma wc_words: "card (word_starts (lit ''ab cd\<newline>e'')) = 3"
proof -
  have "word_starts (lit ''ab cd\<newline>e'') = {0, 3, 6}"
    by (auto simp: word_starts_def wc_space_def less_Suc_eq)
  then show ?thesis by simp
qed

theorem wc_counts_witness:
  "\<exists>t. wc 3 (lit ''f'') (ustart wc_script) = Ok () t \<and>
     uwritten 1 (u_trace t) = fmt_text False ''%d %d %d %s\<newline>'' [VInt 1, VInt 3, VInt 7, VStr (Some (lit ''f''))]"
proof -
  obtain t where t: "wc 3 (lit ''f'') (ustart wc_script) = Ok () t" "received 3 (u_trace t) = lit ''ab cd\<newline>e''"
    using wc_run by (auto split: outcome.splits)
  have "u_trace (ustart wc_script) = []"
    by (simp add: ustart_def)
  from wc_counts [OF this, of 3 "lit ''f''"] t show ?thesis
    using wc_words by (simp add: ends_def Let_def del: fmt_text.simps)
qed

section \<open>Numbers as text\<close>

definition dec_step :: "u32 \<Rightarrow> u8 \<Rightarrow> u32" where
  "dec_step n d = n * 10 + ucast d - 48"

lemma decimal_digit: "k < 10 \<Longrightarrow> 48 \<le> udigits k \<and> udigits k \<le> 57 \<and> (ucast (udigits k) :: u32) = 48 + of_nat k"
proof -
  assume "k < 10"
  then have "k \<in> {0, 1, 2, 3, 4, 5, 6, 7, 8, 9}" by auto
  then show ?thesis
    by (auto simp: udigits_def)
qed

lemma digits_decimal: "d \<in> set (uprintint_digits 10 x) \<Longrightarrow> 48 \<le> d \<and> d \<le> 57"
proof (induction "10 :: nat" x rule: uprintint_digits.induct)
  case (1 x)
  then show ?case
    using decimal_digit [of "x mod 10"] by (subst (asm) uprintint_digits.simps) (auto split: if_splits)
qed

lemma atoi_digits:
  "\<forall>d \<in> set ds. 48 \<le> d \<and> d \<le> 57 \<Longrightarrow> uatoi_loop (of_bytes (pre @ ds)) (length pre) n = Some (foldl dec_step n ds)"
proof (induction ds arbitrary: pre n)
  case Nil
  then show ?case
    by (subst uatoi_loop.simps) (simp add: of_bytes_def)
next
  case (Cons d ds)
  have "of_bytes (pre @ d # ds) (length pre) = d"
    by (simp add: of_bytes_def)
  then show ?case
    using Cons.IH [of "pre @ [d]" "dec_step n d"] Cons.prems
    by (subst uatoi_loop.simps) (simp add: dec_step_def [of n d])
qed

lemma foldl_digits: "foldl dec_step 0 (rev (uprintint_digits 10 x)) = of_nat x"
proof (induction "10 :: nat" x rule: uprintint_digits.induct)
  case (1 x)
  have last: "dec_step n (udigits (x mod 10)) = n * 10 + of_nat (x mod 10)" for n
    using decimal_digit [of "x mod 10"] by (simp add: dec_step_def)
  show ?case
  proof (cases "x div 10 = 0")
    case True
    then have "x mod 10 = x" by (auto simp: div_eq_0_iff)
    then show ?thesis
      using True last [of 0] by (subst uprintint_digits.simps) simp
  next
    case False
    have "of_nat (x div 10) * 10 + of_nat (x mod 10) = (of_nat (x div 10 * 10 + x mod 10) :: u32)"
      unfolding of_nat_add of_nat_mult by simp
    also have "\<dots> = of_nat x"
      by (simp only: div_mult_mod_eq)
    finally show ?thesis
      using 1 False by (subst uprintint_digits.simps) (simp add: last)
  qed
qed

text \<open>C35 (roundtrip). \<open>atoi\<close> reads back what \<open>printf\<close> prints for a number with the conversion
  for signed decimals: every non-negative \<open>int\<close> survives the way through its text. A negative
  one does not: \<open>atoi\<close> has no sign, stops at it and gives 0.\<close>

theorem atoi_printint:
  "uatoi (of_bytes (fmt_text False ''%d'' [VInt n])) = Some (if sint n < 0 then 0 else n)"
proof (cases "sint n < 0")
  case True
  then show ?thesis
    by (simp add: conv_text_def va_int_def uprintint_text_def uatoi_def of_bytes_def uatoi_loop.simps)
next
  case False
  have "uatoi_loop (of_bytes (rev (uprintint_digits 10 (unat n)))) 0 0 = Some n"
    using atoi_digits [of "rev (uprintint_digits 10 (unat n))" "[]" 0] by (simp add: digits_decimal foldl_digits)
  with False show ?thesis
    by (simp add: conv_text_def va_int_def uprintint_text_def uatoi_def)
qed

end
