(* ===== verification/Xv6_Sh.thy ===== *)
theory Xv6_Sh
  imports Xv6_Utils "HOL-Library.Sublist"
begin

text \<open>
  The shell, \<open>user/sh.c\<close>: its recursive-descent parser, \<open>nulterminate\<close>, \<open>runcmd\<close> and the command
  loop. A pointer into the line is the list of the characters from there to the end of the
  line (\<open>es\<close> is the empty list), so a token is a pair of such lists, where it starts and where
  it ends. The parser returns a tree over tokens or the message with which the shell panics;
  its recursion is by fuel, and \<open>parsecmd\<close> is proved never to run out of it.
  Allocation of the nodes of the tree is taken to succeed, as \<open>sh.c\<close> does itself.
\<close>

section \<open>Commands\<close>

text \<open>The five kinds of node, over whatever stands for a word.\<close>

datatype 't shcmd =
    EXEC "'t list"
  | REDIR "'t shcmd" 't nat int
  | PIPE "'t shcmd" "'t shcmd"
  | LIST "'t shcmd" "'t shcmd"
  | BACK "'t shcmd"

text \<open>The constructors, which allocate a node and fill it in.\<close>

abbreviation execcmd :: "'t list \<Rightarrow> 't shcmd" where "execcmd \<equiv> EXEC"
abbreviation redircmd :: "'t shcmd \<Rightarrow> 't \<Rightarrow> nat \<Rightarrow> int \<Rightarrow> 't shcmd" where "redircmd \<equiv> REDIR"
abbreviation pipecmd :: "'t shcmd \<Rightarrow> 't shcmd \<Rightarrow> 't shcmd" where "pipecmd \<equiv> PIPE"
abbreviation listcmd :: "'t shcmd \<Rightarrow> 't shcmd \<Rightarrow> 't shcmd" where "listcmd \<equiv> LIST"
abbreviation backcmd :: "'t shcmd \<Rightarrow> 't shcmd" where "backcmd \<equiv> BACK"

type_synonym token = "u8 list \<times> u8 list"

definition tok_text :: "token \<Rightarrow> u8 list" where
  "tok_text = (\<lambda>(q, eq). take (length q - length eq) q)"

abbreviation MAXARGS :: nat where "MAXARGS \<equiv> 10"

section \<open>Tokens\<close>

definition whitespace :: "u8 list" where
  "whitespace = [32, 9, 13, 10, 11]"

definition symbols :: "u8 list" where
  "symbols = lit ''<|>&;()''"

definition skip :: "u8 list \<Rightarrow> u8 list" where
  "skip s = dropWhile (\<lambda>c. c \<in> set whitespace) s"

definition ordinary :: "u8 \<Rightarrow> bool" where
  "ordinary c \<longleftrightarrow> c \<notin> set whitespace \<and> c \<notin> set symbols"

text \<open>
  The kind of the token (its character, \<open>'a'\<close> for a word, \<open>'+'\<close> for a double \<open>>\<close>), where it
  starts, where it ends, and where the next one starts.
\<close>

definition gettoken :: "u8 list \<Rightarrow> u8 \<times> token \<times> u8 list" where
  "gettoken s =
     (case skip s of
        [] \<Rightarrow> (0, ([], []), [])
      | c # r \<Rightarrow>
          if c \<in> set (lit ''|();&<'') then (c, (c # r, r), skip r)
          else if c = 62 then
            (if r \<noteq> [] \<and> hd r = 62 then (43, (c # r, tl r), skip (tl r))
             else (62, (c # r, r), skip r))
          else
            let e = dropWhile ordinary (c # r) in (97, (c # r, e), skip e))"

definition peek :: "u8 list \<Rightarrow> string \<Rightarrow> bool \<times> u8 list" where
  "peek s toks = (skip s \<noteq> [] \<and> hd (skip s) \<in> set (lit toks), skip s)"

section \<open>The parser\<close>

text \<open>\<open>None\<close> is a parser out of fuel, \<open>Inl\<close> a panic of the shell.\<close>

type_synonym 'a parser = "u8 list \<Rightarrow> (string + 'a \<times> u8 list) option"

definition pret :: "'a \<Rightarrow> 'a parser" where
  "pret a = (\<lambda>s. Some (Inr (a, s)))"

definition perr :: "string \<Rightarrow> 'a parser" where
  "perr e = (\<lambda>s. Some (Inl e))"

definition pbind :: "'a parser \<Rightarrow> ('a \<Rightarrow> 'b parser) \<Rightarrow> 'b parser" where
  "pbind p f = (\<lambda>s. case p s of
      None \<Rightarrow> None | Some (Inl e) \<Rightarrow> Some (Inl e) | Some (Inr (a, r)) \<Rightarrow> f a r)"

definition next_token :: "(u8 \<times> token) parser" where
  "next_token = (\<lambda>s. case gettoken s of (k, t, r) \<Rightarrow> Some (Inr ((k, t), r)))"

definition peeks :: "string \<Rightarrow> bool parser" where
  "peeks toks = (\<lambda>s. Some (Inr (peek s toks)))"

text \<open>
  \<open>parseredirs\<close> wraps the command once for each redirection. \<open>parseexec\<close> goes on to add
  arguments to the innermost node after it has been wrapped, so the redirections are collected
  first, and \<open>wrap\<close> builds the nodes.
\<close>

type_synonym redir = "token \<times> nat \<times> int"

definition wrap :: "('t \<times> nat \<times> int) list \<Rightarrow> 't shcmd \<Rightarrow> 't shcmd" where
  "wrap rs c = foldl (\<lambda>c (f, m, fd). redircmd c f m fd) c rs"

definition redir_of :: "u8 \<Rightarrow> token \<Rightarrow> redir" where
  "redir_of k t = (if k = 60 then (t, 0, 0) else (t, 0x201, 1))"

primrec parseredirs :: "nat \<Rightarrow> redir list \<Rightarrow> redir list parser" where
  "parseredirs 0 rs = (\<lambda>_. None)"
| "parseredirs (Suc n) rs =
     pbind (peeks ''<>'') (\<lambda>b.
     if \<not> b then pret rs
     else pbind next_token (\<lambda>(tok, _). pbind next_token (\<lambda>(k, t).
       if k \<noteq> 97 then perr ''missing file for redirection''
       else parseredirs n (rs @ [redir_of tok t]))))"

primrec parseexec_args :: "nat \<Rightarrow> token list \<Rightarrow> redir list \<Rightarrow> (token list \<times> redir list) parser" where
  "parseexec_args 0 argv rs = (\<lambda>_. None)"
| "parseexec_args (Suc n) argv rs =
     pbind (peeks ''|)&;'') (\<lambda>b.
     if b then pret (argv, rs)
     else pbind next_token (\<lambda>(tok, t).
       if tok = 0 then pret (argv, rs)
       else if tok \<noteq> 97 then perr ''syntax''
       else if Suc (length argv) \<ge> MAXARGS then perr ''too many args''
       else pbind (parseredirs (Suc n) rs) (\<lambda>rs. parseexec_args n (argv @ [t]) rs)))"

primrec parsebacks :: "nat \<Rightarrow> token shcmd \<Rightarrow> token shcmd parser" where
  "parsebacks 0 c = (\<lambda>_. None)"
| "parsebacks (Suc n) c =
     pbind (peeks ''&'') (\<lambda>b. if b then pbind next_token (\<lambda>_. parsebacks n (backcmd c)) else pret c)"

fun parseline :: "nat \<Rightarrow> token shcmd parser"
  and parsepipe :: "nat \<Rightarrow> token shcmd parser"
  and parseexec :: "nat \<Rightarrow> token shcmd parser"
  and parseblock :: "nat \<Rightarrow> token shcmd parser" where
  "parseline 0 = (\<lambda>_. None)"
| "parseline (Suc n) =
     pbind (parsepipe n) (\<lambda>c.
     pbind (parsebacks n c) (\<lambda>c.
     pbind (peeks '';'') (\<lambda>b.
     if b then pbind next_token (\<lambda>_. pbind (parseline n) (\<lambda>c'. pret (listcmd c c'))) else pret c)))"
| "parsepipe 0 = (\<lambda>_. None)"
| "parsepipe (Suc n) =
     pbind (parseexec n) (\<lambda>c.
     pbind (peeks ''|'') (\<lambda>b.
     if b then pbind next_token (\<lambda>_. pbind (parsepipe n) (\<lambda>c'. pret (pipecmd c c'))) else pret c))"
| "parseexec 0 = (\<lambda>_. None)"
| "parseexec (Suc n) =
     pbind (peeks ''('') (\<lambda>b.
     if b then parseblock n
     else pbind (parseredirs n []) (\<lambda>rs.
          pbind (parseexec_args n [] rs) (\<lambda>(argv, rs). pret (wrap rs (execcmd argv)))))"
| "parseblock 0 = (\<lambda>_. None)"
| "parseblock (Suc n) =
     pbind (peeks ''('') (\<lambda>b.
     if \<not> b then perr ''parseblock''
     else pbind next_token (\<lambda>_. pbind (parseline n) (\<lambda>c.
       pbind (peeks '')'') (\<lambda>b.
       if \<not> b then perr ''syntax - missing )''
       else pbind next_token (\<lambda>_. pbind (parseredirs n []) (\<lambda>rs. pret (wrap rs c)))))))"

declare parseline.simps [simp del] parsepipe.simps [simp del] parseexec.simps [simp del] parseblock.simps [simp del]

text \<open>
  An error comes with the characters left over, where \<open>parsecmd\<close> itself found them.
  Every level of the grammar passes on the fuel it got less one; the four levels of a bracket
  consume a character, and so does every other round. The line ends at its first NUL, where
  \<open>strlen\<close> puts \<open>es\<close>.
\<close>

definition line_of :: "u8 list \<Rightarrow> u8 list" where
  "line_of s = takeWhile (\<lambda>c. c \<noteq> 0) s"

definition parsecmd :: "u8 list \<Rightarrow> (string \<times> u8 list + token shcmd) option" where
  "parsecmd s =
     (case parseline (4 * length (line_of s) + 4) (line_of s) of
        None \<Rightarrow> None
      | Some (Inl e) \<Rightarrow> Some (Inl (e, []))
      | Some (Inr (c, r)) \<Rightarrow>
          let r = snd (peek r '''') in Some (if r \<noteq> [] then Inl (''syntax'', r) else Inr c))"

section \<open>Terminating the words\<close>

text \<open>
  \<open>nulterminate\<close> stores a NUL at the end of every word; the buffer is the line with its own
  terminator, and a pointer with \<open>k\<close> characters behind it is the position \<open>length s - k\<close>.
\<close>

primrec words_of :: "'t shcmd \<Rightarrow> 't list" where
  "words_of (EXEC argv) = argv"
| "words_of (REDIR c f m fd) = words_of c @ [f]"
| "words_of (PIPE l r) = words_of l @ words_of r"
| "words_of (LIST l r) = words_of l @ words_of r"
| "words_of (BACK c) = words_of c"

definition nulword :: "nat \<Rightarrow> token \<Rightarrow> u8 list \<Rightarrow> u8 list" where
  "nulword n t buf = buf[n - length (snd t) := 0]"

primrec nulterminate :: "nat \<Rightarrow> token shcmd \<Rightarrow> u8 list \<Rightarrow> u8 list" where
  "nulterminate n (EXEC argv) buf = fold (nulword n) argv buf"
| "nulterminate n (REDIR c f m fd) buf = nulword n f (nulterminate n c buf)"
| "nulterminate n (PIPE l r) buf = nulterminate n r (nulterminate n l buf)"
| "nulterminate n (LIST l r) buf = nulterminate n r (nulterminate n l buf)"
| "nulterminate n (BACK c) buf = nulterminate n c buf"

text \<open>The string a token points to in a buffer.\<close>

definition word_at :: "nat \<Rightarrow> u8 list \<Rightarrow> token \<Rightarrow> u8 list" where
  "word_at n buf t = cstr_at buf (n - length (fst t))"

section \<open>Running commands\<close>

definition shpanic :: "string \<Rightarrow> 'a u" where
  "shpanic e = seq (fprintf 2 ''%s\<newline>'' [VStr (Some (lit e))]) (uexit 1)"

definition fork1 :: "int u" where
  "fork1 = bind (usys UFork) (\<lambda>pid. if pid = - 1 then shpanic ''fork'' else return pid)"

text \<open>One end of a pipe becomes a standard descriptor of a child.\<close>

definition plumb :: "int \<Rightarrow> int \<Rightarrow> int \<times> int \<Rightarrow> unit u" where
  "plumb std fd p = block (map (\<lambda>c. ignore (usys c)) [UClose std, UDup fd, UClose (fst p), UClose (snd p)])"

primrec runcmd :: "u8 list shcmd \<Rightarrow> unit u" where
  "runcmd (EXEC argv) =
     (if argv = [] then uexit 1
      else seq (usys (UExec (hd argv) argv))
             (seq (fprintf 2 ''exec %s failed\<newline>'' [VStr (Some (hd argv))]) (uexit 0)))"
| "runcmd (REDIR c f m fd) =
     seq (usys (UClose fd)) (
     bind (usys (UOpen f m)) (\<lambda>r.
     if r < 0 then seq (fprintf 2 ''open %s failed\<newline>'' [VStr (Some f)]) (uexit 1)
     else seq (runcmd c) (uexit 0)))"
| "runcmd (LIST l r) =
     bind fork1 (\<lambda>pid.
     seq (do_when (pid = 0) (runcmd l)) (
     seq (usys UWait) (
     seq (runcmd r) (uexit 0))))"
| "runcmd (PIPE l r) =
     bind (issue UPipe) (\<lambda>rep.
     if r_val rep < 0 then shpanic ''pipe''
     else let p = r_ints rep in
       bind fork1 (\<lambda>pid.
       seq (do_when (pid = 0) (seq (plumb 1 (snd p) p) (runcmd l))) (
       bind fork1 (\<lambda>pid.
       seq (do_when (pid = 0) (seq (plumb 0 (fst p) p) (runcmd r))) (
       seq (usys (UClose (fst p))) (seq (usys (UClose (snd p))) (
       seq (usys UWait) (seq (usys UWait) (uexit 0)))))))))"
| "runcmd (BACK c) =
     bind fork1 (\<lambda>pid. seq (do_when (pid = 0) (runcmd c)) (uexit 0))"

definition getcmd :: "nat \<Rightarrow> (int \<times> u8 list) u" where
  "getcmd nbuf =
     seq (fprintf 2 ''$ '' []) (
     bind (ugets nbuf) (\<lambda>b.
     let buf = takeWhile (\<lambda>c. c \<noteq> 0) b in
     return (if buf = [] then - 1 else 0, buf)))"

text \<open>What the child does with a line.\<close>

definition sh_child :: "u8 list \<Rightarrow> unit u" where
  "sh_child buf =
     (case parsecmd buf of
        None \<Rightarrow> spin
      | Some (Inl (e, r)) \<Rightarrow>
          seq (do_when (r \<noteq> []) (fprintf 2 ''leftovers: %s\<newline>'' [VStr (Some r)])) (shpanic e)
      | Some (Inr c) \<Rightarrow>
          runcmd (map_shcmd (word_at (length (line_of buf)) (nulterminate (length (line_of buf)) c (buf @ [0]))) c))"

definition sh_turn :: "unit \<Rightarrow> (unit + unit) u" where
  "sh_turn _ =
     bind (getcmd 100) (\<lambda>(r, buf).
     if r < 0 then return (Inr ())
     else if take 3 buf = lit ''cd '' then
       let dir = drop 3 (butlast buf) in
       bind (usys (UChdir dir)) (\<lambda>r.
       seq (do_when (r < 0) (fprintf 2 ''cannot cd %s\<newline>'' [VStr (Some dir)])) (return (Inl ())))
     else
       bind fork1 (\<lambda>pid.
       seq (do_when (pid = 0) (sh_child buf)) (seq (usys UWait) (return (Inl ())))))"

definition sh_consoles :: "unit u" where
  "sh_consoles = uloop (\<lambda>_.
     bind (usys (UOpen (lit ''console'') 2)) (\<lambda>fd.
     if fd < 0 then return (Inr ())
     else if fd \<ge> 3 then seq (usys (UClose fd)) (return (Inr ()))
     else return (Inl ()))) ()"

definition sh_main :: "unit u" where
  "sh_main = seq sh_consoles (seq (uloop sh_turn ()) (uexit 0))"

section \<open>The parser ends\<close>

text \<open>A parser ends with a panic, or with a result and a rest for which \<open>Q\<close> holds.\<close>

definition yields :: "'a parser \<Rightarrow> u8 list \<Rightarrow> ('a \<Rightarrow> u8 list \<Rightarrow> bool) \<Rightarrow> bool" where
  "yields p s Q \<longleftrightarrow>
     (case p s of None \<Rightarrow> False | Some (Inl e) \<Rightarrow> True | Some (Inr (a, r)) \<Rightarrow> Q a r)"

lemma yields_pbind [simp]: "yields (pbind p f) s Q = yields p s (\<lambda>a r. yields (f a) r Q)"
  by (auto simp: yields_def pbind_def split: option.split sum.split prod.split)

lemma yields_pret [simp]: "yields (pret a) s Q = Q a s"
  by (simp add: yields_def pret_def)

lemma yields_perr [simp]: "yields (perr e) s Q"
  by (simp add: yields_def perr_def)

lemma yields_mono: "yields p s Q \<Longrightarrow> (\<And>a r. Q a r \<Longrightarrow> Q' a r) \<Longrightarrow> yields p s Q'"
  by (auto simp: yields_def split: option.splits sum.splits prod.splits)

lemma suffix_dropWhile: "suffix (dropWhile P s) s"
  by (metis suffixI takeWhile_dropWhile_id)

lemma suffix_skip: "suffix (skip s) s"
  by (simp add: skip_def suffix_dropWhile)

lemma skip_skip [simp]: "skip (skip s) = skip s"
  by (simp add: skip_def)

lemma suffix_tlI: "suffix (c # r) s \<Longrightarrow> suffix r s"
  by (rule suffix_ConsD)

text \<open>A token of a line: two pointers into it, an ordinary word between them if it is a word,
  and no ordinary character right behind.\<close>

definition is_word :: "u8 list \<Rightarrow> token \<Rightarrow> bool" where
  "is_word s t \<longleftrightarrow> suffix (fst t) s \<and>
     (\<exists>w. fst t = w @ snd t \<and> w \<noteq> [] \<and> (\<forall>c \<in> set w. ordinary c)) \<and>
     (snd t \<noteq> [] \<longrightarrow> \<not> ordinary (hd (snd t)))"

lemma is_word_mono: "is_word s t \<Longrightarrow> suffix s s' \<Longrightarrow> is_word s' t"
  using suffix_order.trans by (auto simp: is_word_def)

lemma is_word_text: "is_word s t \<Longrightarrow> fst t = tok_text t @ snd t \<and> tok_text t \<noteq> [] \<and> (\<forall>c \<in> set (tok_text t). ordinary c)"
  by (auto simp: is_word_def tok_text_def split: prod.splits)

lemma skip_Cons: "skip s = c # cs \<Longrightarrow> c \<notin> set whitespace \<and> suffix (c # cs) s"
  using hd_dropWhile [of "\<lambda>c. c \<in> set whitespace" s] suffix_skip [of s]
  unfolding skip_def by (metis list.distinct(1) list.sel(1))

lemma suffix_skip_trans: "suffix s s' \<Longrightarrow> suffix (skip s) s'"
  using suffix_skip suffix_order.trans by blast

lemma gettoken_ordinary:
  assumes "skip s = c # cs" and "c \<notin> set (lit ''|();&<'')" and "c \<noteq> 62"
  shows "ordinary c" and "gettoken s = (97, (c # cs, dropWhile ordinary cs), skip (dropWhile ordinary cs))"
proof -
  show "ordinary c"
    using assms skip_Cons [OF assms(1)] by (auto simp: ordinary_def symbols_def)
  then show "gettoken s = (97, (c # cs, dropWhile ordinary cs), skip (dropWhile ordinary cs))"
    using assms by (auto simp: gettoken_def Let_def)
qed

lemma gettoken_rest:
  assumes "gettoken s = (k, t, r)"
  shows "suffix r s" and "skip s \<noteq> [] \<Longrightarrow> length r < length s" and "k = 0 \<longleftrightarrow> skip s = []"
proof -
  show "k = 0 \<longleftrightarrow> skip s = []"
    using assms by (auto simp: gettoken_def Let_def split: list.splits if_splits)
  have "suffix r s \<and> (skip s \<noteq> [] \<longrightarrow> length r < length s)"
  proof (cases "skip s")
    case Nil
    then show ?thesis
      using assms by (simp add: gettoken_def)
  next
    case (Cons c cs)
    have "suffix (tl cs) cs"
      by (simp add: suffix_tl)
    have "suffix r cs"
    proof (cases "c \<in> set (lit ''|();&<'') \<or> c = 62")
      case True
      then show ?thesis
        using assms Cons suffix_skip_trans [OF \<open>suffix (tl cs) cs\<close>]
        by (auto simp: gettoken_def suffix_skip split: if_splits)
    next
      case False
      then show ?thesis
        using assms gettoken_ordinary(2) [OF Cons] suffix_skip_trans [OF suffix_dropWhile, of ordinary cs] by auto
    qed
    then show ?thesis
      using skip_Cons [OF Cons] suffix_length_le [of r cs] suffix_length_le [of "c # cs" s]
        suffix_order.trans [of r "c # cs" s] by (auto simp: suffix_ConsI)
  qed
  then show "suffix r s" and "skip s \<noteq> [] \<Longrightarrow> length r < length s"
    by simp_all
qed

lemma gettoken_word:
  assumes "gettoken s = (97, t, r)"
  shows "is_word s t"
proof -
  obtain c cs where skip: "skip s = c # cs"
    using assms by (cases "skip s") (auto simp: gettoken_def)
  have c: "c \<notin> set (lit ''|();&<'')" "c \<noteq> 62"
    using assms by (auto simp: gettoken_def skip split: if_splits)
  have "c # cs = (c # takeWhile ordinary cs) @ dropWhile ordinary cs"
    by simp
  moreover have "\<forall>x \<in> set (c # takeWhile ordinary cs). ordinary x"
    using gettoken_ordinary(1) [OF skip c] by (auto dest: set_takeWhileD)
  moreover have "dropWhile ordinary cs \<noteq> [] \<longrightarrow> \<not> ordinary (hd (dropWhile ordinary cs))"
    using hd_dropWhile by blast
  moreover have "t = (c # cs, dropWhile ordinary cs)"
    using assms gettoken_ordinary(2) [OF skip c] by simp
  ultimately show ?thesis
    using skip_Cons [OF skip] unfolding is_word_def by (metis fst_conv snd_conv list.distinct(1))
qed

lemma yields_token:
  assumes "\<And>k t r. gettoken s = (k, t, r) \<Longrightarrow> suffix r s \<Longrightarrow> (skip s \<noteq> [] \<Longrightarrow> length r < length s) \<Longrightarrow>
      (k = 0 \<longleftrightarrow> skip s = []) \<Longrightarrow> (k = 97 \<Longrightarrow> is_word s t) \<Longrightarrow> Q (k, t) r"
  shows "yields next_token s Q"
  using assms gettoken_rest [of s] gettoken_word [of s]
  by (cases "gettoken s") (auto simp: yields_def next_token_def)

lemma yields_peeks [simp]: "yields (peeks toks) s Q = Q (fst (peek s toks)) (skip s)"
  by (simp add: yields_def peeks_def peek_def)

definition ok_redir :: "u8 list \<Rightarrow> redir \<Rightarrow> bool" where
  "ok_redir s = (\<lambda>(t, m, fd). is_word s t \<and> (m, fd) \<in> {(0, 0), (0x201, 1)})"

text \<open>The trees the parser may build from a line.\<close>

primrec good_cmd :: "u8 list \<Rightarrow> token shcmd \<Rightarrow> bool" where
  "good_cmd s (EXEC argv) \<longleftrightarrow> length argv < MAXARGS \<and> (\<forall>t \<in> set argv. is_word s t)"
| "good_cmd s (REDIR c f m fd) \<longleftrightarrow> good_cmd s c \<and> ok_redir s (f, m, fd)"
| "good_cmd s (PIPE l r) \<longleftrightarrow> good_cmd s l \<and> good_cmd s r"
| "good_cmd s (LIST l r) \<longleftrightarrow> good_cmd s l \<and> good_cmd s r"
| "good_cmd s (BACK c) \<longleftrightarrow> good_cmd s c"

lemma good_wrap: "good_cmd s c \<Longrightarrow> \<forall>x \<in> set rs. ok_redir s x \<Longrightarrow> good_cmd s (wrap rs c)"
  by (induction rs arbitrary: c) (auto simp: wrap_def)

lemma parseredirs_runs:
  "length s < n \<Longrightarrow> suffix s line \<Longrightarrow> \<forall>x \<in> set rs. ok_redir line x \<Longrightarrow>
     yields (parseredirs n rs) s (\<lambda>rs' r. suffix r s \<and> (\<forall>x \<in> set rs'. ok_redir line x))"
proof (induction n arbitrary: s rs)
  case (Suc n)
  show ?case
  proof (cases "fst (peek s ''<>'')")
    case False
    then show ?thesis
      using Suc.prems(3) by (simp add: suffix_skip)
  next
    case True
    then have ne: "skip s \<noteq> []"
      by (simp add: peek_def)
    have "yields next_token (skip s) (\<lambda>(tok, _) r. yields next_token r (\<lambda>(k, t) r'. yields
        (if k \<noteq> 97 then perr ''missing file for redirection'' else parseredirs n (rs @ [redir_of tok t])) r'
        (\<lambda>rs' r. suffix r s \<and> (\<forall>x \<in> set rs'. ok_redir line x))))"
    proof (rule yields_token, clarify, rule yields_token, clarify)
      fix tok t0 r k t r'
      assume r: "suffix r (skip s)" "skip (skip s) \<noteq> [] \<Longrightarrow> length r < length (skip s)"
        and r': "suffix r' r" "k = 97 \<Longrightarrow> is_word r t"
      have s: "suffix r s"
        using r(1) suffix_skip suffix_order.trans by blast
      then have line: "suffix r line" "suffix r' line" "suffix r' s"
        using Suc.prems(2) r'(1) suffix_order.trans by blast+
      have "length r' < n"
        using r(2) ne suffix_length_le [OF r'(1)] suffix_length_le [OF suffix_skip, of s] Suc.prems(1) by simp
      show "yields (if k \<noteq> 97 then perr ''missing file for redirection'' else parseredirs n (rs @ [redir_of tok t])) r'
        (\<lambda>rs' r. suffix r s \<and> (\<forall>x \<in> set rs'. ok_redir line x))"
      proof (cases "k = 97")
        case True
        then have "\<forall>x \<in> set (rs @ [redir_of tok t]). ok_redir line x"
          using Suc.prems(3) is_word_mono [OF r'(2) line(1)] by (auto simp: ok_redir_def redir_of_def)
        from Suc.IH [OF \<open>length r' < n\<close> line(2) this] show ?thesis
          using True line(3) suffix_order.trans by (auto elim!: yields_mono)
      qed simp
    qed
    then show ?thesis
      using True by (simp add: case_prod_unfold)
  qed
qed simp
lemma suffix_skipped: "suffix r (skip s) \<Longrightarrow> suffix r s"
  using suffix_skip suffix_order.trans by blast

lemma length_skip: "length (skip s) \<le> length s"
  by (simp add: suffix_length_le suffix_skip)

lemma parseexec_args_runs:
  "length s < n \<Longrightarrow> suffix s line \<Longrightarrow> \<forall>x \<in> set rs. ok_redir line x \<Longrightarrow>
     length argv < MAXARGS \<Longrightarrow> \<forall>t \<in> set argv. is_word line t \<Longrightarrow>
     yields (parseexec_args n argv rs) s (\<lambda>(argv', rs') r. suffix r s \<and>
       (\<forall>x \<in> set rs'. ok_redir line x) \<and> length argv' < MAXARGS \<and> (\<forall>t \<in> set argv'. is_word line t))"
proof (induction n arbitrary: s rs argv)
  case (Suc n)
  let ?Q = "\<lambda>(argv', rs') r. suffix r s \<and> (\<forall>x \<in> set rs'. ok_redir line x) \<and> length argv' < MAXARGS \<and> (\<forall>t \<in> set argv'. is_word line t)"
  show ?case
  proof (cases "fst (peek s ''|)&;'')")
    case True
    then show ?thesis
      using Suc.prems by (simp add: suffix_skip)
  next
    case False
    have "yields next_token (skip s) (\<lambda>(tok, t) r. yields
       (if tok = 0 then pret (argv, rs)
        else if tok \<noteq> 97 then perr ''syntax''
        else if Suc (length argv) \<ge> MAXARGS then perr ''too many args''
        else pbind (parseredirs (Suc n) rs) (\<lambda>rs. parseexec_args n (argv @ [t]) rs)) r ?Q)"
    proof (rule yields_token, clarify)
      fix tok :: u8 and t r
      assume r: "suffix r (skip s)" "skip (skip s) \<noteq> [] \<Longrightarrow> length r < length (skip s)"
        and tok: "tok = 0 \<longleftrightarrow> skip (skip s) = []" "tok = 97 \<Longrightarrow> is_word (skip s) t"
      have s: "suffix r s" "suffix r line" "suffix (skip s) line"
        using suffix_skipped [OF r(1)] Suc.prems(2) suffix_skip suffix_order.trans by blast+
      show "yields
         (if tok = 0 then pret (argv, rs)
          else if tok \<noteq> 97 then perr ''syntax''
          else if Suc (length argv) \<ge> MAXARGS then perr ''too many args''
          else pbind (parseredirs (Suc n) rs) (\<lambda>rs. parseexec_args n (argv @ [t]) rs)) r ?Q"
      proof (cases "tok = 97 \<and> Suc (length argv) < MAXARGS")
        case True
        then have len: "length r < n"
          using r(2) tok(1) length_skip [of s] Suc.prems(1) by simp
        have word: "\<forall>t \<in> set (argv @ [t]). is_word line t"
          using Suc.prems(5) is_word_mono [OF tok(2) s(3)] True by auto
        have "yields (parseredirs (Suc n) rs) r (\<lambda>rs' r'. suffix r' r \<and> (\<forall>x \<in> set rs'. ok_redir line x))"
          using len by (intro parseredirs_runs s(2) Suc.prems(3)) simp
        then have "yields (parseredirs (Suc n) rs) r (\<lambda>rs' r'. yields (parseexec_args n (argv @ [t]) rs') r' ?Q)"
        proof (rule yields_mono)
          fix rs' r'
          assume r': "suffix r' r \<and> (\<forall>x \<in> set rs'. ok_redir line x)"
          have sub: "suffix r' line" "suffix r' s" "length r' < n"
            using r' s len suffix_order.trans [of r' r] suffix_length_le [of r' r] by auto
          have "yields (parseexec_args n (argv @ [t]) rs') r' (\<lambda>(argv', rs'') r. suffix r r' \<and>
              (\<forall>x \<in> set rs''. ok_redir line x) \<and> length argv' < MAXARGS \<and> (\<forall>t \<in> set argv'. is_word line t))"
            using True r' word by (intro Suc.IH sub(3) sub(1)) auto
          then show "yields (parseexec_args n (argv @ [t]) rs') r' ?Q"
            by (rule yields_mono) (use sub(2) suffix_order.trans in auto)
        qed
        then show ?thesis
          using True by simp
      next
        case False
        then show ?thesis
          using Suc.prems s(1) by auto
      qed
    qed
    then show ?thesis
      using False by (simp add: case_prod_unfold)
  qed
qed simp

lemma parsebacks_runs:
  "length s < n \<Longrightarrow> good_cmd line c \<Longrightarrow> yields (parsebacks n c) s (\<lambda>c' r. suffix r s \<and> good_cmd line c')"
proof (induction n arbitrary: s c)
  case (Suc n)
  show ?case
  proof (cases "fst (peek s ''&'')")
    case False
    then show ?thesis
      using Suc.prems by (simp add: suffix_skip)
  next
    case True
    then have ne: "skip s \<noteq> []"
      by (simp add: peek_def)
    have "yields next_token (skip s) (\<lambda>_ r. yields (parsebacks n (BACK c)) r (\<lambda>c' r. suffix r s \<and> good_cmd line c'))"
    proof (rule yields_token)
      fix k t r
      assume r: "suffix r (skip s)" "skip (skip s) \<noteq> [] \<Longrightarrow> length r < length (skip s)"
      then have "length r < n"
        using ne length_skip [of s] Suc.prems(1) by simp
      then show "yields (parsebacks n (BACK c)) r (\<lambda>c' r. suffix r s \<and> good_cmd line c')"
        using Suc.IH [of r "BACK c"] Suc.prems(2) suffix_skipped [OF r(1)] suffix_order.trans
        by (auto elim!: yields_mono)
    qed
    then show ?thesis
      using True by simp
  qed
qed simp

text \<open>What the four levels of the grammar give, each with the fuel it needs.\<close>

abbreviation parses :: "u8 list \<Rightarrow> token shcmd parser \<Rightarrow> u8 list \<Rightarrow> bool" where
  "parses line p s \<equiv> yields p s (\<lambda>c r. suffix r s \<and> good_cmd line c)"

lemma after_token:
  assumes "fst (peek s toks)" and "\<And>k t r. suffix r s \<Longrightarrow> length r < length s \<Longrightarrow> P (k, t) r"
  shows "yields next_token (skip s) P"
proof (rule yields_token)
  fix k t r
  assume r: "suffix r (skip s)" "skip (skip s) \<noteq> [] \<Longrightarrow> length r < length (skip s)"
  then show "P (k, t) r"
    using assms length_skip [of s] suffix_skipped [OF r(1)] by (auto simp: peek_def)
qed

lemma parses_then:
  assumes "parses line p s" and "\<And>c r. suffix r s \<Longrightarrow> length r \<le> length s \<Longrightarrow> good_cmd line c \<Longrightarrow> P c r"
  shows "yields p s P"
  using assms(1) by (rule yields_mono) (use assms(2) suffix_length_le in auto)

lemma parses_weaken: "parses line p r \<Longrightarrow> suffix r s \<Longrightarrow> yields p r (\<lambda>c r. suffix r s \<and> good_cmd line c)"
  by (erule yields_mono) (use suffix_order.trans in auto)

lemma parseline_step:
  assumes "\<And>s. 4 * length s + 4 \<le> n \<Longrightarrow> suffix s line \<Longrightarrow> parses line (parseline n) s"
    and "\<And>s. 4 * length s + 3 \<le> n \<Longrightarrow> suffix s line \<Longrightarrow> parses line (parsepipe n) s"
    and "4 * length s + 4 \<le> Suc n" and "suffix s line"
  shows "parses line (parseline (Suc n)) s"
  unfolding parseline.simps yields_pbind
proof (rule parses_then [OF assms(2)])
  fix c r
  assume r: "suffix r s" "length r \<le> length s" "good_cmd line c"
  show "yields (parsebacks n c) r (\<lambda>c r. yields (peeks '';'') r (\<lambda>b r. yields
      (if b then pbind next_token (\<lambda>_. pbind (parseline n) (\<lambda>c'. pret (LIST c c'))) else pret c) r
      (\<lambda>c r. suffix r s \<and> good_cmd line c)))"
  proof (rule parses_then [OF parsebacks_runs])
    fix c' r'
    assume r': "suffix r' r" "length r' \<le> length r" "good_cmd line c'"
    have s: "suffix r' s" "suffix r' line"
      using r' r assms(4) suffix_order.trans by blast+
    show "yields (peeks '';'') r' (\<lambda>b r. yields
      (if b then pbind next_token (\<lambda>_. pbind (parseline n) (\<lambda>c''. pret (LIST c' c''))) else pret c') r
      (\<lambda>c r. suffix r s \<and> good_cmd line c))"
    proof (cases "fst (peek r' '';'')")
      case True
      have "yields next_token (skip r') (\<lambda>x r. yields (pbind (parseline n) (\<lambda>c''. pret (LIST c' c''))) r (\<lambda>c r. suffix r s \<and> good_cmd line c))"
      proof (rule after_token [OF True])
        fix r''
        assume "suffix r'' r'" "length r'' < length r'"
        then have "suffix r'' s" "suffix r'' line" "length r'' < length r'"
          using s suffix_order.trans by blast+
        then have "parses line (parseline n) r''" "suffix r'' s"
          using assms(1,3) r(2) r'(2) by auto
        then show "yields (pbind (parseline n) (\<lambda>c''. pret (LIST c' c''))) r'' (\<lambda>c r. suffix r s \<and> good_cmd line c)"
          using parses_weaken r'(3) by (auto elim: yields_mono)
      qed
      then show ?thesis using True by simp
    next
      case False
      then show ?thesis
        using s(1) r'(3) by (simp add: suffix_skip_trans)
    qed
  qed (use assms(3) r in auto)
qed (use assms in auto)

lemma parsepipe_step:
  assumes "\<And>s. 4 * length s + 3 \<le> n \<Longrightarrow> suffix s line \<Longrightarrow> parses line (parsepipe n) s"
    and "\<And>s. 4 * length s + 2 \<le> n \<Longrightarrow> suffix s line \<Longrightarrow> parses line (parseexec n) s"
    and "4 * length s + 3 \<le> Suc n" and "suffix s line"
  shows "parses line (parsepipe (Suc n)) s"
  unfolding parsepipe.simps yields_pbind
proof (rule parses_then [OF assms(2)])
  fix c r
  assume r: "suffix r s" "length r \<le> length s" "good_cmd line c"
  show "yields (peeks ''|'') r (\<lambda>b r. yields
      (if b then pbind next_token (\<lambda>_. pbind (parsepipe n) (\<lambda>c'. pret (PIPE c c'))) else pret c) r
      (\<lambda>c r. suffix r s \<and> good_cmd line c))"
  proof (cases "fst (peek r ''|'')")
    case True
    have "yields next_token (skip r) (\<lambda>x r. yields (pbind (parsepipe n) (\<lambda>c'. pret (PIPE c c'))) r (\<lambda>c r. suffix r s \<and> good_cmd line c))"
    proof (rule after_token [OF True])
      fix r'
      assume "suffix r' r" "length r' < length r"
      then have "suffix r' s" "suffix r' line" "length r' < length r"
        using assms(4) r(1) suffix_order.trans by blast+
      then have "parses line (parsepipe n) r'" "suffix r' s"
        using assms(1,3) r(2) by auto
      then show "yields (pbind (parsepipe n) (\<lambda>c'. pret (PIPE c c'))) r' (\<lambda>c r. suffix r s \<and> good_cmd line c)"
        using parses_weaken r(3) by (auto elim: yields_mono)
    qed
    then show ?thesis using True by simp
  next
    case False
    then show ?thesis
      using r by (simp add: suffix_skip_trans)
  qed
qed (use assms in auto)

lemma parseexec_step:
  assumes "\<And>s. 4 * length s + 1 \<le> n \<Longrightarrow> suffix s line \<Longrightarrow> parses line (parseblock n) s"
    and "4 * length s + 2 \<le> Suc n" and "suffix s line"
  shows "parses line (parseexec (Suc n)) s"
proof (cases "fst (peek s ''('')")
  case True
  have "parses line (parseblock n) (skip s)"
    using assms(1,2) length_skip [of s] suffix_skip_trans [OF assms(3)] by auto
  then show ?thesis
    using True parses_weaken [OF _ suffix_skip] by (simp add: parseexec.simps)
next
  case False
  have sk: "length (skip s) < n" "suffix (skip s) line"
    using assms(1,2) length_skip [of s] suffix_skip_trans [OF assms(3)] by auto
  have "yields (parseredirs n []) (skip s) (\<lambda>rs r. yields
      (pbind (parseexec_args n [] rs) (\<lambda>(argv, rs). pret (wrap rs (EXEC argv)))) r (\<lambda>c r. suffix r s \<and> good_cmd line c))"
  proof (rule yields_mono [OF parseredirs_runs [OF sk]])
    fix rs r
    assume r: "suffix r (skip s) \<and> (\<forall>x \<in> set rs. ok_redir line x)"
    then have "length r < n" "suffix r line" "suffix r s"
      using sk suffix_length_le [of r "skip s"] suffix_order.trans [of r "skip s" line] suffix_skipped [of r s] by auto
    then have "yields (parseexec_args n [] rs) r (\<lambda>(argv', rs') r'. suffix r' r \<and>
       (\<forall>x \<in> set rs'. ok_redir line x) \<and> length argv' < MAXARGS \<and> (\<forall>t \<in> set argv'. is_word line t))"
      using parseexec_args_runs r by simp
    then show "yields (pbind (parseexec_args n [] rs) (\<lambda>(argv, rs). pret (wrap rs (EXEC argv)))) r
        (\<lambda>c r. suffix r s \<and> good_cmd line c)"
      unfolding yields_pbind
      by (rule yields_mono) (use \<open>suffix r s\<close> in \<open>auto simp: good_wrap intro: suffix_order.trans\<close>)
  qed simp
  then show ?thesis
    using False by (simp add: parseexec.simps)
qed

lemma parseblock_step:
  assumes "\<And>s. 4 * length s + 4 \<le> n \<Longrightarrow> suffix s line \<Longrightarrow> parses line (parseline n) s"
    and "4 * length s + 1 \<le> Suc n" and "suffix s line"
  shows "parses line (parseblock (Suc n)) s"
proof (cases "fst (peek s ''('')")
  case True
  let ?fin = "\<lambda>c. pbind (peeks '')'') (\<lambda>b. if \<not> b then perr ''syntax - missing )''
       else pbind next_token (\<lambda>_. pbind (parseredirs n []) (\<lambda>rs. pret (wrap rs c))))"
  let ?Q = "\<lambda>c r. suffix r s \<and> good_cmd line c"
  have "yields next_token (skip s) (\<lambda>x r. yields (pbind (parseline n) ?fin) r ?Q)"
  proof (rule after_token [OF True])
    fix r
    assume r: "suffix r s" "length r < length s"
    then have "parses line (parseline n) r"
      using assms suffix_order.trans [of r s line] by auto
    then show "yields (pbind (parseline n) ?fin) r ?Q"
      unfolding yields_pbind
    proof (rule parses_then)
      fix c r'
      assume r': "suffix r' r" "length r' \<le> length r" "good_cmd line c"
      have "yields next_token (skip r') (\<lambda>x r. yields (pbind (parseredirs n []) (\<lambda>rs. pret (wrap rs c))) r ?Q)"
        if "fst (peek r' '')'')"
      proof (rule after_token [OF that])
        fix r''
        assume "suffix r'' r'" "length r'' < length r'"
        then have "length r'' < n"
          using assms(2) r(2) r'(2) by simp
        have s: "suffix r'' s"
          by (rule suffix_order.trans [OF suffix_order.trans [OF \<open>suffix r'' r'\<close> r'(1)] r(1)])
        have "suffix r'' line"
          by (rule suffix_order.trans [OF s assms(3)])
        then show "yields (pbind (parseredirs n []) (\<lambda>rs. pret (wrap rs c))) r'' ?Q"
          unfolding yields_pbind using \<open>length r'' < n\<close>
          by (intro yields_mono [OF parseredirs_runs]) (use s r'(3) in \<open>auto simp: good_wrap intro: suffix_order.trans\<close>)
      qed
      then show "yields (peeks '')'') r' (\<lambda>a r. yields (if \<not> a then perr ''syntax - missing )''
         else pbind next_token (\<lambda>_. pbind (parseredirs n []) (\<lambda>rs. pret (wrap rs c)))) r ?Q)"
        by auto
    qed
  qed
  then show ?thesis
    using True by (simp add: parseblock.simps)
next
  case False
  then show ?thesis
    by (simp add: parseblock.simps)
qed

lemma parser_runs:
  "suffix s line \<Longrightarrow>
    (4 * length s + 4 \<le> n \<longrightarrow> parses line (parseline n) s) \<and>
    (4 * length s + 3 \<le> n \<longrightarrow> parses line (parsepipe n) s) \<and>
    (4 * length s + 2 \<le> n \<longrightarrow> parses line (parseexec n) s) \<and>
    (4 * length s + 1 \<le> n \<longrightarrow> parses line (parseblock n) s)"
proof (induction n arbitrary: s)
  case (Suc n)
  note IH = Suc.IH [THEN conjunct1, rule_format] Suc.IH [THEN conjunct2, THEN conjunct1, rule_format]
    Suc.IH [THEN conjunct2, THEN conjunct2, THEN conjunct1, rule_format]
    Suc.IH [THEN conjunct2, THEN conjunct2, THEN conjunct2, rule_format]
  show ?case
    using parseline_step [OF IH(1,2)] parsepipe_step [OF IH(2,3)] parseexec_step [OF IH(4)] parseblock_step [OF IH(1)]
      Suc.prems by blast
qed simp

section \<open>The words of a command\<close>

lemma nulterminate_words: "nulterminate n c buf = fold (nulword n) (words_of c) buf"
  by (induction c arbitrary: buf) simp_all

lemma length_fold_nulword [simp]: "length (fold (nulword n) ts buf) = length buf"
  by (induction ts arbitrary: buf) (simp_all add: nulword_def)

lemma fold_nulword_nth:
  "i < length buf \<Longrightarrow>
     fold (nulword n) ts buf ! i = (if \<exists>t \<in> set ts. n - length (snd t) = i then 0 else buf ! i)"
  by (induction ts arbitrary: buf) (auto simp: nulword_def nth_list_update)

lemma good_words: "good_cmd s c \<Longrightarrow> t \<in> set_shcmd c \<Longrightarrow> is_word s t"
  by (induction c) (auto simp: ok_redir_def)

lemma set_words [simp]: "set (words_of c) = set_shcmd c"
  by (induction c) auto

text \<open>A word ends in front of a character that is not ordinary, or at the end of the line.\<close>

lemma word_end:
  assumes "is_word s t"
  shows "length s - length (snd t) = length s \<or> \<not> ordinary (s ! (length s - length (snd t)))"
proof (cases "snd t")
  case (Cons c cs)
  obtain p w where "s = p @ w @ snd t"
    using assms by (auto simp: is_word_def suffix_def)
  then have "s ! (length s - length (snd t)) = c"
    using Cons by (simp add: nth_append)
  then show ?thesis
    using assms Cons by (simp add: is_word_def)
qed simp

lemma word_at_text:
  assumes ts: "\<forall>t \<in> set ts. is_word s t" and t: "t \<in> set ts" and "0 \<notin> set s"
  shows "word_at (length s) (fold (nulword (length s)) ts (s @ [0])) t = tok_text t"
proof -
  let ?buf = "fold (nulword (length s)) ts (s @ [0])"
  define w where "w = tok_text t"
  have word: "is_word s t"
    using ts t by blast
  have fst: "fst t = w @ snd t" and ordinary: "\<forall>c \<in> set w. ordinary c"
    using is_word_text [OF word] by (simp_all add: w_def)
  obtain p where s: "s = p @ w @ snd t"
    using word fst by (auto simp: is_word_def suffix_def)
  have "takeWhile (\<lambda>c. c \<noteq> 0) (drop (length p) ?buf) = take (length w) (drop (length p) ?buf)"
  proof (rule takeWhile_eq_take_P_nth)
    fix i
    assume i: "i < length w"
    have "w ! i \<noteq> 0"
      using assms(3) nth_mem [OF i] by (metis Un_iff s set_append)
    then have "ordinary (s ! (length p + i))" "s ! (length p + i) \<noteq> 0" "length p + i < length s"
      using ordinary i by (auto simp: s nth_append)
    then have "\<not> (\<exists>t \<in> set ts. length s - length (snd t) = length p + i)"
      using ts word_end by fastforce
    then show "drop (length p) ?buf ! i \<noteq> 0"
      using \<open>s ! (length p + i) \<noteq> 0\<close> \<open>length p + i < length s\<close>
      by (simp add: fold_nulword_nth nth_append)
  next
    have "length s - length (snd t) = length p + length w"
      by (simp add: s)
    then show "\<not> drop (length p) ?buf ! length w \<noteq> 0"
      using t by (auto simp: fold_nulword_nth s)
  qed
  also have "\<dots> = w"
  proof (rule nth_equalityI)
    fix i
    assume "i < length (take (length w) (drop (length p) ?buf))"
    then have i: "i < length w" by simp
    then have "ordinary (s ! (length p + i))" "length p + i < length s"
      using ordinary by (auto simp: s nth_append)
    then have "\<not> (\<exists>t \<in> set ts. length s - length (snd t) = length p + i)"
      using ts word_end by fastforce
    then show "take (length w) (drop (length p) ?buf) ! i = w ! i"
      using i \<open>length p + i < length s\<close> by (simp add: fold_nulword_nth nth_append s)
  qed (simp add: s)
  finally show ?thesis
    by (simp add: word_at_def cstr_at_def fst s w_def)
qed

text \<open>The trees \<open>parsecmd\<close> returns.\<close>

lemma line_of_id: "0 \<notin> set s \<Longrightarrow> line_of s = s"
  by (auto simp: line_of_def takeWhile_eq_all_conv)

lemma parsecmd_runs:
  "case parsecmd s of None \<Rightarrow> False | Some (Inl e) \<Rightarrow> True | Some (Inr c) \<Rightarrow> good_cmd (line_of s) c"
proof -
  have "parses (line_of s) (parseline (4 * length (line_of s) + 4)) (line_of s)"
    using parser_runs [of "line_of s" "line_of s" "4 * length (line_of s) + 4"] by simp
  then show ?thesis
    by (auto simp: parsecmd_def yields_def Let_def split: option.splits sum.splits prod.splits)
qed

section \<open>Properties\<close>

text \<open>C31 (type). \<open>parsecmd\<close> ends for every line, with a panic of the shell or with a well-formed
  tree: an \<open>execcmd\<close> has at most nine words, so the terminating null pointer fits \<open>argv\<close>; every
  word is a non-empty piece of the line, which ends at its first NUL, without blanks and
  symbols, that ends where such a character or the end of the line follows; and a redirection is to descriptor 0 for reading or
  to descriptor 1 for writing.\<close>

theorem parsecmd_well_formed:
  "case parsecmd s of None \<Rightarrow> False | Some (Inl e) \<Rightarrow> True | Some (Inr c) \<Rightarrow> good_cmd (line_of s) c"
  by (rule parsecmd_runs)

text \<open>C33 (functional). After \<open>nulterminate\<close> every word of the tree, read as a C string out of the
  line, is the text of its token: no terminator is written into another word, and none is
  missing.\<close>

theorem nulterminate_words_intact:
  assumes "parsecmd s = Some (Inr c)" and "0 \<notin> set s"
  shows "map_shcmd (word_at (length s) (nulterminate (length s) c (s @ [0]))) c = map_shcmd tok_text c"
proof (rule shcmd.map_cong)
  fix t
  assume "t \<in> set_shcmd c"
  moreover have "good_cmd s c"
    using parsecmd_runs [of s] assms line_of_id [of s] by simp
  ultimately show "word_at (length s) (nulterminate (length s) c (s @ [0])) t = tok_text t"
    unfolding nulterminate_words using good_words assms(2) by (intro word_at_text) auto
qed simp

definition demo_line :: "u8 list" where
  "demo_line = lit ''cat <in|(grep x;echo a)>out &\<newline>''"

theorem nulterminate_words_intact_witness:
  "\<exists>c. parsecmd demo_line = Some (Inr c) \<and>
     map_shcmd (word_at (length demo_line) (nulterminate (length demo_line) c (demo_line @ [0]))) c =
       BACK (PIPE (REDIR (EXEC [lit ''cat'']) (lit ''in'') 0 0)
         (REDIR (LIST (EXEC [lit ''grep'', lit ''x'']) (EXEC [lit ''echo'', lit ''a''])) (lit ''out'') 0x201 1))"
proof -
  have run: "(case parsecmd demo_line of Some (Inr c) \<Rightarrow> map_shcmd tok_text c = BACK (PIPE (REDIR (EXEC [lit ''cat'']) (lit ''in'') 0 0)
         (REDIR (LIST (EXEC [lit ''grep'', lit ''x'']) (EXEC [lit ''echo'', lit ''a''])) (lit ''out'') 0x201 1)) | _ \<Rightarrow> False)"
    by code_simp
  then obtain c where c: "parsecmd demo_line = Some (Inr c)"
    by (auto split: option.splits sum.splits)
  moreover have "0 \<notin> set demo_line"
    by (simp add: demo_line_def)
  ultimately show ?thesis
    using run nulterminate_words_intact by auto
qed

section \<open>Printing and parsing\<close>

text \<open>A command written out, every part of a compound command in brackets.\<close>

definition bracket :: "u8 list \<Rightarrow> u8 list" where
  "bracket s = 40 # s @ [41]"

primrec show_cmd :: "u8 list shcmd \<Rightarrow> u8 list" where
  "show_cmd (EXEC argv) = concat (map (\<lambda>w. w @ [32]) argv)"
| "show_cmd (REDIR c f m fd) = bracket (show_cmd c) @ (if fd = 0 then 60 else 62) # f"
| "show_cmd (PIPE l r) = bracket (show_cmd l) @ 124 # bracket (show_cmd r)"
| "show_cmd (LIST l r) = bracket (show_cmd l) @ 59 # bracket (show_cmd r)"
| "show_cmd (BACK c) = bracket (show_cmd c) @ [38]"

text \<open>The commands that can be typed.\<close>

definition is_name :: "u8 list \<Rightarrow> bool" where
  "is_name w \<longleftrightarrow> w \<noteq> [] \<and> (\<forall>c \<in> set w. ordinary c \<and> c \<noteq> 0)"

primrec typable :: "u8 list shcmd \<Rightarrow> bool" where
  "typable (EXEC argv) \<longleftrightarrow> length argv < MAXARGS \<and> (\<forall>w \<in> set argv. is_name w)"
| "typable (REDIR c f m fd) \<longleftrightarrow> typable c \<and> is_name f \<and> (m, fd) \<in> {(0, 0), (0x201, 1)}"
| "typable (PIPE l r) \<longleftrightarrow> typable l \<and> typable r"
| "typable (LIST l r) \<longleftrightarrow> typable l \<and> typable r"
| "typable (BACK c) \<longleftrightarrow> typable c"

text \<open>A parser that succeeds, with a result whose words are given and a given rest.\<close>

definition reads :: "token shcmd parser \<Rightarrow> u8 list \<Rightarrow> u8 list shcmd \<Rightarrow> u8 list \<Rightarrow> bool" where
  "reads p s c r \<longleftrightarrow> (\<exists>c'. p s = Some (Inr (c', r)) \<and> map_shcmd tok_text c' = c)"

lemma pbind_Some: "p s = Some (Inr (a, r)) \<Longrightarrow> pbind p f s = f a r"
  by (simp add: pbind_def)

lemma peeks_apply: "peeks toks s = Some (Inr (skip s \<noteq> [] \<and> hd (skip s) \<in> set (lit toks), skip s))"
  by (simp add: peeks_def peek_def)

lemma symbol_not_white: "c \<in> set symbols \<Longrightarrow> c \<notin> set whitespace"
  by (auto simp: symbols_def whitespace_def)

lemma skip_symbol [simp]: "c \<in> set symbols \<Longrightarrow> skip (c # s) = c # s"
  by (simp add: skip_def symbol_not_white)

lemma skip_Nil [simp]: "skip [] = []"
  by (simp add: skip_def)

lemma skip_space [simp]: "skip (32 # s) = skip s"
  by (simp add: skip_def whitespace_def)

lemma skip_name: "is_name w \<Longrightarrow> skip (w @ s) = w @ s"
  by (cases w) (auto simp: is_name_def skip_def ordinary_def)

lemma token_symbol:
  "c \<in> set (lit ''|();&<'') \<Longrightarrow> next_token (c # s) = Some (Inr ((c, (c # s, s)), skip s))"
  by (auto simp: next_token_def gettoken_def symbols_def)

lemma token_gt: "s \<noteq> [] \<Longrightarrow> hd s \<noteq> 62 \<Longrightarrow> next_token (62 # s) = Some (Inr ((62, (62 # s, s)), skip s))"
  by (auto simp: next_token_def gettoken_def symbols_def)

lemma token_name:
  assumes "is_name w" and "s = [] \<or> \<not> ordinary (hd s)"
  shows "next_token (w @ s) = Some (Inr ((97, (w @ s, s)), skip s))"
proof -
  obtain c w' where w: "w = c # w'" "ordinary c" "\<forall>x \<in> set w'. ordinary x"
    using assms(1) by (cases w) (auto simp: is_name_def)
  have "skip (w @ s) = c # w' @ s"
    using skip_name [OF assms(1)] w(1) by simp
  moreover have "c \<notin> set (lit ''|();&<'')" "c \<noteq> 62"
    using w(2) by (auto simp: ordinary_def symbols_def)
  moreover have "dropWhile ordinary (w' @ s) = s"
    using w(3) assms(2) by (cases s) (auto simp: dropWhile_append)
  ultimately show ?thesis
    using gettoken_ordinary(2) [of "w @ s" c "w' @ s"] w(1) by (simp add: next_token_def)
qed

lemma tok_text_name [simp]: "tok_text (w @ s, s) = w"
  by (simp add: tok_text_def)

text \<open>What may follow a command: the end or a closing bracket; what may follow a bracket.\<close>

definition closes :: "u8 list \<Rightarrow> bool" where
  "closes s \<longleftrightarrow> s = [] \<or> hd s = 41"

definition follows :: "u8 list \<Rightarrow> bool" where
  "follows s \<longleftrightarrow> s = [] \<or> hd s \<in> set (lit ''|);&'')"

lemma follows_skip: "follows s \<Longrightarrow> skip s = s"
  by (cases s) (auto simp: follows_def symbols_def)

lemma closes_follows: "closes s \<Longrightarrow> follows s"
  by (auto simp: closes_def follows_def)

lemma no_redirs: "follows s \<Longrightarrow> parseredirs (Suc n) rs s = Some (Inr (rs, s))"
  by (auto simp: pbind_def peeks_apply follows_skip pret_def follows_def)

lemma name_start:
  assumes "is_name w"
  shows "w @ s \<noteq> []" and "ordinary (hd (w @ s))"
  using assms by (cases w; simp add: is_name_def)+

lemma no_redirs_name: "is_name w \<Longrightarrow> parseredirs (Suc n) rs (w @ s) = Some (Inr (rs, w @ s))"
proof -
  assume w: "is_name w"
  have "hd (w @ s) \<notin> set (lit ''<>'')"
    using name_start(2) [OF w, of s] by (auto simp: ordinary_def symbols_def)
  then show ?thesis
    by (simp add: pbind_def peeks_apply skip_name [OF w] pret_def)
qed

definition show_args :: "u8 list list \<Rightarrow> u8 list" where
  "show_args ws = concat (map (\<lambda>w. w @ [32]) ws)"

lemma show_args_simps [simp]: "show_args [] = []" "show_args (w # ws) = w @ 32 # show_args ws"
  by (simp_all add: show_args_def)

lemma args_start:
  assumes "\<forall>w \<in> set ws. is_name w" and "follows k"
  shows "skip (show_args ws @ k) = show_args ws @ k"
    and "parseredirs (Suc n) rs (show_args ws @ k) = Some (Inr (rs, show_args ws @ k))"
  using assms by (cases ws; simp add: follows_skip skip_name no_redirs no_redirs_name del: parseredirs.simps)+

lemma exec_args:
  assumes "\<forall>w \<in> set ws. is_name w" and "closes k" and "length argv + length ws < MAXARGS" and "length ws < n"
  shows "\<exists>ts. parseexec_args n argv rs (show_args ws @ k) = Some (Inr ((argv @ ts, rs), k)) \<and> map tok_text ts = ws"
  using assms
proof (induction ws arbitrary: n argv)
  case Nil
  then obtain m where n: "n = Suc m" by (cases n) auto
  show ?case
  proof (cases k)
    case Nil
    then show ?thesis
      by (simp add: n pbind_def peeks_apply pret_def next_token_def gettoken_def)
  next
    case (Cons c cs)
    then have "c = 41"
      using \<open>closes k\<close> by (simp add: closes_def)
    then show ?thesis
      using Cons by (simp add: n pbind_def peeks_apply pret_def symbols_def)
  qed
next
  case (Cons w ws)
  then obtain m where n: "n = Suc m" by (cases n) auto
  have w: "is_name w" and ws: "\<forall>w \<in> set ws. is_name w"
    using Cons.prems by simp_all
  let ?r = "show_args ws @ k" and ?t = "(w @ 32 # show_args ws @ k, 32 # show_args ws @ k)"
  have start: "hd (w @ 32 # ?r) \<notin> set (lit ''|)&;'')"
    using name_start(2) [OF w, of "32 # ?r"] by (auto simp: ordinary_def symbols_def)
  have tok: "next_token (w @ 32 # ?r) = Some (Inr ((97, ?t), ?r))"
    using token_name [OF w, of "32 # ?r"] args_start(1) [OF ws closes_follows [OF Cons.prems(2)]]
    by (simp add: ordinary_def whitespace_def)
  obtain ts where "parseexec_args m (argv @ [?t]) rs ?r = Some (Inr (((argv @ [?t]) @ ts, rs), k))" "map tok_text ts = ws"
    using Cons.IH [of "argv @ [?t]" m] Cons.prems n by auto
  moreover have "parseexec_args n argv rs (w @ 32 # ?r) = parseexec_args m (argv @ [?t]) rs ?r"
    using start tok args_start(2) [OF ws closes_follows [OF Cons.prems(2)], of m rs] Cons.prems(3)
    by (simp add: n pbind_def peeks_apply skip_name [OF w] w pret_def del: parseredirs.simps)
  ultimately show ?case
    by (intro exI [of _ "?t # ts"]) (simp add: tok_text_name)
qed

lemma skip_show: "typable c \<Longrightarrow> follows k \<Longrightarrow> skip (show_cmd c @ k) = show_cmd c @ k"
proof (cases c)
  case (EXEC argv)
  then show "typable c \<Longrightarrow> follows k \<Longrightarrow> ?thesis"
    using args_start(1) [of argv k] by (simp add: show_args_def)
qed (auto simp: bracket_def symbols_def)

lemma exec_bracket:
  assumes "reads (parseline n) (show_cmd c @ 41 # k) c (41 # k)" and "typable c"
    and "parseredirs n [] (skip k) = Some (Inr (rs, k'))"
  shows "\<exists>c'. parseexec (Suc (Suc n)) (bracket (show_cmd c) @ k) = Some (Inr (wrap rs c', k')) \<and>
    map_shcmd tok_text c' = c"
proof -
  obtain c' where c': "parseline n (show_cmd c @ 41 # k) = Some (Inr (c', 41 # k))" "map_shcmd tok_text c' = c"
    using assms(1) by (auto simp: reads_def)
  have "skip (show_cmd c @ 41 # k) = show_cmd c @ 41 # k"
    using assms(2) by (intro skip_show) (simp_all add: follows_def)
  then have "parseblock (Suc n) (40 # show_cmd c @ 41 # k) = Some (Inr (wrap rs c', k'))"
    using c'(1) assms(3) by (simp add: parseblock.simps pbind_def peeks_apply symbols_def token_symbol pret_def)
  then have "parseexec (Suc (Suc n)) (bracket (show_cmd c) @ k) = Some (Inr (wrap rs c', k'))"
    by (simp add: bracket_def parseexec.simps pbind_def peeks_apply symbols_def)
  then show ?thesis
    using c'(2) by blast
qed

lemma pipe_exec:
  "parseexec n s = Some (Inr (c, k)) \<Longrightarrow> follows k \<Longrightarrow> k = [] \<or> hd k \<noteq> 124 \<Longrightarrow>
     parsepipe (Suc n) s = Some (Inr (c, k))"
  by (auto simp: parsepipe.simps pbind_def peeks_apply follows_skip pret_def)

lemma line_pipe:
  "parsepipe (Suc n) s = Some (Inr (c, k)) \<Longrightarrow> closes k \<Longrightarrow> parseline (Suc (Suc n)) s = Some (Inr (c, k))"
  using closes_follows follows_skip by (auto simp: parseline.simps pbind_def peeks_apply pret_def closes_def)

text \<open>A bracketed command in front of something that is not a redirection.\<close>

lemma exec_plain:
  assumes "reads (parseline n) (show_cmd c @ 41 # k) c (41 # k)" and "typable c" and "follows k" and "0 < n"
  shows "reads (parseexec (Suc (Suc n))) (bracket (show_cmd c) @ k) c k"
proof -
  obtain m where "n = Suc m" using assms(4) by (cases n) auto
  then have "parseredirs n [] (skip k) = Some (Inr ([], k))"
    using no_redirs [OF assms(3)] follows_skip [OF assms(3)] by (simp del: parseredirs.simps)
  from exec_bracket [OF assms(1,2) this] show ?thesis
    by (simp add: reads_def wrap_def)
qed

lemma line_exec:
  assumes "reads (parseexec n) s c k" and "closes k"
  shows "reads (parseline (Suc (Suc n))) s c k"
proof -
  obtain c' where "parseexec n s = Some (Inr (c', k))" "map_shcmd tok_text c' = c"
    using assms(1) by (auto simp: reads_def)
  then show ?thesis
    unfolding reads_def using assms(2)
    by (intro exI [of _ c'] conjI line_pipe pipe_exec closes_follows) (auto simp: closes_def)
qed

lemma reads_exec:
  assumes "typable (EXEC argv)" and "closes k" and "length argv < n"
  shows "reads (parseexec (Suc n)) (show_cmd (EXEC argv) @ k) (EXEC argv) k"
proof -
  have argv: "\<forall>w \<in> set argv. is_name w" "length [] + length argv < MAXARGS"
    using assms(1) by simp_all
  have follows: "follows k"
    using assms(2) by (rule closes_follows)
  obtain m where m: "n = Suc m" using assms(3) by (cases n) auto
  obtain ts where ts: "parseexec_args n [] [] (show_args argv @ k) = Some (Inr (([] @ ts, []), k))" "map tok_text ts = argv"
    using exec_args [OF argv(1) assms(2), of "[]" n "[]"] argv(2) assms(3) by auto
  have "\<not> (show_args argv @ k \<noteq> [] \<and> hd (show_args argv @ k) \<in> set (lit ''(''))"
  proof (cases argv)
    case Nil
    then show ?thesis
      using assms(2) by (auto simp: closes_def)
  next
    case (Cons w ws)
    then show ?thesis
      using name_start(2) [of w "32 # show_args ws @ k"] argv(1) by (auto simp: ordinary_def symbols_def)
  qed
  then have "parseexec (Suc n) (show_args argv @ k) = Some (Inr (wrap [] (EXEC ts), k))"
    using ts(1) args_start [OF argv(1) follows] m
    by (auto simp: parseexec.simps pbind_def peeks_apply pret_def simp del: parseredirs.simps parseexec_args.simps)
  then show ?thesis
    using ts(2) by (auto simp: reads_def wrap_def show_args_def)
qed

lemma redirs_one:
  assumes "is_name f" and "closes k" and "(m, fd) \<in> {(0, 0), (0x201, 1)}"
  shows "parseredirs (Suc (Suc n)) [] ((if fd = (0 :: int) then 60 else 62) # f @ k) = Some (Inr ([((f @ k, k), m, fd)], k))"
proof -
  have follows: "follows k" using assms(2) by (rule closes_follows)
  have "hd (f @ k) \<noteq> 62"
    using name_start(2) [OF assms(1), of k] by (auto simp: ordinary_def symbols_def)
  then have "next_token ((if fd = 0 then 60 else 62) # f @ k) =
      Some (Inr ((if fd = 0 then 60 else 62, ((if fd = 0 then 60 else 62) # f @ k, f @ k)), f @ k))"
    using name_start(1) [OF assms(1), of k] skip_name [OF assms(1), of k] by (auto simp: token_symbol token_gt)
  moreover have "next_token (f @ k) = Some (Inr ((97, (f @ k, k)), k))"
    using token_name [OF assms(1), of k] assms(2) follows_skip [OF follows]
    by (auto simp: closes_def ordinary_def symbols_def)
  moreover have "skip ((if fd = 0 then 60 else 62) # f @ k) = (if fd = 0 then 60 else 62) # f @ k"
    by (simp add: symbols_def)
  moreover have "parseredirs (Suc n) [((f @ k, k), m, fd)] k = Some (Inr ([((f @ k, k), m, fd)], k))"
    by (rule no_redirs [OF follows])
  ultimately show ?thesis
    using assms(3) by (subst parseredirs.simps) (auto simp: pbind_def peeks_apply redir_of_def simp del: parseredirs.simps)
qed

lemma show_parses:
  "typable c \<Longrightarrow> closes k \<Longrightarrow> 4 * length (show_cmd c @ k) + 4 \<le> n \<Longrightarrow> reads (parseline n) (show_cmd c @ k) c k"
proof (induction c arbitrary: k n)
  case (EXEC argv)
  define m where "m = n - 3"
  have m: "n = Suc (Suc (Suc m))"
    using EXEC.prems(3) by (simp add: m_def)
  have "length argv \<le> length (show_args argv)"
    by (induction argv) simp_all
  then have "length argv < m"
    using EXEC.prems(3) m by (simp add: show_args_def)
  then show ?case
    unfolding m by (intro line_exec reads_exec EXEC.prems)
next
  case (REDIR c f m fd)
  define j where "j = n - 6"
  have j: "n = Suc (Suc (Suc (Suc (Suc (Suc j)))))"
    using REDIR.prems(3) by (simp add: j_def bracket_def)
  let ?k = "(if fd = 0 then 60 else 62) # f @ k"
  have "reads (parseline (Suc (Suc j))) (show_cmd c @ 41 # ?k) c (41 # ?k)"
    using REDIR.prems by (intro REDIR.IH) (simp_all add: closes_def j bracket_def)
  moreover have "parseredirs (Suc (Suc j)) [] (skip ?k) = Some (Inr ([((f @ k, k), m, fd)], k))"
    using redirs_one [of f k m fd j] REDIR.prems by (simp add: symbols_def del: parseredirs.simps)
  ultimately obtain c' where c': "map_shcmd tok_text c' = c"
      "parseexec (Suc (Suc (Suc (Suc j)))) (bracket (show_cmd c) @ ?k) = Some (Inr (wrap [((f @ k, k), m, fd)] c', k))"
    using exec_bracket [of "Suc (Suc j)" c ?k "[((f @ k, k), m, fd)]" k] REDIR.prems(1) by (auto simp del: parseredirs.simps)
  have "reads (parseexec (Suc (Suc (Suc (Suc j))))) (show_cmd (REDIR c f m fd) @ k) (REDIR c f m fd) k"
    using c' by (auto simp: reads_def wrap_def)
  then show ?case
    unfolding j using REDIR.prems(2) by (rule line_exec)
next
  case (PIPE l r)
  define j where "j = n - 7"
  have j: "n = Suc (Suc (Suc (Suc (Suc (Suc (Suc j))))))"
    using PIPE.prems(3) by (simp add: j_def bracket_def)
  let ?k = "124 # bracket (show_cmd r) @ k"
  have follows: "follows k"
    using PIPE.prems(2) by (rule closes_follows)
  have "reads (parseline (Suc (Suc (Suc j)))) (show_cmd l @ 41 # ?k) l (41 # ?k)"
    using PIPE.prems by (intro PIPE.IH(1)) (simp_all add: closes_def j bracket_def)
  then have "reads (parseexec (Suc (Suc (Suc (Suc (Suc j)))))) (bracket (show_cmd l) @ ?k) l ?k"
    using PIPE.prems(1) by (intro exec_plain) (simp_all add: follows_def)
  then obtain l' where l': "parseexec (Suc (Suc (Suc (Suc (Suc j))))) (bracket (show_cmd l) @ ?k) = Some (Inr (l', ?k))"
      "map_shcmd tok_text l' = l" by (auto simp: reads_def)
  have "reads (parseline (Suc (Suc j))) (show_cmd r @ 41 # k) r (41 # k)"
    using PIPE.prems by (intro PIPE.IH(2)) (simp_all add: closes_def j bracket_def)
  then have "reads (parseexec (Suc (Suc (Suc (Suc j))))) (bracket (show_cmd r) @ k) r k"
    using PIPE.prems(1) follows by (intro exec_plain) simp_all
  then obtain r' where r': "parsepipe (Suc (Suc (Suc (Suc (Suc j))))) (bracket (show_cmd r) @ k) = Some (Inr (r', k))"
      "map_shcmd tok_text r' = r"
    using pipe_exec follows PIPE.prems(2) by (fastforce simp: reads_def closes_def)
  have "skip (bracket (show_cmd r) @ k) = bracket (show_cmd r) @ k"
    by (simp add: bracket_def symbols_def)
  then have "parsepipe (Suc (Suc (Suc (Suc (Suc (Suc j)))))) (bracket (show_cmd l) @ ?k) = Some (Inr (PIPE l' r', k))"
    using l'(1) r'(1) by (subst parsepipe.simps) (simp add: pbind_def peeks_apply symbols_def token_symbol pret_def)
  then have "parseline n (show_cmd (PIPE l r) @ k) = Some (Inr (PIPE l' r', k))"
    using line_pipe [of "Suc (Suc (Suc (Suc (Suc j))))" "bracket (show_cmd l) @ ?k"] PIPE.prems(2) by (simp add: j)
  then show ?case
    using l'(2) r'(2) by (auto simp: reads_def)
next
  case (LIST l r)
  define j where "j = n - 7"
  have j: "n = Suc (Suc (Suc (Suc (Suc (Suc (Suc j))))))"
    using LIST.prems(3) by (simp add: j_def bracket_def)
  let ?k = "59 # bracket (show_cmd r) @ k"
  have follows: "follows k"
    using LIST.prems(2) by (rule closes_follows)
  have "reads (parseline (Suc (Suc (Suc j)))) (show_cmd l @ 41 # ?k) l (41 # ?k)"
    using LIST.prems by (intro LIST.IH(1)) (simp_all add: closes_def j bracket_def)
  then have "reads (parseexec (Suc (Suc (Suc (Suc (Suc j)))))) (bracket (show_cmd l) @ ?k) l ?k"
    using LIST.prems(1) by (intro exec_plain) (simp_all add: follows_def)
  then obtain l' where l': "parsepipe (Suc (Suc (Suc (Suc (Suc (Suc j)))))) (bracket (show_cmd l) @ ?k) = Some (Inr (l', ?k))"
      "map_shcmd tok_text l' = l"
    using pipe_exec [of "Suc (Suc (Suc (Suc (Suc j))))" "bracket (show_cmd l) @ ?k" _ ?k] by (auto simp: reads_def follows_def)
  have "reads (parseline (Suc (Suc j))) (show_cmd r @ 41 # k) r (41 # k)"
    using LIST.prems by (intro LIST.IH(2)) (simp_all add: closes_def j bracket_def)
  then have "reads (parseexec (Suc (Suc (Suc (Suc j))))) (bracket (show_cmd r) @ k) r k"
    using LIST.prems(1) follows by (intro exec_plain) simp_all
  then have "reads (parseline (Suc (Suc (Suc (Suc (Suc (Suc j))))))) (bracket (show_cmd r) @ k) r k"
    using LIST.prems(2) by (rule line_exec)
  then obtain r' where r': "parseline (Suc (Suc (Suc (Suc (Suc (Suc j)))))) (bracket (show_cmd r) @ k) = Some (Inr (r', k))"
      "map_shcmd tok_text r' = r" by (auto simp: reads_def)
  have "skip (bracket (show_cmd r) @ k) = bracket (show_cmd r) @ k"
    by (simp add: bracket_def symbols_def)
  then have "parseline n (bracket (show_cmd l) @ ?k) = Some (Inr (LIST l' r', k))"
    unfolding j using l'(1) r'(1)
    by (subst parseline.simps) (simp add: pbind_def peeks_apply symbols_def token_symbol pret_def)
  then show ?case
    using l'(2) r'(2) by (auto simp: reads_def)
next
  case (BACK c)
  define j where "j = n - 6"
  have j: "n = Suc (Suc (Suc (Suc (Suc (Suc j)))))"
    using BACK.prems(3) by (simp add: j_def bracket_def)
  let ?k = "38 # k"
  have follows: "follows k"
    using BACK.prems(2) by (rule closes_follows)
  have "reads (parseline (Suc (Suc j))) (show_cmd c @ 41 # ?k) c (41 # ?k)"
    using BACK.prems by (intro BACK.IH) (simp_all add: closes_def j bracket_def)
  then have "reads (parseexec (Suc (Suc (Suc (Suc j))))) (bracket (show_cmd c) @ ?k) c ?k"
    using BACK.prems(1) by (intro exec_plain) (simp_all add: follows_def)
  then obtain c' where c': "parsepipe (Suc (Suc (Suc (Suc (Suc j))))) (bracket (show_cmd c) @ ?k) = Some (Inr (c', ?k))"
      "map_shcmd tok_text c' = c"
    using pipe_exec [of "Suc (Suc (Suc (Suc j)))" "bracket (show_cmd c) @ ?k" _ ?k] by (auto simp: reads_def follows_def)
  have "\<not> (k \<noteq> [] \<and> hd k \<in> set (lit ''&''))" "\<not> (k \<noteq> [] \<and> hd k \<in> set (lit '';''))"
    using BACK.prems(2) by (auto simp: closes_def)
  then have "parseline n (bracket (show_cmd c) @ ?k) = Some (Inr (BACK c', k))"
    unfolding j using c'(1) follows_skip [OF follows]
    by (subst parseline.simps) (auto simp: pbind_def peeks_apply symbols_def token_symbol pret_def)
  then show ?case
    using c'(2) by (auto simp: reads_def)
qed

lemma show_no_nul: "typable c \<Longrightarrow> 0 \<notin> set (show_cmd c)"
  by (induction c) (auto simp: bracket_def is_name_def)

text \<open>C32 (roundtrip). Every command that can be typed is parsed back from its text: writing the tree
  out, with every part of a compound command in brackets, and parsing the line gives the same
  tree, words included, with nothing left over.\<close>

theorem parse_show:
  assumes "typable c"
  shows "\<exists>t. parsecmd (show_cmd c) = Some (Inr t) \<and> map_shcmd tok_text t = c"
proof -
  have "reads (parseline (4 * length (show_cmd c) + 4)) (show_cmd c) c []"
    using show_parses [OF assms, of "[]"] by (simp add: closes_def)
  then show ?thesis
    using line_of_id [OF show_no_nul [OF assms]] by (auto simp: reads_def parsecmd_def peek_def)
qed

theorem parse_show_witness:
  "\<exists>t. parsecmd (lit ''((cat )<in)|((ls )&)'') = Some (Inr t) \<and>
     map_shcmd tok_text t = PIPE (REDIR (EXEC [lit ''cat'']) (lit ''in'') 0 0) (BACK (EXEC [lit ''ls'']))"
proof -
  let ?c = "PIPE (REDIR (EXEC [lit ''cat'']) (lit ''in'') 0 0) (BACK (EXEC [lit ''ls'']))"
  have "typable ?c"
    by (simp add: is_name_def ordinary_def whitespace_def symbols_def)
  moreover have "show_cmd ?c = lit ''((cat )<in)|((ls )&)''"
    by (simp add: bracket_def)
  ultimately show ?thesis
    using parse_show [of ?c] by metis
qed

section \<open>Running never returns\<close>

definition in_call :: "ustate \<Rightarrow> bool" where
  "in_call t \<longleftrightarrow> u_pending t \<noteq> None"

lemma in_call_pending [simp]: "in_call (s\<lparr>u_pending := Some c\<rparr>)"
  by (simp add: in_call_def)

lemma ends_issueI: "(\<And>v t. Q v t) \<Longrightarrow> ends (issue c) Q in_call s"
  by (rule ends_issue) simp_all

lemma ends_usysI: "(\<And>v t. Q v t) \<Longrightarrow> ends (usys c) Q in_call s"
  by (simp add: usys_def ends_issueI)

lemma ends_fprintfI: "(\<And>v t. Q v t) \<Longrightarrow> ends (fprintf fd fmt ap) Q in_call s"
  by (rule ends_writes [OF writes_fprintf]) (simp_all add: in_call_def)

lemma ends_shpanic: "ends (shpanic e) Q in_call s"
  by (simp add: shpanic_def ends_fprintfI)

lemma ends_fork1I: "(\<And>v t. Q v t) \<Longrightarrow> ends fork1 Q in_call s"
  by (simp add: fork1_def ends_usysI ends_shpanic)

lemma ends_plumbI: "(\<And>v t. Q v t) \<Longrightarrow> ends (plumb std fd p) Q in_call s"
  by (simp add: plumb_def ends_usysI)

lemma ends_child:
  assumes "\<And>s. ends m (\<lambda>_ _. False) in_call s" and "\<And>t. Q () t"
  shows "ends (do_when b m) Q in_call s"
  using assms by (cases b) (auto intro: ends_mono)

lemmas ends_call = ends_issueI ends_usysI ends_fprintfI ends_shpanic ends_fork1I ends_plumbI ends_child

lemma ends_never: "ends m (\<lambda>_ _. False) R s \<Longrightarrow> ends m Q R s"
  by (erule ends_mono) simp_all

lemma runcmd_in_call: "ends (runcmd c) (\<lambda>_ _. False) in_call s"
proof (induction c arbitrary: s)
  case (REDIR c f m fd)
  then show ?case
    by (auto simp: ends_never intro!: ends_call)
next
  case (PIPE l r)
  have "ends (seq (plumb 1 (snd p) p) (runcmd l)) (\<lambda>_ _. False) in_call s"
    "ends (seq (plumb 0 (fst p) p) (runcmd r)) (\<lambda>_ _. False) in_call s" for p s
    using PIPE by (simp_all add: ends_plumbI)
  then show ?case
    by (simp add: ends_call Let_def)
next
  case (LIST l r)
  then show ?case
    by (auto simp: ends_never intro!: ends_call)
qed (simp_all add: ends_call)

text \<open>\<open>runcmd\<close> never returns, as its comment says: in every process it runs in, whatever
  the kernel answers, it ends inside a system call, for good in \<open>exit\<close> or \<open>exec\<close>.\<close>

lemma runcmd_never_returns: "ends (runcmd c) (\<lambda>_ _. False) (\<lambda>t. u_pending t \<noteq> None) s"
  using runcmd_in_call [of c s] by (simp add: in_call_def [abs_def])

end
