(* ===== verification/Xv6_Inode.thy ===== *)
theory Xv6_Inode
  imports Xv6_Fs
begin

text \<open>
  The inode cache and path names of \<open>kernel/fs.c\<close>: what \<open>iget\<close> does to the cache and that it
  never holds an inode twice, and that the loop over \<open>skipelem\<close> sees exactly the elements of a
  path.
\<close>

section \<open>The inode cache\<close>

definition iref :: "kstate \<Rightarrow> nat \<Rightarrow> int" where
  "iref s i = i_ref (k_inodes s i)"

text \<open>The entries in use for an inode, and the invariant that there is at most one.\<close>

definition entry_for :: "u32 \<Rightarrow> u32 \<Rightarrow> kstate \<Rightarrow> nat \<Rightarrow> bool" where
  "entry_for dev inum s i \<longleftrightarrow>
     i < NINODE \<and> 0 < iref s i \<and> i_dev (k_inodes s i) = dev \<and> i_inum (k_inodes s i) = inum"

definition icache_ok :: "kstate \<Rightarrow> bool" where
  "icache_ok s \<longleftrightarrow> (\<forall>i < NINODE. 0 \<le> iref s i) \<and>
     (\<forall>dev inum i j. entry_for dev inum s i \<longrightarrow> entry_for dev inum s j \<longrightarrow> i = j)"

lemma iget_cached_Some: "iget_cached dev inum s = Some ip \<Longrightarrow> entry_for dev inum s ip"
  by (auto simp: iget_cached_def entry_for_def iref_def dest!: find_upt_Some)

lemma iget_cached_None: "iget_cached dev inum s = None \<longleftrightarrow> (\<forall>i. \<not> entry_for dev inum s i)"
  by (auto simp: iget_cached_def entry_for_def iref_def find_upt_None)

lemma iget_empty_Some: "iget_empty s = Some ip \<Longrightarrow> ip < NINODE \<and> iref s ip = 0"
  by (auto simp: iget_empty_def iref_def dest!: find_upt_Some)

lemma iget_empty_None: "iget_empty s = None \<longleftrightarrow> (\<forall>i < NINODE. iref s i \<noteq> 0)"
  by (auto simp: iget_empty_def iref_def find_upt_None)

lemma iget_blind [simp]:
  "iget_cached dev inum (locked_state lk s) = iget_cached dev inum s" "iget_empty (locked_state lk s) = iget_empty s"
  by (simp_all add: iget_cached_def iget_empty_def)

text \<open>The state after \<open>iget\<close> has found an entry, or taken an empty one.\<close>

definition ireferred :: "nat \<Rightarrow> kstate \<Rightarrow> kstate" where
  "ireferred ip = upd_inode ip (\<lambda>i. i\<lparr>i_ref := i_ref i + 1\<rparr>)"

definition ientered :: "u32 \<Rightarrow> u32 \<Rightarrow> nat \<Rightarrow> kstate \<Rightarrow> kstate" where
  "ientered dev inum ip = upd_inode ip (\<lambda>i. i\<lparr>i_dev := dev, i_inum := inum, i_ref := 1, i_valid := False\<rparr>)"

lemma iget_apply:
  assumes "quiet p s"
  shows "iget dev inum s = (case iget_cached dev inum s of
      Some ip \<Rightarrow> Ok ip (ireferred ip s)
    | None \<Rightarrow> (case iget_empty s of
        Some ip \<Rightarrow> Ok ip (ientered dev inum ip s)
      | None \<Rightarrow> Panic ''iget: no inodes''))"
  using assms
  by (auto simp: iget_def run_simps release_quiet ireferred_def ientered_def split: option.split)

lemma icache_ok_ireferred: "icache_ok s \<Longrightarrow> 0 < iref s ip \<Longrightarrow> icache_ok (ireferred ip s)"
proof -
  assume ok: "icache_ok s" and ip: "0 < iref s ip"
  have "entry_for dev inum (ireferred ip s) = entry_for dev inum s" for dev inum
    using ip by (auto simp: entry_for_def iref_def ireferred_def upd_inode_def fun_eq_iff)
  moreover have "iref s i \<le> iref (ireferred ip s) i" for i
    by (simp add: iref_def ireferred_def upd_inode_def)
  ultimately show ?thesis
    using ok unfolding icache_ok_def by (metis order_trans)
qed

lemma icache_ok_ientered:
  assumes "icache_ok s" and "\<And>i. \<not> entry_for dev inum s i"
  shows "icache_ok (ientered dev inum ip s)"
proof -
  have "entry_for d n (ientered dev inum ip s) i \<longleftrightarrow>
      (if i = ip then i < NINODE \<and> d = dev \<and> n = inum else entry_for d n s i)" for d n i
    by (auto simp: entry_for_def iref_def ientered_def upd_inode_def)
  moreover have "iref (ientered dev inum ip s) i = (if i = ip then 1 else iref s i)" for i
    by (simp add: iref_def ientered_def upd_inode_def)
  ultimately show ?thesis
    using assms unfolding icache_ok_def by (smt (verit))
qed

section \<open>Path elements\<close>

text \<open>The elements of a path: what stands between slashes, empty elements left out.\<close>

primrec elements :: "u8 list \<Rightarrow> u8 list \<Rightarrow> u8 list list" where
  "elements acc [] = (if acc = [] then [] else [acc])"
| "elements acc (c # cs) =
     (if c = slash then (if acc = [] then elements [] cs else acc # elements [] cs)
      else elements (acc @ [c]) cs)"

text \<open>What \<open>namex\<close> sees of a path: one element after the other, each in the name buffer.\<close>

fun path_names :: "nat \<Rightarrow> u8 list \<Rightarrow> bytes \<Rightarrow> bytes list" where
  "path_names n path name =
     (if n = 0 then []
      else case skipelem path name of
        None \<Rightarrow> []
      | Some (path', name') \<Rightarrow> name' # path_names (n - 1) path' name')"

declare path_names.simps [simp del]

lemma elements_word: "slash \<notin> set w \<Longrightarrow> elements acc (w @ cs) = elements (acc @ w) cs"
  by (induction w arbitrary: acc) auto

lemma elements_slashes: "elements [] (dropWhile (\<lambda>c. c = slash) cs) = elements [] cs"
  by (induction cs) auto

text \<open>The name buffer read as a name of at most \<open>DIRSIZ\<close> characters.\<close>

definition dirname :: "bytes \<Rightarrow> u8 list" where
  "dirname name = cstr DIRSIZ name"

lemma cstr_element:
  assumes "0 \<notin> set s" and "s \<noteq> []"
  shows "dirname (if length s \<ge> DIRSIZ then overwrite name 0 DIRSIZ (of_bytes s)
      else (overwrite name 0 (length s) (of_bytes s))(length s := 0)) = take DIRSIZ s"
proof (cases "length s \<ge> DIRSIZ")
  case True
  have "map (overwrite name 0 DIRSIZ (of_bytes s)) [0..<DIRSIZ] = take DIRSIZ s"
    using True by (intro nth_equalityI) (auto simp: of_bytes_def)
  moreover have "\<forall>c \<in> set (take DIRSIZ s). c \<noteq> 0"
    using assms(1) by (metis in_set_takeD)
  ultimately show ?thesis
    using True by (simp add: dirname_def cstr_def takeWhile_eq_all_conv)
next
  case False
  have nz: "s ! i \<noteq> 0" if "i < length s" for i
    using assms(1) that by (metis nth_mem)
  let ?b = "(overwrite name 0 (length s) (of_bytes s))(length s := 0)"
  have "takeWhile (\<lambda>c. c \<noteq> 0) (map ?b [0..<DIRSIZ]) = take (length s) (map ?b [0..<DIRSIZ])"
    using False nz by (intro takeWhile_eq_take_P_nth) (auto simp: of_bytes_def)
  also have "\<dots> = s"
    using False by (intro nth_equalityI) (auto simp: of_bytes_def)
  finally show ?thesis
    using False by (simp add: dirname_def cstr_def)
qed

lemma skipelem_cases:
  assumes "0 \<notin> set path"
  shows "case skipelem path name of
      None \<Rightarrow> elements [] path = []
    | Some (path', name') \<Rightarrow> length path' < length path \<and> 0 \<notin> set path' \<and>
        (\<exists>e. elements [] path = e # elements [] path' \<and> dirname name' = take DIRSIZ e)"
proof (cases "dropWhile (\<lambda>c. c = slash) path")
  case Nil
  then have "elements [] path = []"
    by (metis elements.simps(1) elements_slashes)
  then show ?thesis
    using Nil by (simp add: skipelem_def)
next
  case (Cons c cs)
  define e where "e = takeWhile (\<lambda>c. c \<noteq> slash) (c # cs)"
  define rest where "rest = dropWhile (\<lambda>c. c \<noteq> slash) (c # cs)"
  let ?path' = "dropWhile (\<lambda>c. c = slash) rest"
  have "c \<noteq> slash"
    using hd_dropWhile [of "\<lambda>c. c = slash" path] Cons by simp
  then have e: "e \<noteq> []" "slash \<notin> set e" "c # cs = e @ rest"
    by (auto simp: e_def rest_def dest: set_takeWhileD)
  have sub: "set (c # cs) \<subseteq> set path" "length (c # cs) \<le> length path"
    using Cons set_dropWhileD [of _ "\<lambda>c. c = slash" path] length_dropWhile_le [of "\<lambda>c. c = slash" path] by auto
  have z: "0 \<notin> set (c # cs)"
    using assms sub(1) by blast
  then have z': "0 \<notin> set e" "0 \<notin> set ?path'"
    unfolding e(3) by (auto dest: set_dropWhileD)
  have len: "length ?path' < length path"
    using e(1,3) length_dropWhile_le [of "\<lambda>c. c = slash" rest] sub(2) by (cases e) auto
  have "elements [] path = elements [] (e @ rest)"
    using elements_slashes [of path] Cons e(3) by simp
  also have "\<dots> = elements e rest"
    using elements_word [OF e(2), of "[]" rest] by simp
  also have "\<dots> = e # elements [] ?path'"
  proof (cases rest)
    case Nil
    then show ?thesis using e(1) by simp
  next
    case (Cons d ds)
    then have "d = slash"
      using hd_dropWhile [of "\<lambda>c. c \<noteq> slash" "c # cs"] by (simp add: rest_def)
    then show ?thesis
      using e(1) elements_slashes [of "d # ds"] Cons by simp
  qed
  finally have el: "elements [] path = e # elements [] ?path'" .
  have "skipelem path name = Some (?path', if length e \<ge> DIRSIZ then overwrite name 0 DIRSIZ (of_bytes e)
      else (overwrite name 0 (length e) (of_bytes e))(length e := 0))"
    by (simp add: skipelem_def Cons Let_def e_def rest_def)
  then show ?thesis
    using el len z' cstr_element [OF z'(1) e(1), of name] by simp
qed

lemma path_names_elements:
  "0 \<notin> set path \<Longrightarrow> length path < n \<Longrightarrow> map dirname (path_names n path name) = map (take DIRSIZ) (elements [] path)"
proof (induction n arbitrary: path name)
  case (Suc n)
  show ?case
    using skipelem_cases [OF Suc.prems(1), of name] Suc.IH Suc.prems(2)
    by (subst path_names.simps) (auto split: option.splits)
qed simp

section \<open>Properties\<close>

text \<open>C11 (invariant). No inode is ever in the cache twice: with the cache in order, \<open>iget\<close> gives the
  entry that already stands for the inode, with one reference more, or turns an unused entry
  into one with a single reference that is not valid yet; the cache stays in order and no other
  entry changes. It panics exactly when neither exists.\<close>

theorem iget_no_duplicates:
  assumes "quiet p s" and "icache_ok s"
  shows "case iget dev inum s of
      Ok ip t \<Rightarrow> icache_ok t \<and> entry_for dev inum t ip \<and> (\<forall>j. j \<noteq> ip \<longrightarrow> k_inodes t j = k_inodes s j) \<and>
        (if \<exists>i. entry_for dev inum s i
         then entry_for dev inum s ip \<and> t = upd_inode ip (\<lambda>i. i\<lparr>i_ref := i_ref i + 1\<rparr>) s
         else i_ref (k_inodes s ip) = 0 \<and> i_ref (k_inodes t ip) = 1 \<and> \<not> i_valid (k_inodes t ip))
    | Panic e \<Rightarrow> \<forall>i<NINODE. 0 < i_ref (k_inodes s i) \<and> \<not> entry_for dev inum s i
    | _ \<Rightarrow> False"
proof (cases "iget_cached dev inum s")
  case (Some ip)
  have ip: "entry_for dev inum s ip"
    by (rule iget_cached_Some [OF Some])
  then have "0 < iref s ip" by (simp add: entry_for_def)
  then have "icache_ok (ireferred ip s)"
    by (rule icache_ok_ireferred [OF assms(2)])
  then show ?thesis
    using ip by (auto simp: iget_apply [OF assms(1)] Some ireferred_def upd_inode_def entry_for_def iref_def)
next
  case None
  then have none: "\<not> entry_for dev inum s i" for i
    by (simp add: iget_cached_None)
  show ?thesis
  proof (cases "iget_empty s")
    case (Some ip)
    have "icache_ok (ientered dev inum ip s)"
      by (rule icache_ok_ientered [OF assms(2) none])
    then show ?thesis
      using none iget_empty_Some [OF Some]
      by (auto simp: iget_apply [OF assms(1)] None Some ientered_def upd_inode_def entry_for_def iref_def)
  next
    case e: None
    have "0 < i_ref (k_inodes s i)" if "i < NINODE" for i
      using assms(2) that e by (auto simp: iget_empty_None icache_ok_def iref_def order_less_le)
    then show ?thesis
      using none by (simp add: iget_apply [OF assms(1)] None e)
  qed
qed

text \<open>C12 (equivalence). The loop of \<open>namex\<close> over \<open>skipelem\<close> sees exactly the elements of the path: the
  pieces between slashes, with runs of slashes at either end and in the middle counting as
  one, each cut to \<open>DIRSIZ\<close> characters.\<close>

theorem skipelem_elements:
  assumes "0 \<notin> set path"
  shows "map dirname (path_names (length path + 1) path name) = map (take DIRSIZ) (elements [] path)"
  using path_names_elements [OF assms] by simp

theorem skipelem_elements_witness:
  "map dirname (path_names (length ''//usr//a/bb'' + 1) (map of_char ''//usr//a/bb'') (\<lambda>_. 7)) = map (map of_char) [''usr'', ''a'', ''bb'']"
proof -
  have "0 \<notin> set (map of_char ''//usr//a/bb'' :: u8 list)"
    by simp
  from skipelem_elements [OF this, of "\<lambda>_. 7"] show ?thesis
    by (simp add: slash_def)
qed

theorem iget_no_duplicates_witness:
  "\<exists>t. iget 1 7 demo_running = Ok 0 t \<and> entry_for 1 7 t 0 \<and> icache_ok t"
proof -
  have q: "quiet 2 demo_running"
    by (simp add: quiet_def calm_def running_def lock_free_def demo_running_def zero_state_def)
  have r: "i_ref (k_inodes demo_running i) = 0" for i
    by (simp add: demo_running_def zero_defs)
  then have ok: "icache_ok demo_running"
    by (simp add: icache_ok_def entry_for_def iref_def)
  have "iget_cached 1 7 demo_running = None" "iget_empty demo_running = Some 0"
    using r by (auto simp: iget_cached_None entry_for_def iref_def iget_empty_def upt_rec)
  then have "iget 1 7 demo_running = Ok 0 (ientered 1 7 0 demo_running)"
    by (simp add: iget_apply [OF q])
  then show ?thesis
    using iget_no_duplicates [OF q ok, of 1 7] by simp
qed

end
