(* ===== verification/Xv6_Blocks.thy ===== *)
theory Xv6_Blocks
  imports Xv6_Fs
begin

text \<open>
  The parts of \<open>kernel/fs.c\<close> that change blocks within a transaction: a common step (read the
  block, change its bytes, \<open>log_write\<close>, \<open>brelse\<close>) and its effect on the view of the buffer cache,
  then the block allocator over the bitmap and the on-disk form of inodes, which are built from
  that step. \<open>can_log\<close> and \<open>room\<close> say that the open transaction has room for one more block, or
  for the blocks of a set.
\<close>

section \<open>Updating a block within a transaction\<close>

text \<open>
  Room to log one more change of block \<open>n\<close>: a transaction is open, neither the log nor the cache
  is full, and the block is not one of the log's own.
\<close>

definition can_log :: "nat \<Rightarrow> kstate \<Rightarrow> u32 \<Rightarrow> bool" where
  "can_log p s n \<longleftrightarrow> (let lg = k_log s; k = nat (l_n lg) in
     log_ready p s \<and> 1 \<le> l_outstanding lg \<and> l_n lg + 1 < 30 \<and> l_n lg + 1 < l_size lg \<and>
     in_use (cache_view p s) + 1 < NBUF \<and> cache_refs s n + 2 < 2 ^ 32 \<and>
     n \<noteq> l_start lg \<and> (\<forall>i\<le>k. n \<noteq> slot (l_start lg) i) \<and> cache_refs s (slot (l_start lg) k) = 0)"

text \<open>The log with block \<open>n\<close> in it.\<close>

definition with_block :: "u32 \<Rightarrow> logst \<Rightarrow> logst" where
  "with_block n lg = (if n \<in> set (logged_blocks lg) then lg
     else lg\<lparr>l_block := (l_block lg)(nat (l_n lg) := n), l_n := l_n lg + 1\<rparr>)"

text \<open>What a change of block \<open>n\<close> by \<open>f\<close> within a transaction does to the view of the cache.\<close>

definition seen_logged :: "u32 \<Rightarrow> (bytes \<Rightarrow> bytes) \<Rightarrow> off_cache bview \<Rightarrow> off_cache bview" where
  "seen_logged n f v = v\<lparr>bv_content := (bv_content v)(n := f (bv_content v n)),
     bv_refs := (bv_refs v)(n := bv_refs v n + (if n \<in> set (logged_blocks (view_log v)) then 0 else 1)),
     bv_rest := (with_block n (view_log v), snd (bv_rest v))\<rparr>"

definition logged_update :: "u32 \<Rightarrow> (bytes \<Rightarrow> bytes) \<Rightarrow> unit k" where
  "logged_update n f =
     bind (bread 1 n) (\<lambda>bp. block [
       modify (upd_buf bp (\<lambda>bf. bf\<lparr>b_data := f (b_data bf)\<rparr>)), log_write bp, brelse bp])"

lemma bpin_quiet: "quiet p s \<Longrightarrow> bpin b s = Ok () (recount b (b_refcnt (k_bufs s b) + 1) s)"
  unfolding bpin_def using count_step [of p s BcacheLock b "\<lambda>c. c + 1"] release_quiet [of p s "recount b (b_refcnt (k_bufs s b) + 1)" BcacheLock]
  by (simp add: run_simps acquire_quiet)

lemma log_step:
  assumes "cache_ok p s" and "cache_bound s b n" and "0 \<le> l_n (k_log s)" and "l_n (k_log s) < 30" and "l_n (k_log s) < l_size (k_log s) - 1"
    and "1 \<le> l_outstanding (k_log s)" and "bv_refs (cache_view p s) n + 1 < 2 ^ 32"
  shows "\<exists>t. log_write b s = Ok () t \<and> cache_ok p t \<and> cache_bound t b n \<and>
    cache_view p t = (cache_view p s)\<lparr>
      bv_refs := (bv_refs (cache_view p s))(n := bv_refs (cache_view p s) n + (if n \<in> set (logged_blocks (k_log s)) then 0 else 1)),
      bv_rest := (with_block n (k_log s), snd (bv_rest (cache_view p s)))\<rparr>"
proof -
  have q: "quiet p s"
    using assms(1) by (simp add: cache_okD)
  have no: "b_blockno (k_bufs s b) = n"
    using boundD [OF assms(1,2)] by (simp add: caches_def)
  show ?thesis
  proof (cases "n \<in> set (logged_blocks (k_log s))")
    case True
    moreover have "(k_log s, snd (bv_rest (cache_view p s))) = bv_rest (cache_view p s)"
      by (simp add: cache_view_def off_cache_def)
    ultimately show ?thesis
      using assms by (intro exI [of _ s]) (simp add: log_write_apply [OF q] no with_block_def)
  next
    case False
    let ?r = "recount b (b_refcnt (k_bufs s b) + 1) s"
    have pin: "cache_ok p ?r" "cache_view p ?r = seen_pin n (cache_view p s)" "cache_bound ?r b n"
      using cache_pin [OF assms(1,2,7)] assms(2) by (simp_all add: bpin_quiet [OF q])
    have "log_write b s = Ok () (joined b s)"
      using assms(3-6) False by (simp add: log_write_apply [OF q] no)
    moreover have "cache_bound (joined b s) b n"
      using pin(3) by (simp add: joined_def cache_bound_def upd_log_def)
    moreover have "k_log ?r = k_log s"
      by (simp add: recount_def upd_buf_def)
    ultimately show ?thesis
      using pin False
      by (intro exI [of _ "joined b s"]) (simp add: joined_def no cache_view_upd_log seen_pin_def with_block_def)
  qed
qed

text \<open>A block read and locked, as it is between \<open>bread\<close> and \<open>brelse\<close>.\<close>

definition opened :: "nat \<Rightarrow> kstate \<Rightarrow> u32 \<Rightarrow> nat \<Rightarrow> kstate \<Rightarrow> bool" where
  "opened p s n b s1 \<longleftrightarrow> bread 1 n s = Ok b s1 \<and> cache_ok p s1 \<and>
     cache_view p s1 = seen_rd n (cache_view p s) \<and> cache_bound s1 b n"

lemma can_logD:
  assumes "can_log p s n"
  shows "cache_ok p s" and "log_ready p s" and "\<not> bv_taken (cache_view p s) m" and "0 \<le> l_n (k_log s)"
    and "bv_refs (cache_view p s) n + 2 < 2 ^ 32" and "in_use (cache_view p s) < NBUF"
    and "n \<in> set (logged_blocks (k_log s)) \<Longrightarrow> 0 < bv_refs (cache_view p s) n"
  using assms by (auto simp: can_log_def log_ready_def Let_def in_logged_blocks) (simp add: cache_view_def)

text \<open>Enough to read a block: no buffer is held, a buffer can be had, and its count does not wrap.\<close>

definition can_read :: "nat \<Rightarrow> kstate \<Rightarrow> u32 \<Rightarrow> bool" where
  "can_read p s n \<longleftrightarrow> cache_ok p s \<and> (\<forall>m. \<not> cache_taken s m) \<and> in_use (cache_view p s) < NBUF \<and>
     cache_refs s n + 1 < 2 ^ 32"

lemma can_readD:
  assumes "can_read p s n"
  shows "cache_ok p s" and "\<not> bv_taken (cache_view p s) m" and "bv_refs (cache_view p s) n + 1 < 2 ^ 32"
    and "in_use (cache_view p s) < NBUF"
  using assms by (simp_all add: can_read_def) (simp_all add: cache_view_def)

lemma can_read_log: "can_log p s n \<Longrightarrow> can_read p s n"
  by (auto simp: can_log_def log_ready_def Let_def can_read_def cache_view_def)

lemma opened_exists:
  assumes "can_read p s n"
  obtains b s1 where "opened p s n b s1" and "b_data (k_bufs s1 b) = cache_content s n"
proof -
  obtain b s1 where o: "opened p s n b s1"
    using cache_rd [of p s n] can_readD [OF assms] by (fastforce simp: opened_def)
  then have c: "cache_ok p s1" "cache_bound s1 b n" and v: "cache_view p s1 = seen_rd n (cache_view p s)"
    by (simp_all add: opened_def)
  have "b_data (k_bufs s1 b) = bv_content (cache_view p s1) n"
    by (rule boundD(7) [OF c, symmetric])
  then have "b_data (k_bufs s1 b) = cache_content s n"
    unfolding v by (simp add: seen_rd_def) (simp add: cache_view_def)
  with o show thesis by (rule that)
qed

lemma close_update:
  assumes "can_log p s n" and "opened p s n b s1"
  shows "\<exists>t. block [modify (upd_buf b (\<lambda>bf. bf\<lparr>b_data := f (b_data bf)\<rparr>)), log_write b, brelse b] s1 = Ok () t \<and>
    cache_ok p t \<and> cache_view p t = seen_logged n f (cache_view p s)"
proof -
  let ?v = "cache_view p s"
  have 1: "cache_ok p s1" "cache_view p s1 = seen_rd n ?v" "cache_bound s1 b n"
    using assms(2) by (simp_all add: opened_def)
  have log1: "k_log s1 = k_log s"
    using view_logD [OF 1(2)] by (simp add: seen_rd_def view_log_def) (simp add: cache_view_def off_cache_def)
  have dat: "b_data (k_bufs s1 b) = bv_content ?v n"
    using boundD(7) [OF 1(1,3)] 1(2) by (simp add: seen_rd_def)
  define s2 where "s2 = upd_buf b (\<lambda>bf. bf\<lparr>b_data := f (b_data bf)\<rparr>) s1"
  have "s2 = upd_buf b (\<lambda>bf. bf\<lparr>b_data := f (bv_content ?v n)\<rparr>) s1"
    by (simp add: s2_def upd_buf_def dat)
  then have 2: "cache_ok p s2" "cache_view p s2 = seen_put n (f (bv_content ?v n)) (seen_rd n ?v)" "cache_bound s2 b n"
    using cache_put [OF 1(1,3), of "f (bv_content ?v n)"] 1(2,3) by auto
  have log2: "k_log s2 = k_log s"
    by (simp add: s2_def upd_buf_def log1)
  have room: "0 \<le> l_n (k_log s2)" "l_n (k_log s2) < 30" "l_n (k_log s2) < l_size (k_log s2) - 1" "1 \<le> l_outstanding (k_log s2)"
    "bv_refs (cache_view p s2) n + 1 < 2 ^ 32"
    using assms(1) can_logD(4,5) [OF assms(1)] by (simp_all add: log2 2(2) seen_defs can_log_def Let_def)
  obtain s3 where 3: "log_write b s2 = Ok () s3" "cache_ok p s3" "cache_bound s3 b n"
      "cache_view p s3 = (cache_view p s2)\<lparr>
        bv_refs := (bv_refs (cache_view p s2))(n := bv_refs (cache_view p s2) n + (if n \<in> set (logged_blocks (k_log s)) then 0 else 1)),
        bv_rest := (with_block n (k_log s), snd (bv_rest (cache_view p s2)))\<rparr>"
    using log_step [OF 2(1,3) room] unfolding log2 by blast
  have "bv_mine (cache_view p s3) n" "1 < bv_refs (cache_view p s3) n"
    using can_logD(7) [OF assms(1)] by (simp_all add: 3(4) 2(2) seen_defs)
  then obtain t where t: "brelse b s3 = Ok () t" "cache_ok p t" "cache_view p t = seen_rel n (cache_view p s3)"
    using cache_rel [OF 3(2,3)] by blast
  have "cache_view p t = seen_logged n f ?v"
    unfolding t(3) 3(4) 2(2) using can_logD(3) [OF assms(1)] cache_mine_taken
    by (intro bview.equality) (auto simp: seen_defs seen_logged_def fun_eq_iff)
  then show ?thesis
    using 3(1) t(1,2) by (intro exI [of _ t]) (simp add: run_simps s2_def)
qed

lemma close_plain:
  assumes "can_read p s n" and "opened p s n b s1"
  shows "\<exists>t. brelse b s1 = Ok () t \<and> cache_ok p t \<and> cache_view p t = cache_view p s"
proof -
  let ?v = "cache_view p s"
  have 1: "cache_ok p s1" "cache_view p s1 = seen_rd n ?v" "cache_bound s1 b n"
    using assms(2) by (simp_all add: opened_def)
  have "1 < bv_refs (cache_view p s1) n \<or> bv_content (cache_view p s1) n = bv_disk (cache_view p s1) n"
    using cache_clean [OF can_readD(1) [OF assms(1)], of n] by (auto simp: 1(2) seen_rd_def)
  moreover have "bv_mine (cache_view p s1) n"
    by (simp add: 1(2) seen_rd_def)
  ultimately obtain t where t: "brelse b s1 = Ok () t" "cache_ok p t" "cache_view p t = seen_rel n (cache_view p s1)"
    using cache_rel [OF 1(1,3)] by blast
  have "seen_rel n (seen_rd n ?v) = ?v"
    using can_readD(2) [OF assms(1)] cache_mine_taken
    by (intro bview.equality) (auto simp: seen_defs fun_eq_iff)
  then show ?thesis
    using t 1(2) by auto
qed

lemma logged_with_block: "0 \<le> l_n lg \<Longrightarrow> set (logged_blocks (with_block n lg)) = insert n (set (logged_blocks lg))"
  by (auto simp: with_block_def logged_blocks_def nat_add_distrib)

text \<open>The transaction can go on, or commit, after the change.\<close>

lemma after_logged:
  assumes "cache_view p t = seen_logged n f (cache_view p s)"
  shows "k_log t = with_block n (k_log s)" and "k_disk t = k_disk s" and "snd (off_cache t) = snd (off_cache s)"
    and "cache_content t = (cache_content s)(n := f (cache_content s n))"
    and "cache_refs t = (cache_refs s)(n := cache_refs s n + (if n \<in> set (logged_blocks (k_log s)) then 0 else 1))"
    and "cache_taken t = cache_taken s"
  using arg_cong [OF assms, of bv_content] arg_cong [OF assms, of bv_refs] arg_cong [OF assms, of bv_taken]
    arg_cong [OF assms, of bv_disk] arg_cong [OF assms, of bv_rest] view_logD [OF assms]
  by (simp_all add: seen_logged_def view_log_def cache_view_def off_cache_def)

lemma after_logged2:
  assumes "cache_view p t = seen_logged m g (seen_logged n f (cache_view p s))"
  shows "cache_content t = (cache_content s)(n := f (cache_content s n),
      m := g (((cache_content s)(n := f (cache_content s n))) m))"
    and "snd (off_cache t) = snd (off_cache s)" and "k_disk t = k_disk s"
  using arg_cong [OF assms, of bv_content] arg_cong [OF assms, of bv_disk] arg_cong [OF assms, of bv_rest]
  by (simp_all add: seen_logged_def) (simp_all add: cache_view_def)

lemma in_use_add: "in_use (v\<lparr>bv_refs := (bv_refs v)(n := k)\<rparr>) \<le> in_use v + 1"
proof -
  have "{m. 0 < ((bv_refs v)(n := k)) m} \<subseteq> insert n {m. 0 < bv_refs v m}"
    by auto
  then have "card {m. 0 < ((bv_refs v)(n := k)) m} \<le> card (insert n {m. 0 < bv_refs v m})"
    by (intro card_mono) simp_all
  also have "\<dots> \<le> card {m. 0 < bv_refs v m} + 1"
    by (simp add: card_insert_if)
  finally show ?thesis
    by (simp add: in_use_def)
qed

lemma log_ready_after:
  assumes "can_log p s n" and "cache_ok p t" and "cache_view p t = seen_logged n f (cache_view p s)"
  shows "log_ready p t"
proof -
  note a = after_logged [OF assms(3)]
  have r: "log_ready p s" and c: "l_n (k_log s) + 1 < 30" "in_use (cache_view p s) + 1 < NBUF" "cache_refs s n + 2 < 2 ^ 32"
      "n \<noteq> l_start (k_log s)" "\<forall>i\<le>nat (l_n (k_log s)). n \<noteq> slot (l_start (k_log s)) i"
      "cache_refs s (slot (l_start (k_log s)) (nat (l_n (k_log s)))) = 0"
    using assms(1) by (simp_all add: can_log_def Let_def)
  have "in_use (cache_view p t) = in_use ((cache_view p s)\<lparr>bv_refs := bv_refs (cache_view p t)\<rparr>)"
    by (simp add: in_use_def)
  also have "\<dots> \<le> in_use (cache_view p s) + 1"
    using in_use_add [of "cache_view p s" n "Suc (bv_refs (cache_view p s) n)"]
    by (simp add: assms(3) seen_logged_def)
  finally have u: "in_use (cache_view p t) < NBUF"
    using c(2) by linarith
  have v: "bv_refs (cache_view p t) = cache_refs t" "bv_taken (cache_view p t) = cache_taken t"
      "bv_refs (cache_view p s) = cache_refs s" "bv_taken (cache_view p s) = cache_taken s"
    by (simp_all add: cache_view_def)
  note rs = r [unfolded log_ready_def Let_def v]
  show ?thesis
  proof (cases "n \<in> set (logged_blocks (k_log s))")
    case True
    then show ?thesis
      using rs u assms(2) a unfolding log_ready_def Let_def v by (simp add: with_block_def)
  next
    case False
    then have nl: "\<And>i. i < nat (l_n (k_log s)) \<Longrightarrow> l_block (k_log s) i \<noteq> n"
      using in_logged_blocks by blast
    have k: "nat (l_n (k_log s) + 1) = Suc (nat (l_n (k_log s)))"
      using can_logD(4) [OF assms(1)] by (simp add: nat_add_distrib)
    have sl: "slot (l_start (k_log s)) i \<noteq> n" if "i \<le> nat (l_n (k_log s))" for i
      using c(5) that by blast
    show ?thesis
      using rs u assms(2) a(5,6) c(1-4,6) sl [OF less_imp_le] sl [OF order_refl] nl False
      unfolding log_ready_def Let_def v a(1) with_block_def
      by (auto simp: k less_Suc_eq)
  qed
qed

section \<open>Inodes and the bitmap on disk\<close>

lemma quiet_of_can_log: "can_log p s n \<Longrightarrow> quiet p s"
  using can_logD(1) cache_okD(1) by blast

lemma put_addrs_upto_out:
  "x < base + 12 \<or> base + 12 + 4 * n \<le> x \<Longrightarrow> foldl (\<lambda>d i. st32 d (base + 12 + 4 * i) (a i)) d [0..<n] x = d x"
  by (induction n) (auto simp: st32_def)

lemma put_addrs_upto_ld32:
  "j < n \<Longrightarrow> ld32 (foldl (\<lambda>d i. st32 d (base + 12 + 4 * i) (a i)) d [0..<n]) (base + 12 + 4 * j) = a j"
  by (induction n) (auto simp: less_Suc_eq)

lemma put_addrs_out: "x < base + 12 \<or> base + 64 \<le> x \<Longrightarrow> put_addrs d base a x = d x"
  unfolding put_addrs_def by (rule put_addrs_upto_out) auto

lemma put_dinode_out: "x < base \<or> base + 64 \<le> x \<Longrightarrow> put_dinode base ip d x = d x"
  by (auto simp: put_dinode_def put_addrs_out st16_def st32_def)

lemma ld_cong:
  "(\<And>i. off \<le> i \<Longrightarrow> i < off + 2 \<Longrightarrow> d i = e i) \<Longrightarrow> ld16 d off = ld16 e off"
  "(\<And>i. off \<le> i \<Longrightarrow> i < off + 4 \<Longrightarrow> d i = e i) \<Longrightarrow> ld32 d off = ld32 e off"
  unfolding ld16_def ld32_def by (auto intro!: arg_cong [where f = of_nat] le_nat_cong simp: at_def)

lemma put_addrs_ld:
  "off + 2 \<le> base + 12 \<Longrightarrow> ld16 (put_addrs d base a) off = ld16 d off"
  "off + 4 \<le> base + 12 \<Longrightarrow> ld32 (put_addrs d base a) off = ld32 d off"
  by (rule ld_cong; simp add: put_addrs_out)+

text \<open>The fields of an inode that are kept on disk, as \<open>ip\<close> has them, over the rest of \<open>x\<close>.\<close>

definition persisted :: "inode \<Rightarrow> inode \<Rightarrow> inode" where
  "persisted ip x = x\<lparr>i_type := i_type ip, i_major := i_major ip, i_minor := i_minor ip, i_nlink := i_nlink ip,
     i_size := i_size ip, i_addrs := (\<lambda>i. if i < NDIRECT + 1 then i_addrs ip i else i_addrs x i)\<rparr>"

lemma get_put_dinode: "get_dinode base (put_dinode base ip d) x = persisted ip x"
proof -
  have "ld32 (put_addrs e base a) (base + 12 + 4 * i) = a i" if "i < NDIRECT + 1" for e a i
    unfolding put_addrs_def using that by (rule put_addrs_upto_ld32)
  then show ?thesis
    by (simp add: get_dinode_def put_dinode_def persisted_def put_addrs_ld cong: if_cong)
qed

lemma get_dinode_other:
  assumes "base + 64 \<le> base' \<or> base' + 64 \<le> base"
  shows "get_dinode base' (put_dinode base ip d) x = get_dinode base' d x"
proof -
  have "ld16 (put_dinode base ip d) k = ld16 d k" if "base' \<le> k" "k + 2 \<le> base' + 64" for k
    using assms that by (intro ld_cong put_dinode_out) auto
  moreover have "ld32 (put_dinode base ip d) k = ld32 d k" if "base' \<le> k" "k + 4 \<le> base' + 64" for k
    using assms that by (intro ld_cong put_dinode_out) auto
  ultimately show ?thesis
    by (auto simp: get_dinode_def fun_eq_iff)
qed

text \<open>Two inodes of the same block have slots that do not overlap.\<close>

lemma dinode_apart:
  assumes "IBLOCK i sb = IBLOCK j sb" and "i \<noteq> j"
  shows "dinode_off j + 64 \<le> dinode_off i \<or> dinode_off i + 64 \<le> dinode_off j"
proof -
  have "unat (i div IPB) = unat (j div IPB)"
    using assms(1) by (simp add: IBLOCK_def)
  then have "unat i div 16 = unat j div 16"
    by (simp add: unat_div)
  moreover have "unat i \<noteq> unat j"
    using assms(2) by (simp add: word_unat_eq_iff)
  ultimately have "unat i mod 16 \<noteq> unat j mod 16"
    by (metis div_mult_mod_eq)
  then show ?thesis
    by (auto simp: dinode_off_def unat_mod)
qed

text \<open>Storing one inode changes that one only.\<close>

lemma dinode_updated:
  assumes "c' (IBLOCK inum sb) = (c(IBLOCK (i_inum i) sb := put_dinode (dinode_off (i_inum i)) i (c (IBLOCK (i_inum i) sb)))) (IBLOCK inum sb)"
  shows "get_dinode (dinode_off inum) (c' (IBLOCK inum sb)) x =
    (if inum = i_inum i then persisted i x else get_dinode (dinode_off inum) (c (IBLOCK inum sb)) x)"
proof (cases "inum = i_inum i \<or> IBLOCK inum sb \<noteq> IBLOCK (i_inum i) sb")
  case True
  then show ?thesis
    by (auto simp: assms get_put_dinode)
next
  case False
  then have "get_dinode (dinode_off inum) (put_dinode (dinode_off (i_inum i)) i d) x = get_dinode (dinode_off inum) d x" for d
    by (intro get_dinode_other dinode_apart) auto
  with False show ?thesis
    using assms by simp
qed

lemma iupdate_runs:
  assumes "i_dev (k_inodes s ip) = 1" and "can_log p s (IBLOCK (i_inum (k_inodes s ip)) (k_sb s))"
  shows "\<exists>t. iupdate ip s = Ok () t \<and> cache_ok p t \<and>
    cache_view p t = seen_logged (IBLOCK (i_inum (k_inodes s ip)) (k_sb s))
      (put_dinode (dinode_off (i_inum (k_inodes s ip))) (k_inodes s ip)) (cache_view p s)"
proof -
  let ?n = "IBLOCK (i_inum (k_inodes s ip)) (k_sb s)"
  let ?f = "put_dinode (dinode_off (i_inum (k_inodes s ip))) (k_inodes s ip)"
  obtain b s1 where o: "opened p s ?n b s1"
    using opened_exists [OF can_read_log [OF assms(2)]] .
  then have "bv_rest (cache_view p s1) = bv_rest (cache_view p s)"
    by (simp add: opened_def seen_rd_def)
  then have i: "k_inodes s1 = k_inodes s"
    by (simp add: cache_view_def off_cache_def)
  obtain t where t: "block [modify (upd_buf b (\<lambda>bf. bf\<lparr>b_data := ?f (b_data bf)\<rparr>)), log_write b, brelse b] s1 = Ok () t"
      "cache_ok p t" "cache_view p t = seen_logged ?n ?f (cache_view p s)"
    using close_update [OF assms(2) o] by blast
  have "bread 1 ?n s = Ok b s1"
    using o by (simp add: opened_def)
  then have "iupdate ip s = Ok () t"
    using t(1) by (simp add: iupdate_def run_simps assms(1) i)
  with t(2,3) show ?thesis by blast
qed

lemma bmap_bit_set: "i \<noteq> j \<Longrightarrow> bmap_bit (set_bmap_bit i v d) j = bmap_bit d j" "bmap_bit (set_bmap_bit i v d) i = v"
proof -
  show "bmap_bit (set_bmap_bit i v d) i = v"
    by (simp add: bmap_bit_def set_bmap_bit_def bit_simps)
  show "bmap_bit (set_bmap_bit i v d) j = bmap_bit d j" if "i \<noteq> j"
  proof (cases "i div 8 = j div 8")
    case True
    with that have "i mod 8 \<noteq> j mod 8"
      by (metis mult_div_mod_eq)
    with True show ?thesis
      by (auto simp: bmap_bit_def set_bmap_bit_def bit_simps)
  qed (simp add: bmap_bit_def set_bmap_bit_def)
qed

lemma bmap_bit_set_if: "bmap_bit (set_bmap_bit i v d) j = (if j = i then v else bmap_bit d j)"
  using bmap_bit_set by auto

text \<open>Room to log a change of each of the blocks \<open>ns\<close>.\<close>

definition room :: "nat \<Rightarrow> kstate \<Rightarrow> u32 set \<Rightarrow> bool" where
  "room p s ns \<longleftrightarrow> (let lg = k_log s; k = nat (l_n lg) + card ns in
     log_ready p s \<and> 1 \<le> l_outstanding lg \<and> k < 30 \<and> int k < l_size lg \<and>
     in_use (cache_view p s) + card ns < NBUF \<and> (\<forall>m. cache_refs s m + card ns + 1 < 2 ^ 32) \<and>
     (\<forall>i<k. cache_refs s (slot (l_start lg) i) = 0) \<and>
     (\<forall>n\<in>ns. n \<noteq> l_start lg \<and> (\<forall>i<k. n \<noteq> slot (l_start lg) i)))"

lemma card_pos: "n \<in> ns \<Longrightarrow> 0 < card ns" for ns :: "u32 set"
  by (auto simp: card_gt_0_iff)

lemma roomD:
  assumes "room p s ns"
  shows "log_ready p s" and "1 \<le> l_outstanding (k_log s)" and "nat (l_n (k_log s)) + card ns < 30"
    and "int (nat (l_n (k_log s)) + card ns) < l_size (k_log s)" and "in_use (cache_view p s) + card ns < NBUF"
    and "cache_refs s m + card ns + 1 < 2 ^ 32"
    and "i < nat (l_n (k_log s)) + card ns \<Longrightarrow> cache_refs s (slot (l_start (k_log s)) i) = 0"
    and "n \<in> ns \<Longrightarrow> n \<noteq> l_start (k_log s)"
    and "n \<in> ns \<Longrightarrow> i < nat (l_n (k_log s)) + card ns \<Longrightarrow> n \<noteq> slot (l_start (k_log s)) i"
  using assms unfolding room_def Let_def by blast+

lemma ready_basics:
  assumes "log_ready p s"
  shows "cache_ok p s" and "0 \<le> l_n (k_log s)" and "\<not> cache_taken s m"
  using assms by (simp_all add: log_ready_def Let_def) (simp add: cache_view_def)

lemma room_read: "room p s ns \<Longrightarrow> can_read p s n"
  using roomD(1,5) [of p s ns] roomD(6) [of p s ns n] ready_basics [of p s] by (simp add: can_read_def)

lemma room_log:
  assumes "room p s ns" and "n \<in> ns"
  shows "can_log p s n"
proof -
  note d = roomD [OF assms(1)]
  have c: "1 \<le> card ns"
    using card_pos [OF assms(2)] by simp
  have k: "int (nat (l_n (k_log s))) = l_n (k_log s)"
    using ready_basics(2) [OF d(1)] by simp
  have lim: "i < nat (l_n (k_log s)) + card ns" if "i \<le> nat (l_n (k_log s))" for i
    using that c by linarith
  show ?thesis
    unfolding can_log_def Let_def
  proof (intro conjI allI impI)
    show "l_n (k_log s) + 1 < 30" "l_n (k_log s) + 1 < l_size (k_log s)"
      using d(3,4) c k by linarith+
    show "in_use (cache_view p s) + 1 < NBUF" "cache_refs s n + 2 < 2 ^ 32"
      using d(5) d(6) [of n] c by linarith+
  qed (use d(1,2) d(7) [OF lim] d(8,9) [OF assms(2)] lim in auto)
qed

lemma room_after:
  assumes "room p s ns" and "n \<in> ns" and "cache_ok p t" and "cache_view p t = seen_logged n f (cache_view p s)"
  shows "room p t (ns - {n})"
proof -
  note a = after_logged [OF assms(4)] and d = roomD [OF assms(1)]
  have c: "card ns = card (ns - {n}) + 1"
    using card.remove [of ns n] assms(2) by simp
  have lg: "l_start (k_log t) = l_start (k_log s)" "l_size (k_log t) = l_size (k_log s)"
      "l_outstanding (k_log t) = l_outstanding (k_log s)" "nat (l_n (k_log t)) \<le> nat (l_n (k_log s)) + 1"
    by (simp_all add: a(1) with_block_def nat_add_distrib ready_basics(2) [OF d(1)])
  have "in_use (cache_view p t) = in_use ((cache_view p s)\<lparr>bv_refs := bv_refs (cache_view p t)\<rparr>)"
    by (simp add: in_use_def)
  also have "\<dots> \<le> in_use (cache_view p s) + 1"
    using in_use_add [of "cache_view p s" n "Suc (bv_refs (cache_view p s) n)"]
    by (simp add: assms(4) seen_logged_def)
  finally have u: "in_use (cache_view p t) + card (ns - {n}) < NBUF"
    using d(5) c by linarith
  have r: "cache_refs t m + card (ns - {n}) + 1 < 2 ^ 32" for m
    using d(6) [of m] c by (auto simp: a(5))
  have lim: "i < nat (l_n (k_log s)) + card ns" if "i < nat (l_n (k_log t)) + card (ns - {n})" for i
    using that lg(4) c by linarith
  show ?thesis
    unfolding room_def Let_def lg
  proof (intro conjI ballI allI impI)
    show "log_ready p t"
      using log_ready_after [OF room_log [OF assms(1,2)] assms(3,4)] .
    show "int (nat (l_n (k_log t)) + card (ns - {n})) < l_size (k_log s)" "nat (l_n (k_log t)) + card (ns - {n}) < 30"
      using d(3,4) lg(4) c by linarith+
    show "cache_refs t (slot (l_start (k_log s)) i) = 0" if "i < nat (l_n (k_log t)) + card (ns - {n})" for i
      using d(7) [OF lim [OF that]] d(9) [OF assms(2) lim [OF that]] by (simp add: a(5))
    show "m \<noteq> l_start (k_log s)" if "m \<in> ns - {n}" for m
      using d(8) that by blast
    show "m \<noteq> slot (l_start (k_log s)) i" if "m \<in> ns - {n}" "i < nat (l_n (k_log t)) + card (ns - {n})" for m i
      using d(9) [OF _ lim [OF that(2)]] that(1) by blast
  qed (rule d(2) u r)+
qed

lemma logged_update_runs:
  assumes "can_log p s n"
  shows "\<exists>t. logged_update n f s = Ok () t \<and> cache_ok p t \<and> cache_view p t = seen_logged n f (cache_view p s)"
proof -
  obtain b s1 where o: "opened p s n b s1"
    using opened_exists [OF can_read_log [OF assms]] .
  then have "bread 1 n s = Ok b s1"
    by (simp add: opened_def)
  with close_update [OF assms o, of f] show ?thesis
    by (auto simp: logged_update_def run_simps)
qed

lemma bzero_runs:
  "can_log p s n \<Longrightarrow> \<exists>t. bzero 1 n s = Ok () t \<and> cache_ok p t \<and>
    cache_view p t = seen_logged n (\<lambda>d. overwrite d 0 BSIZE (\<lambda>_. 0)) (cache_view p s)"
  using logged_update_runs [of p s n "\<lambda>d. overwrite d 0 BSIZE (\<lambda>_. 0)"] by (simp add: bzero_def logged_update_def)

text \<open>The disk charge of a container is not part of the file system's state.\<close>

definition dcharge :: "nat \<Rightarrow> int \<Rightarrow> kstate \<Rightarrow> kstate" where
  "dcharge c k = upd_cont c (\<lambda>ct. ct\<lparr>ct_diskused := ct_diskused ct + k\<rparr>)"

lemma dcharge_fields [simp]:
  "k_log (dcharge c k s) = k_log s" "k_sb (dcharge c k s) = k_sb s" "k_disk (dcharge c k s) = k_disk s"
  "k_procs (dcharge c k s) = k_procs s" "k_inodes (dcharge c k s) = k_inodes s"
  "ct_diskused (k_conts (dcharge c k s) c') = ct_diskused (k_conts s c') + (if c' = c then k else 0)"
  by (simp_all add: dcharge_def upd_cont_def)

lemma cache_charge [simp]:
  "cache_ok p (dcharge c k s) = cache_ok p s"
  "cache_content (dcharge c k s) = cache_content s" "cache_refs (dcharge c k s) = cache_refs s"
  "cache_taken (dcharge c k s) = cache_taken s" "cache_mine p (dcharge c k s) = cache_mine p s"
  by (simp_all add: dcharge_def cache_ok_def upd_cont_def buf_ok_def quiet_def calm_def running_def mycpu_def lock_free_def)
    (rule ext; simp add: cache_content_def cache_refs_def cache_taken_def cache_mine_def split: option.split)+

lemma view_charge [simp]:
  "bv_refs (cache_view p (dcharge c k s)) = bv_refs (cache_view p s)"
  "bv_taken (cache_view p (dcharge c k s)) = bv_taken (cache_view p s)"
  "in_use (cache_view p (dcharge c k s)) = in_use (cache_view p s)"
  by (simp_all add: cache_view_def in_use_def)

lemma room_charge [simp]: "log_ready p (dcharge c k s) = log_ready p s" "room p (dcharge c k s) ns = room p s ns"
  by (simp_all add: room_def log_ready_def Let_def)

lemma mycont_quiet: "quiet p s \<Longrightarrow> k_started s \<Longrightarrow> p_container (k_procs s p) = Some c \<Longrightarrow> mycont s = Ok (Ptr c) s"
  by (simp add: mycont_def run_simps myproc_quiet)

lemma off_cacheD:
  assumes "snd (off_cache t) = snd (off_cache s)"
  shows "k_sb t = k_sb s" "k_inodes t = k_inodes s" "k_conts t = k_conts s" "k_files t = k_files s"
  using assms by (simp_all add: off_cache_def)

text \<open>Block \<open>b\<close> is marked as used in the bitmap, as the cache has it.\<close>

definition marked :: "kstate \<Rightarrow> nat \<Rightarrow> bool" where
  "marked s b \<longleftrightarrow> bmap_bit (cache_content s (BBLOCK (of_nat b) (k_sb s))) (b mod 8192)"

lemma bmap_pos: "b < 2 ^ 32 \<Longrightarrow> unat (of_nat b mod BPB) = b mod 8192"
  by (simp add: unat_mod unat_of_nat)

lemma bfree_runs:
  assumes "k_started s" and "p_container (k_procs s p) = Some c" and "room p s ns" and "BBLOCK (of_nat b) (k_sb s) \<in> ns" and "b < 2 ^ 32"
  shows "if marked s b
    then \<exists>t. bfree 1 (of_nat b) s = Ok () t \<and> cache_ok p t \<and>
      cache_view p t = seen_logged (BBLOCK (of_nat b) (k_sb s)) (set_bmap_bit (b mod 8192) False) (cache_view p (dcharge c (- 1) s))
    else bfree 1 (of_nat b) s = Panic ''freeing free block''"
proof -
  let ?n = "BBLOCK (of_nat b) (k_sb s)" and ?s = "dcharge c (- 1) s"
  have r: "room p ?s ns"
    using assms(3) by simp
  have q: "quiet p s"
    using ready_basics(1) [OF roomD(1) [OF assms(3)]] cache_okD(1) by blast
  obtain bp s1 where o: "opened p ?s ?n bp s1" and d: "b_data (k_bufs s1 bp) = cache_content ?s ?n"
    using opened_exists [OF room_read [OF r]] .
  have rd: "bread 1 ?n ?s = Ok bp s1"
    using o by (simp add: opened_def)
  have ch: "upd_cont c (\<lambda>ct. ct\<lparr>ct_diskused := ct_diskused ct - 1\<rparr>) s = ?s"
    by (simp add: dcharge_def)
  have run: "bfree 1 (of_nat b) s = (if marked s b
      then block [modify (upd_buf bp (\<lambda>bf. bf\<lparr>b_data := set_bmap_bit (b mod 8192) False (b_data bf)\<rparr>)), log_write bp, brelse bp] s1
      else Panic ''freeing free block'')"
    using rd d mycont_quiet [OF q assms(1,2)]
    by (simp add: bfree_def run_simps Let_def bmap_pos [OF assms(5)] marked_def ch)
  show ?thesis
    using close_update [OF room_log [OF r assms(4)] o, of "set_bmap_bit (b mod 8192) False"] by (simp add: run)
qed

section \<open>The block allocator\<close>

lemma seq_then: "seq m1 (seq m2 (return ())) s = Ok () t \<Longrightarrow> seq m1 (seq m2 m) s = m t"
  by (auto simp: seq_def bind_def return_def split: outcome.splits)

lemma balloc_scan_None:
  "balloc_scan b sz d = None \<longleftrightarrow> (\<forall>i<8192. unat b + i < unat sz \<longrightarrow> bmap_bit d i)"
  by (auto simp: balloc_scan_def find_None_iff)

lemma find_filter: "find P (filter Q xs) = find (\<lambda>x. Q x \<and> P x) xs"
  by (induction xs) auto

lemma balloc_scan_Some:
  assumes "i < 8192" and "unat b + i < unat sz" and "\<not> bmap_bit d i" and "\<And>j. j < i \<Longrightarrow> bmap_bit d j"
  shows "balloc_scan b sz d = Some i"
  unfolding balloc_scan_def find_filter by (rule find_upt_least) (use assms in auto)

lemma charge_runs:
  assumes "quiet p s" and "p_container (k_procs s p) = Some c" and "c = 0 \<or> ct_diskused (k_conts s c) < ct_disklimit (k_conts s c)"
  shows "balloc_charge s = Ok () (dcharge c 1 s)"
  using assms by (auto simp: balloc_charge_def run_simps myproc_quiet isroot_def dcharge_def)

lemma BBLOCK_of_nat: "n < 2 ^ 32 \<Longrightarrow> BBLOCK (of_nat n) sb = of_nat (n div 8192) + sb_bmapstart sb"
proof -
  assume "n < 2 ^ 32"
  then have "(of_nat n :: u32) div BPB = of_nat (n div 8192)"
    using order_le_less_trans [OF div_le_dividend [of n 8192]] by (simp add: word_unat_eq_iff unat_div unat_of_nat)
  then show ?thesis
    by (simp add: BBLOCK_def)
qed

text \<open>A turn of the loop of \<open>balloc\<close> over a bitmap block, full or not.\<close>

lemma balloc_turn_full:
  assumes "room p s ns" and "b < sb_size (k_sb s)" and "balloc_scan b (sb_size (k_sb s)) (cache_content s (BBLOCK b (k_sb s))) = None"
  shows "\<exists>t. balloc_turn 1 b s = Ok (Inl (b + BPB)) t \<and> cache_ok p t \<and> cache_view p t = cache_view p s"
proof -
  obtain bp s1 where o: "opened p s (BBLOCK b (k_sb s)) bp s1" and d: "b_data (k_bufs s1 bp) = cache_content s (BBLOCK b (k_sb s))"
    using opened_exists [OF room_read [OF assms(1)]] .
  obtain t where t: "brelse bp s1 = Ok () t" "cache_ok p t" "cache_view p t = cache_view p s"
    using close_plain [OF room_read [OF assms(1)] o] by blast
  have "bread 1 (BBLOCK b (k_sb s)) s = Ok bp s1"
    using o by (simp add: opened_def)
  then have "balloc_turn 1 b s = Ok (Inl (b + BPB)) t"
    using t(1) d assms(2,3) by (simp add: balloc_turn_def run_simps)
  with t(2,3) show ?thesis by blast
qed

lemma balloc_turn_found:
  fixes b :: u32 and i :: nat
  defines "n \<equiv> b + of_nat i"
  assumes "room p s {BBLOCK b (k_sb s), n}" and "BBLOCK b (k_sb s) \<noteq> n" and "b < sb_size (k_sb s)"
    and "balloc_scan b (sb_size (k_sb s)) (cache_content s (BBLOCK b (k_sb s))) = Some i"
  shows "\<exists>t. balloc_turn 1 b s = Ok (Inr n) t \<and> log_ready p t \<and>
    cache_view p t = seen_logged n (\<lambda>d. overwrite d 0 BSIZE (\<lambda>_. 0))
      (seen_logged (BBLOCK b (k_sb s)) (set_bmap_bit i True) (cache_view p s))"
proof -
  let ?m = "BBLOCK b (k_sb s)"
  obtain bp s1 where o: "opened p s ?m bp s1" and d: "b_data (k_bufs s1 bp) = cache_content s ?m"
    using opened_exists [OF room_read [OF assms(2)]] .
  have m: "?m \<in> {?m, n}"
    by simp
  obtain u where u: "block [modify (upd_buf bp (\<lambda>bf. bf\<lparr>b_data := set_bmap_bit i True (b_data bf)\<rparr>)), log_write bp, brelse bp] s1 = Ok () u"
      "cache_ok p u" "cache_view p u = seen_logged ?m (set_bmap_bit i True) (cache_view p s)"
    using close_update [OF room_log [OF assms(2) m] o] by blast
  have "{?m, n} - {?m} = {n}"
    using assms(3) by auto
  then have r: "can_log p u n"
    using room_log [of p u "{n}" n] room_after [OF assms(2) m u(2,3)] by simp
  obtain t where t: "bzero 1 n u = Ok () t" "cache_ok p t"
      "cache_view p t = seen_logged n (\<lambda>d. overwrite d 0 BSIZE (\<lambda>_. 0)) (cache_view p u)"
    using bzero_runs [OF r] by blast
  have "bread 1 ?m s = Ok bp s1"
    using o by (simp add: opened_def)
  then have "balloc_turn 1 b s = Ok (Inr n) t"
    using u(1) t(1) d assms(4,5) by (simp add: balloc_turn_def run_simps n_def seq_then)
  then show ?thesis
    using t(3) log_ready_after [OF r t(2,3)] by (auto simp: u(3))
qed

lemma same_view:
  assumes "cache_view p t = cache_view p s" and "cache_ok p t" and "cache_ok p s"
  shows "off_cache t = off_cache s" and "cache_content t = cache_content s" and "k_disk t = k_disk s"
    and "k_log t = k_log s" and "k_sb t = k_sb s" and "room p t ns = room p s ns"
proof -
  show o: "off_cache t = off_cache s" and "cache_content t = cache_content s" and "k_disk t = k_disk s"
    using assms(1) by (simp_all add: cache_view_def)
  then show "k_log t = k_log s" and "k_sb t = k_sb s"
    by (simp_all add: off_cache_def)
  moreover have "cache_refs t = cache_refs s"
    using assms(1) by (simp add: cache_view_def)
  ultimately show "room p t ns = room p s ns"
    using assms by (simp add: room_def log_ready_def)
qed

lemma marked_at: "q * 8192 + i < 2 ^ 32 \<Longrightarrow> i < 8192 \<Longrightarrow> marked s (q * 8192 + i) =
    bmap_bit (cache_content s (of_nat q + sb_bmapstart (k_sb s))) i"
  by (simp add: marked_def BBLOCK_of_nat del: of_nat_add of_nat_mult)

lemma scan_none:
  assumes "q * 8192 < 2 ^ 31" and "\<And>b. b < q * 8192 + 8192 \<Longrightarrow> b < unat (sb_size (k_sb s)) \<Longrightarrow> marked s b"
  shows "balloc_scan (of_nat (q * 8192)) (sb_size (k_sb s)) (cache_content s (BBLOCK (of_nat (q * 8192)) (k_sb s))) = None"
proof -
  have n: "BBLOCK (of_nat (q * 8192)) (k_sb s) = of_nat q + sb_bmapstart (k_sb s)"
    using assms(1) by (subst BBLOCK_of_nat) simp_all
  have u: "unat (of_nat (q * 8192) :: u32) = q * 8192"
    using assms(1) by (intro unat_of_nat_small) simp
  show ?thesis
    unfolding n balloc_scan_None u
  proof (intro allI impI)
    fix i assume i: "i < 8192" "q * 8192 + i < unat (sb_size (k_sb s))"
    then have "marked s (q * 8192 + i)"
      by (intro assms(2)) simp_all
    with i assms(1) show "bmap_bit (cache_content s (of_nat q + sb_bmapstart (k_sb s))) i"
      by (simp add: marked_at)
  qed
qed

text \<open>Full bitmap blocks are passed over.\<close>

lemma balloc_passes:
  assumes "room p s ns" and "unat (sb_size (k_sb s)) < 2 ^ 31" and "k < n"
    and "\<And>b. b < (q + k) * 8192 \<Longrightarrow> b < unat (sb_size (k_sb s)) \<Longrightarrow> marked s b"
    and "k \<noteq> 0 \<Longrightarrow> (q + k - 1) * 8192 < unat (sb_size (k_sb s))"
  shows "\<exists>t. loop n (balloc_turn 1) (of_nat (q * 8192)) s = loop (n - k) (balloc_turn 1) (of_nat ((q + k) * 8192)) t \<and>
    cache_ok p t \<and> cache_view p t = cache_view p s"
  using assms
proof (induction k arbitrary: n q s)
  case 0
  then show ?case
    using ready_basics(1) [OF roomD(1) [OF 0(1)]] by auto
next
  case (Suc k)
  have lt: "q * 8192 < unat (sb_size (k_sb s))"
    using Suc.prems(5) by (simp add: algebra_simps)
  have sz: "of_nat (q * 8192) < sb_size (k_sb s)"
    using lt Suc.prems(2) unat_of_nat_small [of "q * 8192", where 'a = 32] by (simp add: word_less_nat_alt del: of_nat_mult)
  have "balloc_scan (of_nat (q * 8192)) (sb_size (k_sb s)) (cache_content s (BBLOCK (of_nat (q * 8192)) (k_sb s))) = None"
    using lt Suc.prems(2,4) by (intro scan_none) (auto simp: algebra_simps)
  then obtain u where u: "balloc_turn 1 (of_nat (q * 8192)) s = Ok (Inl (of_nat (q * 8192) + BPB)) u" "cache_ok p u" "cache_view p u = cache_view p s"
    using balloc_turn_full [OF Suc.prems(1) sz] by blast
  note v = same_view [OF u(3,2) ready_basics(1) [OF roomD(1) [OF Suc.prems(1)]]]
  have nx: "of_nat (q * 8192) + BPB = of_nat (Suc q * 8192)"
    by simp
  have "marked u = marked s"
    by (simp add: fun_eq_iff marked_def v)
  then obtain t where t: "loop (n - 1) (balloc_turn 1) (of_nat (Suc q * 8192)) u = loop (n - 1 - k) (balloc_turn 1) (of_nat ((Suc q + k) * 8192)) t"
      "cache_ok p t" "cache_view p t = cache_view p u"
    using Suc.IH [of u "n - 1" "Suc q"] Suc.prems less_diff_conv [of k n 1] by (auto simp: v)
  have "n - 1 - k = n - Suc k" "Suc q + k = q + Suc k"
    by simp_all
  note t(1) [unfolded this]
  moreover have "loop n (balloc_turn 1) (of_nat (q * 8192)) s = loop (n - 1) (balloc_turn 1) (of_nat (Suc q * 8192)) u"
    using Suc.prems(3) u(1) nx by (subst loop_unfold) (simp_all add: run_simps del: of_nat_mult)
  ultimately show ?case
    using u(3) t(2,3) by (intro exI [of _ t]) (simp only: simp_thms)
qed

lemma loop_last: "body x s = Ok (Inr v) t \<Longrightarrow> 0 < n \<Longrightarrow> loop n body x s = Ok v t"
  "body x s = Panic e \<Longrightarrow> 0 < n \<Longrightarrow> loop n body x s = Panic e"
  by (simp_all add: loop_unfold bind_def return_def)

text \<open>The lowest block that the bitmap does not mark.\<close>

definition first_free :: "kstate \<Rightarrow> nat \<Rightarrow> bool" where
  "first_free s b \<longleftrightarrow> b < unat (sb_size (k_sb s)) \<and> \<not> marked s b \<and> (\<forall>j<b. marked s j)"

lemma balloc_loop_found:
  assumes "room p s {BBLOCK (of_nat b) (k_sb s), of_nat b}" and "unat (sb_size (k_sb s)) < 2 ^ 31"
    and "BBLOCK (of_nat b) (k_sb s) \<noteq> of_nat b" and "first_free s b"
  shows "\<exists>t. loop (2 ^ 19 + 1) (balloc_turn 1) 0 s = Ok (of_nat b) t \<and> log_ready p t \<and>
    cache_view p t = seen_logged (of_nat b) (\<lambda>d. overwrite d 0 BSIZE (\<lambda>_. 0))
      (seen_logged (BBLOCK (of_nat b) (k_sb s)) (set_bmap_bit (b mod 8192) True) (cache_view p s))"
proof -
  let ?q = "b div 8192"
  have b: "b < 2 ^ 31" "b < unat (sb_size (k_sb s))" "\<not> marked s b" "\<And>j. j < b \<Longrightarrow> marked s j"
    using assms(2,4) by (simp_all add: first_free_def)
  have q: "?q * 8192 \<le> b" "?q < 2 ^ 19 + 1" "?q * 8192 + b mod 8192 = b"
    using b(1) by simp_all
  have le: "of_nat (?q * 8192) + (of_nat (b mod 8192) :: u32) = of_nat b"
    using q(3) by (metis of_nat_add)
  have bb: "BBLOCK (of_nat (?q * 8192)) (k_sb s) = BBLOCK (of_nat b) (k_sb s)"
    using b(1) q(1) by (simp add: BBLOCK_of_nat del: of_nat_mult)
  obtain u where u: "loop (2 ^ 19 + 1) (balloc_turn 1) (of_nat (0 * 8192)) s = loop (2 ^ 19 + 1 - ?q) (balloc_turn 1) (of_nat ((0 + ?q) * 8192)) u"
      "cache_ok p u" "cache_view p u = cache_view p s"
  proof -
    have "marked s j" if "j < (0 + ?q) * 8192" for j
      using that q(1) by (intro b(4)) simp
    moreover have "(0 + ?q - 1) * 8192 < unat (sb_size (k_sb s))"
      by (rule order_le_less_trans [OF _ b(2)], rule order_trans [OF _ q(1)]) simp
    ultimately show thesis
      using balloc_passes [OF assms(1,2) q(2), of 0] that by blast
  qed
  note v = same_view [OF u(3,2) ready_basics(1) [OF roomD(1) [OF assms(1)]]]
  have un: "unat (of_nat (?q * 8192) :: u32) = ?q * 8192"
    using b(1) q(1) by (intro unat_of_nat_small) simp
  have sc: "balloc_scan (of_nat (?q * 8192)) (sb_size (k_sb s)) (cache_content s (BBLOCK (of_nat b) (k_sb s))) = Some (b mod 8192)"
  proof (rule balloc_scan_Some)
    show "\<not> bmap_bit (cache_content s (BBLOCK (of_nat b) (k_sb s))) (b mod 8192)"
      using b(3) by (simp add: marked_def)
    show "bmap_bit (cache_content s (BBLOCK (of_nat b) (k_sb s))) j" if "j < b mod 8192" for j
    proof -
      have "marked s (?q * 8192 + j)"
        using that q(3) by (intro b(4)) linarith
      then show ?thesis
        using that b(1) q(3) marked_at [of ?q j s] by (simp add: BBLOCK_of_nat)
    qed
    show "unat (of_nat (?q * 8192) :: u32) + b mod 8192 < unat (sb_size (k_sb s))"
      unfolding un using b(2) q(3) by simp
  qed simp
  have sz: "of_nat (?q * 8192) < sb_size (k_sb u)"
    using un b(2) q(1) by (simp add: v word_less_nat_alt del: of_nat_mult)
  obtain t where "balloc_turn 1 (of_nat (?q * 8192)) u = Ok (Inr (of_nat b)) t" "log_ready p t"
      "cache_view p t = seen_logged (of_nat b) (\<lambda>d. overwrite d 0 BSIZE (\<lambda>_. 0))
        (seen_logged (BBLOCK (of_nat b) (k_sb s)) (set_bmap_bit (b mod 8192) True) (cache_view p u))"
    using balloc_turn_found [of p u "of_nat (?q * 8192)" "b mod 8192"] sz assms(1,3) sc
    unfolding le v bb by blast
  then show ?thesis
    using u(1,3) q(2) by (intro exI [of _ t]) (simp add: loop_last del: of_nat_mult)
qed

lemma balloc_loop_full:
  assumes "room p s ns" and "unat (sb_size (k_sb s)) < 2 ^ 31" and "\<And>j. j < unat (sb_size (k_sb s)) \<Longrightarrow> marked s j"
  shows "loop (2 ^ 19 + 1) (balloc_turn 1) 0 s = Panic ''balloc: out of blocks''"
proof -
  define k where "k = (unat (sb_size (k_sb s)) + 8191) div 8192"
  have k: "unat (sb_size (k_sb s)) \<le> k * 8192" "k < 2 ^ 19 + 1" "k * 8192 < 2 ^ 32"
      "k \<noteq> 0 \<Longrightarrow> (0 + k - 1) * 8192 < unat (sb_size (k_sb s))"
    using assms(2) by (auto simp: k_def)
  obtain u where u: "loop (2 ^ 19 + 1) (balloc_turn 1) (of_nat (0 * 8192)) s = loop (2 ^ 19 + 1 - k) (balloc_turn 1) (of_nat ((0 + k) * 8192)) u"
      "cache_ok p u" "cache_view p u = cache_view p s"
    using balloc_passes [OF assms(1,2) k(2), of 0] assms(3) k(4) by blast
  note v = same_view [OF u(3,2) ready_basics(1) [OF roomD(1) [OF assms(1)]]]
  have "\<not> of_nat (k * 8192) < sb_size (k_sb u)"
    using k(1,3) unat_of_nat_small [of "k * 8192", where 'a = 32] by (simp add: v word_less_nat_alt del: of_nat_mult)
  then have "balloc_turn 1 (of_nat (k * 8192)) u = Panic ''balloc: out of blocks''"
    by (simp add: balloc_turn_def run_simps del: of_nat_mult)
  then show ?thesis
    using u(1) k(2) by (simp add: loop_last del: of_nat_mult)
qed

text \<open>The blocks of the bitmap are themselves marked as used, as \<open>mkfs\<close> leaves them.\<close>

definition bitmap_marked :: "kstate \<Rightarrow> bool" where
  "bitmap_marked s \<longleftrightarrow> unat (sb_size (k_sb s)) < 2 ^ 31 \<and>
     (\<forall>j<unat (sb_size (k_sb s)). marked s (unat (BBLOCK (of_nat j) (k_sb s))))"

lemma marked_update:
  assumes "k_sb t = k_sb s" and "cache_content t (BBLOCK (of_nat j) (k_sb s)) =
      ((cache_content s)(BBLOCK (of_nat b) (k_sb s) := set_bmap_bit (b mod 8192) v (cache_content s (BBLOCK (of_nat b) (k_sb s))))) (BBLOCK (of_nat j) (k_sb s))"
    and "j < 2 ^ 31" and "b < 2 ^ 31"
  shows "marked t j \<longleftrightarrow> (if j = b then v else marked s j)"
proof -
  have "j div 8192 = b div 8192" if "BBLOCK (of_nat j) (k_sb s) = BBLOCK (of_nat b) (k_sb s)"
  proof -
    have "(of_nat (j div 8192) :: u32) = of_nat (b div 8192)"
      using that assms(3,4) by (simp add: BBLOCK_of_nat)
    then have "unat (of_nat (j div 8192) :: u32) = unat (of_nat (b div 8192) :: u32)"
      by simp
    then show ?thesis
      using assms(3,4) by (simp add: unat_of_nat)
  qed
  then have "j = b" if "BBLOCK (of_nat j) (k_sb s) = BBLOCK (of_nat b) (k_sb s)" "j mod 8192 = b mod 8192"
    using that by (metis div_mult_mod_eq)
  then show ?thesis
    using assms(1,2) by (auto simp: marked_def bmap_bit_set_if)
qed

section \<open>A file system for the witnesses\<close>

text \<open>A file system of 60 blocks whose bitmap is block 50, with blocks 0 to 55 in use, in an open transaction.\<close>

definition demo_disk :: "u32 \<Rightarrow> bytes" where
  "demo_disk n = (if n = 50 then (\<lambda>i. if i < 7 then 255 else 0) else (\<lambda>_. 3))"

definition demo_on :: "(u32 \<Rightarrow> bytes) \<Rightarrow> kstate" where
  "demo_on d = (demo_boot d)\<lparr>k_log := (k_log (demo_boot d))\<lparr>l_outstanding := 1\<rparr>,
     k_sb := (k_sb zero_state)\<lparr>sb_size := 60, sb_inodestart := 40, sb_bmapstart := 50\<rparr>,
     k_procs := (k_procs zero_state)(2 := (k_procs zero_state 2)\<lparr>p_container := Some 3\<rparr>),
     k_conts := (k_conts zero_state)(3 := (k_conts zero_state 3)\<lparr>ct_disklimit := 10\<rparr>),
     k_inodes := (k_inodes zero_state)(3 := (k_inodes zero_state 3)\<lparr>i_dev := 1, i_inum := 17, i_type := 2, i_nlink := 1, i_size := 5\<rparr>)\<rparr>"

abbreviation demo_fs :: kstate where "demo_fs \<equiv> demo_on demo_disk"

lemma demo_fs_cache:
  "cache_ok 2 (demo_on d)" "cache_refs (demo_on d) n = 0" "\<not> cache_taken (demo_on d) n" "cache_content (demo_on d) n = d n"
  "in_use (cache_view 2 (demo_on d)) = 0"
proof -
  have "quiet 2 (demo_on d)"
    by (simp add: demo_on_def demo_boot_def quiet_def calm_def running_def lock_free_def demo_running_def zero_state_def)
  moreover have b: "k_bufs (demo_on d) = fresh_bufs" "uniq fresh_bufs" "\<And>b. buf_ok (demo_on d) b"
    by (simp_all add: uniq_def demo_caches)
      (simp_all add: buf_ok_def demo_on_def demo_boot_def fresh_bufs_def demo_running_def zero_state_def zero_buf_def)
  ultimately show "cache_ok 2 (demo_on d)"
    using demo_ring(1) by (auto simp: cache_ok_def)
  show "cache_refs (demo_on d) n = 0" for n
    by (simp add: cache_refs_def b demo_cached)
  then show "in_use (cache_view 2 (demo_on d)) = 0"
    by (simp add: in_use_def cache_view_def)
  show "\<not> cache_taken (demo_on d) n" "cache_content (demo_on d) n = d n"
    by (simp_all add: cache_taken_def cache_content_def b demo_cached)
      (simp add: demo_on_def demo_boot_def)
qed

lemma demo_fs_fields:
  "k_sb (demo_on d) = (k_sb zero_state)\<lparr>sb_size := 60, sb_inodestart := 40, sb_bmapstart := 50\<rparr>"
  "k_log (demo_on d) = (k_log (demo_boot d))\<lparr>l_outstanding := 1\<rparr>" "k_started (demo_on d)"
  "p_container (k_procs (demo_on d) 2) = Some 3" "ct_diskused (k_conts (demo_on d) 3) = 0" "ct_disklimit (k_conts (demo_on d) 3) = 10"
  "k_inodes (demo_on d) 3 = (k_inodes zero_state 3)\<lparr>i_dev := 1, i_inum := 17, i_type := 2, i_nlink := 1, i_size := 5\<rparr>"
  "k_disk (demo_on d) = d"
  by (simp_all add: demo_on_def demo_boot_def demo_running_def zero_state_def zero_cont_def)

lemma slot_small: "i < 20 \<Longrightarrow> 32 \<le> n \<Longrightarrow> n \<noteq> slot 2 i"
  by (auto simp: slot_def word_le_nat_alt unat_word_ariths unat_of_nat)

lemma demo_fs_room:
  assumes "card ns \<le> 2" and "\<And>n. n \<in> ns \<Longrightarrow> 32 \<le> n"
  shows "room 2 (demo_on d) ns"
proof -
  have "log_ready 2 (demo_on d)"
    using demo_fs_cache by (simp add: log_ready_def demo_fs_fields) (simp add: demo_boot_def cache_view_def demo_running_def zero_state_def zero_log_def)
  moreover have n: "n \<noteq> 2" "i < card ns \<Longrightarrow> n \<noteq> slot 2 i" if "n \<in> ns" for n i
    using assms(2) [OF that] slot_small [of i n] assms(1) by auto
  ultimately show ?thesis
    unfolding room_def Let_def
    using assms(1) n by (auto simp: demo_fs_fields demo_fs_cache) (auto simp: demo_boot_def demo_running_def zero_state_def zero_log_def)
qed

lemma demo_fs_bblock: "b < 60 \<Longrightarrow> BBLOCK (of_nat b) (k_sb demo_fs) = 50"
  by (simp add: BBLOCK_of_nat demo_fs_fields)

lemma demo_fs_marked: "b < 60 \<Longrightarrow> marked demo_fs b \<longleftrightarrow> b < 56"
proof -
  assume b: "b < 60"
  have "bit (255 :: u8) k" if "k < 8" for k
  proof -
    have "(255 :: u8) = mask 8"
      by (simp add: mask_eq_exp_minus_1)
    then show ?thesis
      unfolding \<open>255 = mask 8\<close> using that by (simp only: bit_mask_iff) simp
  qed
  moreover have "b div 8 < 7 \<longleftrightarrow> b < 56"
    by (simp add: div_less_iff_less_mult)
  ultimately show ?thesis
    using b by (simp add: marked_def demo_fs_bblock demo_fs_cache demo_disk_def bmap_bit_def)
qed

section \<open>Properties\<close>

text \<open>C8 (allocation). \<open>balloc\<close>, within a transaction that has room for two blocks and for a
  process within its container's disk limit, returns the lowest block that the bitmap does not
  mark: afterwards exactly that block is marked in addition, its contents are all zero, every
  block that is neither in the bitmap nor the new one is as before, nothing has reached the disk,
  and the container is charged one block. When every block is marked it panics.\<close>

theorem balloc_allocates:
  assumes "room p s {BBLOCK (of_nat b) (k_sb s), of_nat b}" and "bitmap_marked s"
    and "p_container (k_procs s p) = Some c" and "c = 0 \<or> ct_diskused (k_conts s c) < ct_disklimit (k_conts s c)"
  shows "(first_free s b \<longrightarrow> (\<exists>t. balloc 1 s = Ok (of_nat b) t \<and> log_ready p t \<and>
      (\<forall>j<unat (sb_size (k_sb s)). marked t j \<longleftrightarrow> j = b \<or> marked s j) \<and>
      (\<forall>i<BSIZE. cache_content t (of_nat b) i = 0) \<and>
      (\<forall>n. n \<noteq> of_nat b \<longrightarrow> n \<noteq> BBLOCK (of_nat b) (k_sb s) \<longrightarrow> cache_content t n = cache_content s n) \<and>
      k_disk t = k_disk s \<and> ct_diskused (k_conts t c) = ct_diskused (k_conts s c) + 1)) \<and>
    ((\<forall>j<unat (sb_size (k_sb s)). marked s j) \<longrightarrow> balloc 1 s = Panic ''balloc: out of blocks'')"
proof (intro conjI impI)
  let ?s = "dcharge c 1 s" and ?n = "BBLOCK (of_nat b) (k_sb s)"
  have q: "quiet p s"
    using ready_basics(1) [OF roomD(1) [OF assms(1)]] cache_okD(1) by blast
  have run: "balloc 1 s = loop (2 ^ 19 + 1) (balloc_turn 1) 0 ?s"
    using charge_runs [OF q assms(3,4)] by (simp add: balloc_def run_simps)
  have r: "room p ?s {BBLOCK (of_nat b) (k_sb ?s), of_nat b}" and sz: "unat (sb_size (k_sb ?s)) < 2 ^ 31"
    using assms(1,2) by (simp_all add: bitmap_marked_def)
  have m: "marked ?s = marked s"
    by (simp add: marked_def fun_eq_iff)
  show "balloc 1 s = Panic ''balloc: out of blocks''" if "\<forall>j<unat (sb_size (k_sb s)). marked s j"
    unfolding run by (rule balloc_loop_full [OF r sz]) (use that m in simp)
  assume f: "first_free s b"
  then have b: "b < unat (sb_size (k_sb s))" "b < 2 ^ 31" "\<not> marked s b"
    using sz by (auto simp: first_free_def)
  have apart: "BBLOCK (of_nat j) (k_sb s) \<noteq> of_nat b" if "j < unat (sb_size (k_sb s))" for j
  proof
    assume "BBLOCK (of_nat j) (k_sb s) = of_nat b"
    then have "marked s (unat (of_nat b :: u32))"
      using assms(2) that by (metis bitmap_marked_def)
    with b(2,3) show False
      by (simp add: unat_of_nat)
  qed
  obtain t where t: "balloc 1 s = Ok (of_nat b) t" "log_ready p t"
      "cache_view p t = seen_logged (of_nat b) (\<lambda>d. overwrite d 0 BSIZE (\<lambda>_. 0))
        (seen_logged ?n (set_bmap_bit (b mod 8192) True) (cache_view p ?s))"
    using balloc_loop_found [OF r sz] apart [OF b(1)] f m unfolding run by (auto simp: first_free_def)
  have c: "cache_content t = (cache_content s)(?n := set_bmap_bit (b mod 8192) True (cache_content s ?n),
      of_nat b := overwrite (cache_content s (of_nat b)) 0 BSIZE (\<lambda>_. 0))"
    and o: "snd (off_cache t) = snd (off_cache ?s)" and "k_disk t = k_disk s"
    using after_logged2 [OF t(3)] apart [OF b(1)] by simp_all
  note o = off_cacheD [OF o]
  have "marked t j \<longleftrightarrow> j = b \<or> marked s j" if "j < unat (sb_size (k_sb s))" for j
    using marked_update [of t s j b True] apart [OF that] that sz b(2) by (auto simp: c o)
  then show "\<exists>t. balloc 1 s = Ok (of_nat b) t \<and> log_ready p t \<and>
      (\<forall>j<unat (sb_size (k_sb s)). marked t j \<longleftrightarrow> j = b \<or> marked s j) \<and>
      (\<forall>i<BSIZE. cache_content t (of_nat b) i = 0) \<and>
      (\<forall>n. n \<noteq> of_nat b \<longrightarrow> n \<noteq> ?n \<longrightarrow> cache_content t n = cache_content s n) \<and>
      k_disk t = k_disk s \<and> ct_diskused (k_conts t c) = ct_diskused (k_conts s c) + 1"
    using t(1,2) c o \<open>k_disk t = k_disk s\<close> by (intro exI [of _ t]) simp
qed

theorem balloc_allocates_witness:
  "\<exists>t. balloc 1 demo_fs = Ok 56 t \<and> marked t 56 \<and> \<not> marked t 57 \<and> cache_content t 56 0 = 0 \<and> ct_diskused (k_conts t 3) = 1"
proof -
  have bb: "BBLOCK (of_nat 56) (k_sb demo_fs) = 50"
    by (rule demo_fs_bblock) simp
  have "card {BBLOCK (of_nat 56) (k_sb demo_fs), of_nat 56} \<le> 2"
    by (simp add: card_insert_if)
  then have "room 2 demo_fs {BBLOCK (of_nat 56) (k_sb demo_fs), of_nat 56}"
    by (rule demo_fs_room) (use bb in auto)
  moreover have sz: "unat (sb_size (k_sb demo_fs)) = 60"
    by (simp add: demo_fs_fields)
  then have "bitmap_marked demo_fs" and "first_free demo_fs 56"
    by (simp_all add: bitmap_marked_def first_free_def demo_fs_bblock demo_fs_marked)
  ultimately obtain t where "balloc 1 demo_fs = Ok (of_nat 56) t" "\<forall>j<60. marked t j \<longleftrightarrow> j = 56 \<or> marked demo_fs j"
      "\<forall>i<BSIZE. cache_content t (of_nat 56) i = 0" "ct_diskused (k_conts t 3) = ct_diskused (k_conts demo_fs 3) + 1"
    using balloc_allocates [of 2 demo_fs 56 3] unfolding sz by (auto simp: demo_fs_fields)
  then show ?thesis
    by (auto simp: demo_fs_marked demo_fs_fields)
qed

text \<open>C9 (freeing). \<open>bfree\<close> of a block that the bitmap marks, within a transaction that has room
  for the bitmap block, unmarks exactly that block, leaves every block outside the bitmap and the
  disk alone, and takes one block off the container's charge; of a block that is already free, it
  panics.\<close>

theorem bfree_frees:
  assumes "k_started s" and "p_container (k_procs s p) = Some c"
    and "room p s {BBLOCK (of_nat b) (k_sb s)}" and "unat (sb_size (k_sb s)) < 2 ^ 31" and "b < unat (sb_size (k_sb s))"
  shows "if marked s b
    then \<exists>t. bfree 1 (of_nat b) s = Ok () t \<and> log_ready p t \<and>
      (\<forall>j<unat (sb_size (k_sb s)). marked t j \<longleftrightarrow> j \<noteq> b \<and> marked s j) \<and>
      (\<forall>n. n \<noteq> BBLOCK (of_nat b) (k_sb s) \<longrightarrow> cache_content t n = cache_content s n) \<and>
      k_disk t = k_disk s \<and> ct_diskused (k_conts t c) = ct_diskused (k_conts s c) - 1
    else bfree 1 (of_nat b) s = Panic ''freeing free block''"
proof (cases "marked s b")
  case False
  then show ?thesis
    using bfree_runs [OF assms(1-3), of b] assms(4,5) by simp
next
  case True
  let ?n = "BBLOCK (of_nat b) (k_sb s)" and ?s = "dcharge c (- 1) s"
  obtain t where t: "bfree 1 (of_nat b) s = Ok () t" "cache_ok p t"
      "cache_view p t = seen_logged ?n (set_bmap_bit (b mod 8192) False) (cache_view p ?s)"
    using bfree_runs [OF assms(1-3), of b] assms(4,5) True by auto
  note a = after_logged [OF t(3)] and o = off_cacheD [OF after_logged(3) [OF t(3)]]
  have "can_log p ?s ?n"
    using assms(3) by (intro room_log [of p ?s "{?n}"]) simp_all
  then have "log_ready p t"
    using log_ready_after t(2,3) by blast
  moreover have "marked t j \<longleftrightarrow> j \<noteq> b \<and> marked s j" if "j < unat (sb_size (k_sb s))" for j
    using marked_update [of t s j b False] that assms(4,5) by (simp add: a(4) o)
  ultimately show ?thesis
    using True t(1) a(2,4) o by (auto intro!: exI [of _ t])
qed

theorem bfree_frees_witness:
  "(\<exists>t. bfree 1 20 demo_fs = Ok () t \<and> \<not> marked t 20 \<and> marked t 21) \<and> bfree 1 57 demo_fs = Panic ''freeing free block''"
proof -
  have sz: "unat (sb_size (k_sb demo_fs)) = 60"
    by (simp add: demo_fs_fields)
  have r: "room 2 demo_fs {BBLOCK (of_nat b) (k_sb demo_fs)}" if "b < 60" for b
    using that by (intro demo_fs_room) (simp_all add: demo_fs_bblock)
  note f = bfree_frees [OF demo_fs_fields(3,4) r]
  have "\<exists>t. bfree 1 (of_nat 20) demo_fs = Ok () t \<and> (\<forall>j<60. marked t j \<longleftrightarrow> j \<noteq> 20 \<and> marked demo_fs j)"
    using f [of 20] by (auto simp: sz demo_fs_marked)
  moreover have "bfree 1 (of_nat 57) demo_fs = Panic ''freeing free block''"
    using f [of 57] by (simp add: sz demo_fs_marked)
  ultimately show ?thesis
    by (auto simp: demo_fs_marked)
qed

text \<open>C10 (inodes on disk). \<open>iupdate\<close>, within a transaction with room for the inode's block, stores
  the inode so that reading its slot back gives the type, device numbers, link count, size and
  block addresses it has in memory. The other inodes of the block and all other blocks keep their
  contents, the block is logged, and nothing has reached the disk.\<close>

theorem iupdate_stores:
  assumes "i_dev (k_inodes s ip) = 1" and "can_log p s (IBLOCK (i_inum (k_inodes s ip)) (k_sb s))"
  shows "\<exists>t. iupdate ip s = Ok () t \<and> log_ready p t \<and> k_disk t = k_disk s \<and>
    IBLOCK (i_inum (k_inodes s ip)) (k_sb s) \<in> set (logged_blocks (k_log t)) \<and>
    (\<forall>inum x. get_dinode (dinode_off inum) (cache_content t (IBLOCK inum (k_sb s))) x =
      (if inum = i_inum (k_inodes s ip) then persisted (k_inodes s ip) x
       else get_dinode (dinode_off inum) (cache_content s (IBLOCK inum (k_sb s))) x)) \<and>
    (\<forall>n. n \<noteq> IBLOCK (i_inum (k_inodes s ip)) (k_sb s) \<longrightarrow> cache_content t n = cache_content s n)"
proof -
  let ?i = "k_inodes s ip" and ?n = "IBLOCK (i_inum (k_inodes s ip)) (k_sb s)"
  obtain t where t: "iupdate ip s = Ok () t" "cache_ok p t"
      "cache_view p t = seen_logged ?n (put_dinode (dinode_off (i_inum ?i)) ?i) (cache_view p s)"
    using iupdate_runs [OF assms] by blast
  note a = after_logged [OF t(3)]
  have "?n \<in> set (logged_blocks (k_log t))"
    using logged_with_block [OF can_logD(4) [OF assms(2)]] by (simp add: a(1))
  moreover have "get_dinode (dinode_off inum) (cache_content t (IBLOCK inum (k_sb s))) x =
      (if inum = i_inum ?i then persisted ?i x
       else get_dinode (dinode_off inum) (cache_content s (IBLOCK inum (k_sb s))) x)" for inum x
    by (rule dinode_updated) (simp add: a(4))
  ultimately show ?thesis
    using t(1) a(2,4) log_ready_after [OF assms(2) t(2,3)] by (intro exI [of _ t]) simp
qed

theorem iupdate_stores_witness:
  "\<exists>t. iupdate 3 demo_fs = Ok () t \<and> 41 \<in> set (logged_blocks (k_log t)) \<and>
     i_size (get_dinode 64 (cache_content t 41) zero_inode) = 5 \<and> cache_content t 42 = cache_content demo_fs 42"
proof -
  have n: "IBLOCK (i_inum (k_inodes demo_fs 3)) (k_sb demo_fs) = 41" "dinode_off 17 = 64" "IBLOCK 17 (k_sb demo_fs) = 41"
    by (simp_all add: demo_fs_fields IBLOCK_def dinode_off_def)
  have "can_log 2 demo_fs (IBLOCK (i_inum (k_inodes demo_fs 3)) (k_sb demo_fs))"
    unfolding n by (intro room_log [of 2 demo_fs "{41}"] demo_fs_room) auto
  moreover have d: "i_dev (k_inodes demo_fs 3) = 1" "i_inum (k_inodes demo_fs 3) = 17" "i_size (k_inodes demo_fs 3) = 5"
    by (simp_all add: demo_fs_fields)
  ultimately obtain t where t: "iupdate 3 demo_fs = Ok () t" "41 \<in> set (logged_blocks (k_log t))"
      "\<forall>inum x. get_dinode (dinode_off inum) (cache_content t (IBLOCK inum (k_sb demo_fs))) x =
        (if inum = 17 then persisted (k_inodes demo_fs 3) x
         else get_dinode (dinode_off inum) (cache_content demo_fs (IBLOCK inum (k_sb demo_fs))) x)"
      "\<forall>m. m \<noteq> 41 \<longrightarrow> cache_content t m = cache_content demo_fs m"
    using iupdate_stores [of demo_fs 3 2] unfolding n d by blast
  show ?thesis
    using t(1,2,4) spec [OF t(3), of 17] by (auto simp: n persisted_def d)
qed

end
