(* ===== verification/Xv6_Transaction.thy ===== *)
theory Xv6_Transaction
  imports Xv6_Blocks
begin

text \<open>
  The end of a transaction: \<open>end_op\<close> of the last operation under way commits, and a transaction
  that changed a single block is, after a crash and recovery, either complete or absent.
\<close>

section \<open>Transactions\<close>

text \<open>The last operation of a transaction commits it.\<close>

lemma log_ready_upd_log:
  assumes "\<And>l. l_dev (f l) = l_dev l" "\<And>l. l_n (f l) = l_n l" "\<And>l. l_block (f l) = l_block l" "\<And>l. l_start (f l) = l_start l"
  shows "log_ready p (upd_log f s) = log_ready p s"
proof -
  have "k_log (upd_log f s) = f (k_log s)"
    by (simp add: upd_log_def)
  moreover have "bv_refs (cache_view p (upd_log f s)) = bv_refs (cache_view p s)"
      "bv_taken (cache_view p (upd_log f s)) = bv_taken (cache_view p s)"
      "in_use (cache_view p (upd_log f s)) = in_use (cache_view p s)"
    by (simp_all add: cache_view_upd_log in_use_def)
  ultimately show ?thesis
    by (simp add: log_ready_def Let_def assms)
qed

lemma end_op_commits:
  assumes "quiet p s" and "\<not> l_committing (k_log s)" and "l_outstanding (k_log s) = 1"
    and "commit (upd_log (\<lambda>l. l\<lparr>l_outstanding := 0, l_committing := True\<rparr>) s) = Ok () u" and "quiet p u"
  shows "end_op s = Ok () (waked ChLog (upd_log (\<lambda>l. l\<lparr>l_committing := False\<rparr>) u))"
proof -
  let ?f = "upd_log (\<lambda>l. l\<lparr>l_outstanding := 0, l_committing := True\<rparr>)" and ?g = "upd_log (\<lambda>l. l\<lparr>l_committing := False\<rparr>)"
  have o: "l_outstanding (k_log (locked_state LogLock s)) = 1" "\<not> l_committing (k_log (locked_state LogLock s))"
    using assms(2,3) by (simp_all add: locked_state_def irq_pushed_def upd_defs)
  have f: "upd_log (\<lambda>l. l\<lparr>l_committing := True\<rparr>) (upd_log (\<lambda>l. l\<lparr>l_outstanding := l_outstanding l - 1\<rparr>) (locked_state LogLock s)) =
      ?f (locked_state LogLock s)"
    using o by (simp add: upd_log_def)
  have r: "release LogLock (?f (locked_state LogLock s)) = Ok () (?f s)"
    using assms(1) by (intro release_quiet) simp_all
  have w: "wakeup ChLog (?g (locked_state LogLock u)) = Ok () (waked ChLog (?g (locked_state LogLock u)))"
    using wakeup_quiet_locked [OF assms(5), of LogLock ?g] by simp
  have r2: "release LogLock (waked ChLog (?g (locked_state LogLock u))) = Ok () (waked ChLog (?g u))"
  proof -
    have "off_lock (\<lambda>s. waked ChLog (?g s))"
      by (rule off_lock_comp) simp_all
    then show ?thesis
      using release_quiet [OF assms(5)] by blast
  qed
  show ?thesis
    using o assms(1,4,5) unfolding end_op_def by (simp add: run_simps f r w r2) (simp add: upd_log_def run_simps)
qed

text \<open>A transaction of a single block, before and after the crash.\<close>

definition one_block_safe :: "kstate \<Rightarrow> (u32 \<times> bytes) list \<Rightarrow> bool" where
  "one_block_safe s writes \<longleftrightarrow> (let start = l_start (k_log s) in
     \<forall>k q b. rebooted q start (written (take k writes) (k_disk s)) b \<longrightarrow>
       (\<exists>u. recover_from_log b = Ok () u \<and> (\<forall>m. m \<noteq> start \<longrightarrow> m \<noteq> slot start 0 \<longrightarrow>
         sector (k_disk u m) = sector (if 1 < k \<and> m = l_block (k_log s) 0 then cache_content s m else k_disk s m))))"

lemma commit_one_block:
  assumes "log_ready p s" and "l_n (k_log s) = 1" and "ld32 (k_disk s (l_start (k_log s))) 0 = 0"
  obtains u writes where "commit s = Ok () u" and "cache_ok p u" and "l_n (k_log u) = 0"
    and "k_dhist u = k_dhist s @ writes" and "k_disk u = written writes (k_disk s)" and "one_block_safe s writes"
proof -
  let ?start = "l_start (k_log s)"
  have n: "0 < l_n (k_log s)" and one: "nat (l_n (k_log s)) = 1"
    using assms(2) by simp_all
  obtain u where u: "commit s = Ok () u" "cache_ok p u" "k_log u = k_log s\<lparr>l_n := 0\<rparr>"
    by (rule commit_runs [OF assms(1) refl n])
  obtain writes where w: "k_dhist u = k_dhist s @ writes" "k_disk u = written writes (k_disk s)"
    and cr: "\<forall>k q b. rebooted q ?start (written (take k writes) (k_disk s)) b \<longrightarrow>
      (\<exists>u. recover_from_log b = Ok () u \<and> ld32 (k_disk u ?start) 0 = 0 \<and>
        (\<forall>m. m \<noteq> ?start \<longrightarrow> m \<notin> slot ?start ` {0} \<longrightarrow>
          sector (k_disk u m) = sector (if k \<le> 1 then k_disk s m else if m \<in> l_block (k_log s) ` {0} then cache_content s m else k_disk s m)))"
    using commit_recovers [OF assms(1) n assms(3)] u(1) by (auto simp: one lessThan_Suc cong: if_cong)
  have "one_block_safe s writes"
    unfolding one_block_safe_def Let_def
  proof (intro allI impI)
    fix k q b
    assume "rebooted q ?start (written (take k writes) (k_disk s)) b"
    then obtain v where "recover_from_log b = Ok () v"
        "\<forall>m. m \<noteq> ?start \<longrightarrow> m \<notin> slot ?start ` {0} \<longrightarrow>
          sector (k_disk v m) = sector (if k \<le> 1 then k_disk s m else if m \<in> l_block (k_log s) ` {0} then cache_content s m else k_disk s m)"
      using cr by blast
    then show "\<exists>u. recover_from_log b = Ok () u \<and> (\<forall>m. m \<noteq> ?start \<longrightarrow> m \<noteq> slot ?start 0 \<longrightarrow>
        sector (k_disk u m) = sector (if 1 < k \<and> m = l_block (k_log s) 0 then cache_content s m else k_disk s m))"
      by (intro exI [of _ v]) auto
  qed
  then show thesis
    using that u w by simp
qed

lemma end_op_one_block:
  assumes "log_ready p s" and "l_outstanding (k_log s) = 1" and "\<not> l_committing (k_log s)" and "l_n (k_log s) = 1"
    and "ld32 (k_disk s (l_start (k_log s))) 0 = 0"
  obtains t writes where "end_op s = Ok () t" and "l_n (k_log t) = 0" and "k_disk t = written writes (k_disk s)"
    and "k_dhist t = k_dhist s @ writes" and "one_block_safe s writes"
proof -
  let ?f = "\<lambda>l. l\<lparr>l_outstanding := 0, l_committing := True\<rparr>"
  let ?s = "upd_log ?f s"
  have lg: "k_log ?s = ?f (k_log s)" "k_disk ?s = k_disk s" "k_dhist ?s = k_dhist s"
    by (simp_all add: upd_log_def)
  have r: "log_ready p ?s"
    using assms(1) by (subst log_ready_upd_log) simp_all
  obtain u writes where u: "commit ?s = Ok () u" "cache_ok p u" "l_n (k_log u) = 0"
      "k_dhist u = k_dhist ?s @ writes" "k_disk u = written writes (k_disk ?s)" "one_block_safe ?s writes"
    using commit_one_block [OF r] assms(4,5) by (auto simp: lg)
  have "quiet p s" "quiet p u"
    using ready_basics(1) [OF assms(1)] u(2) cache_okD(1) by blast+
  then have "end_op s = Ok () (waked ChLog (upd_log (\<lambda>l. l\<lparr>l_committing := False\<rparr>) u))"
    using end_op_commits [of p s u] assms(2,3) u(1) by blast
  moreover have "one_block_safe s writes"
    using u(6) by (simp add: one_block_safe_def lg cong: if_cong)
  ultimately show thesis
    using that [of "waked ChLog (upd_log (\<lambda>l. l\<lparr>l_committing := False\<rparr>) u)" writes] u(3-5)
    by (simp add: lg) (simp add: upd_log_def)
qed

lemma get_dinode_sector:
  assumes "sector d = sector e"
  shows "get_dinode (dinode_off inum) d x = get_dinode (dinode_off inum) e x"
proof -
  have "unat (inum mod IPB) \<le> 15"
    by (simp add: unat_mod)
  then have off: "dinode_off inum + 64 \<le> BSIZE"
    by (simp add: dinode_off_def)
  have "d i = e i" if "i < dinode_off inum + 64" for i
    using assms off that by (simp add: sector_eq)
  then have "ld16 d k = ld16 e k" if "k + 2 \<le> dinode_off inum + 64" for k
    using that by (intro ld_cong) simp
  moreover have "ld32 d k = ld32 e k" if "k + 4 \<le> dinode_off inum + 64" for k
    using that \<open>\<And>i. i < dinode_off inum + 64 \<Longrightarrow> d i = e i\<close> by (intro ld_cong) simp
  ultimately show ?thesis
    by (auto simp: get_dinode_def fun_eq_iff)
qed

text \<open>The inodes of a disk on which the block of one inode is recovered, old or new.\<close>

lemma recovered_slot:
  assumes "sector d = sector (if 1 < k \<and> IBLOCK inum sb = IBLOCK (i_inum i) sb then c (IBLOCK inum sb) else disk (IBLOCK inum sb))"
    and "c (IBLOCK (i_inum i) sb) = put_dinode (dinode_off (i_inum i)) i (disk (IBLOCK (i_inum i) sb))"
  shows "get_dinode (dinode_off inum) d x =
    (if 1 < (k :: nat) \<and> inum = i_inum i then persisted i x else get_dinode (dinode_off inum) (disk (IBLOCK inum sb)) x)"
proof (cases "1 < k")
  let ?d = "disk(IBLOCK (i_inum i) sb := put_dinode (dinode_off (i_inum i)) i (disk (IBLOCK (i_inum i) sb)))"
  case True
  then have "sector d = sector (?d (IBLOCK inum sb))"
    using assms by auto
  then show ?thesis
    using get_dinode_sector [of d "?d (IBLOCK inum sb)" inum x] dinode_updated [of ?d inum sb disk i x] True by simp
qed (use get_dinode_sector [OF assms(1)] in simp)

end
