(* ===== verification/Spec2Isabelle.thy ===== *)
theory Spec2Isabelle
  imports Xv6_Trap Xv6_Wakeup Xv6_Sh Xv6_Inode Xv6_Transaction
begin

text \<open>
  A verification library for \<open>xv6-riscv-container\<close>: the xv6 teaching kernel for RISC-V,
  extended with containers that confine processes to a file-system root and limit their
  processes, memory and disk blocks.

  \<^bold>\<open>The program.\<close> A set of CPUs runs the kernel in \<open>src/kernel\<close>. User programs enter it through
  traps (\<open>trap.c\<close>), which dispatch system calls (\<open>syscall.c\<close>, \<open>sysproc.c\<close>, \<open>sysfile.c\<close>). Those
  work on processes and containers (\<open>proc.c\<close>, \<open>exec.c\<close>), address spaces (\<open>vm.c\<close>, \<open>kalloc.c\<close>),
  and files (\<open>file.c\<close>, \<open>pipe.c\<close>, \<open>console.c\<close>, \<open>fs.c\<close>). The file system sits on a write-ahead
  log (\<open>log.c\<close>), the log on a cache of disk blocks (\<open>bio.c\<close>), the cache on the disk driver
  (\<open>virtio_disk.c\<close>). Spin-locks (\<open>spinlock.c\<close>) and sleep-locks (\<open>sleeplock.c\<close>) guard all of it.

  \<^bold>\<open>How it is modelled.\<close> \<open>Xv6_Prelude\<close> has the outcome monad: a kernel routine is a function
  from a state to \<open>Ok value state\<close>, \<open>Panic message\<close>, \<open>Spin\<close> (waiting for another CPU forever)
  or \<open>Switch state\<close> (leaving through \<open>swtch\<close>). A routine that gives up the CPU has a second
  definition, named with \<open>return\<close> or \<open>wake\<close>, for what it does when it runs again. \<open>Xv6_State\<close>
  has one record per C structure and one record \<open>kstate\<close> for the globals; pointers to table
  entries are indices, machine integers are words or, where the code relies on C's signed
  arithmetic, integers. Kernel and user memory is a map from 64-bit addresses to bytes, disk
  blocks are byte maps with the layout of the C structures. One theory per source file follows,
  in the order of the calls:

  \<^item> \<open>Xv6_String\<close> (\<open>string.c\<close>, \<open>ulib.c\<close>), \<open>Xv6_Spinlock\<close>, \<open>Xv6_Printf\<close> (\<open>printf.c\<close>, \<open>uart.c\<close>),
    \<open>Xv6_Sched\<close> (the scheduling half of \<open>proc.c\<close>) and \<open>Xv6_Wakeup\<close> (its \<open>sleep\<close> and \<open>wakeup\<close> on two
    CPUs), \<open>Xv6_Kalloc\<close>, \<open>Xv6_Vm\<close> and \<open>Xv6_Copy\<close> (\<open>vm.c\<close>);
  \<^item> \<open>Xv6_Sleeplock\<close>, \<open>Xv6_Bio\<close> and \<open>Xv6_Cache\<close> (\<open>bio.c\<close>), \<open>Xv6_Log\<close>; \<open>Xv6_Fs\<close> with the definitions
    of \<open>fs.c\<close>, \<open>Xv6_Inode\<close>, \<open>Xv6_Blocks\<close> and \<open>Xv6_Transaction\<close> with the lemmas on its inode cache and
    paths, its blocks, and its transactions; \<open>Xv6_Ring\<close>, \<open>Xv6_Pipe\<close>, \<open>Xv6_Console\<close>, \<open>Xv6_File\<close>;
  \<^item> \<open>Xv6_Proc\<close> (processes and containers), \<open>Xv6_Exec\<close>, \<open>Xv6_Sysproc\<close>, \<open>Xv6_Sysfile\<close>, \<open>Xv6_Virtio\<close>,
    \<open>Xv6_Trap\<close> (with \<open>plic.c\<close> and \<open>main.c\<close>);
  \<^item> the programs in \<open>src/user\<close>: \<open>Xv6_User\<close> (system calls, \<open>ulib.c\<close>, \<open>printf.c\<close>), \<open>Xv6_Grep\<close>,
    \<open>Xv6_Utils\<close> (\<open>cat\<close>, \<open>wc\<close>, \<open>ls\<close>, \<open>init\<close>, the tools for containers and the other small programs),
    \<open>Xv6_Sh\<close>. A user program runs against a script of replies of the kernel, and its theorems hold
    for every script.

  \<^bold>\<open>What is shown.\<close> Each theory ends with its properties, introduced by a paragraph that states
  them. The interfaces between components are locales: \<open>page_allocator\<close>, interpreted on
  \<open>kalloc\<close> and \<open>kfree\<close>; \<open>buffer_cache\<close>, interpreted on \<open>bread\<close>, \<open>bwrite\<close>, \<open>brelse\<close>, \<open>bpin\<close> and
  \<open>bunpin\<close>, from whose laws the log is proved crash safe and the block operations of the file
  system are derived; and \<open>ring_queue\<close>, the bounded queue with wrapping counters, interpreted on
  the buffers of pipes and of consoles. Properties of interleaved execution (mutual exclusion of
  spin-locks, and that no wake-up is lost) are invariants of inductive step relations;
  properties of one routine are exact equations for its outcome from a state where no other CPU
  is inside a critical section (\<open>calm\<close>, \<open>quiet\<close>). For the user programs: the matcher of \<open>grep\<close>
  decides the language of its pattern, \<open>grep\<close> and \<open>wc\<close> compute their result for every way the
  input is cut into pieces, and the parser of the shell ends, inverts printing, and leaves its
  words intact.

  \<^bold>\<open>Granularity.\<close> An operation on a spin-lock is one step of the interleavings, interrupt nesting
  included; so is one statement of \<open>sleep\<close>, the test and the assignment in \<open>wakeup\<close>, and the hand
  over to the scheduler. All other routines run without interference; in particular the check
  and the increment of a container's charge in \<open>kalloc\<close>, which the code makes without a lock,
  are one step.

  \<^bold>\<open>Bounds.\<close> Loops over tables run over the index list of the table. Other loops are \<open>loop\<close> with
  fuel, one more than the number of rounds the code can make: \<open>NBUF + 1\<close> for a walk of the ring of
  buffers, \<open>2 ^ 52 + 1\<close> for a sweep over all pages, \<open>2 ^ 19 + 1\<close> for the bitmap blocks of a 32-bit
  disk size, \<open>n + 1\<close> for a transfer of \<open>n\<close> bytes. Running out of fuel is \<open>Spin\<close>, and the properties
  show that it does not happen. A loop of a user program that makes a call in every round has
  one round more than there are replies; the fuel of the shell's parser is four times the
  length of the line plus four, which is proved to be enough for every line.
  Signed overflow, undefined in C, wraps as the target's instructions do (\<open>atoi\<close>).

  \<^bold>\<open>Not modelled.\<close> Assembly (\<open>entry.S\<close>, \<open>kernelvec.S\<close>, \<open>swtch.S\<close>, \<open>trampoline.S\<close>, \<open>initcode.S\<close>) and
  the generated stubs, the machine-mode start-up, the RAM disk that is not built, \<open>malloc\<close> and
  \<open>free\<close> of \<open>umalloc.c\<close>, the loops of \<open>ps\<close>, \<open>cinfo\<close> and \<open>membomb\<close>, and the test programs
  (\<open>usertests\<close>, \<open>sctest\<close>, \<open>alarmtest\<close>).
\<close>

section \<open>Properties\<close>



end
